(* ===== verification/Prelude.thy ===== *)
theory Prelude
  imports Main "HOL-Library.Word" "HOL-Library.Monad_Syntax"
begin

text \<open>
  What the components share: the machine integers of the C++ sources and their layout in
  memory, the option monad in which every operation that can hit a failing \<open>assert\<close>, a null
  pointer or an out-of-bounds access is written, the weakest-precondition view of that monad
  that carries the component proofs, raw memory blocks, and \<open>std::map\<close> as a sorted
  association list.

  \<^item> A value \<open>None\<close> of an operation stands for a run that does not return normally: an
    \<open>assert\<close> of the source fails, a null pointer is dereferenced, or memory is accessed out of
    bounds. A theorem of the form \<open>wp m P\<close> therefore says that the operation returns, that no
    assertion of it fails and that its result satisfies \<open>P\<close>.
  \<^item> \<open>std::size_t\<close> values are \<open>nat\<close>: they count bytes of objects that exist in memory.
    \<open>int32_t\<close>, \<open>uint32_t\<close> and \<open>int64_t\<close> are words of their width, signed values being read
    with \<open>sint\<close>.
\<close>

unbundle bit_operations_syntax

named_theorems wp_rules \<open>weakest-precondition rules of the operations\<close>
named_theorems mem_defs \<open>layout of integers in memory\<close>

section \<open>Machine types\<close>

type_synonym byte = "8 word"
type_synonym u16 = "16 word"
type_synonym u32 = "32 word"
type_synonym u64 = "64 word"
type_synonym bytes = "8 word list"

text \<open>
  Converting a signed \<open>int\<close> to \<open>size_t\<close> (64 bits) sign-extends it and reads it as unsigned.
\<close>

definition size_of_int :: "u32 \<Rightarrow> nat" where
  "size_of_int x = unat (scast x :: u64)"

lemma sint32_lower: "- (2 ^ 31) \<le> sint (x :: u32)"
  using sint_greater_eq [of x] by simp

lemma sint32_upper: "sint (x :: u32) < 2 ^ 31"
  using sint_less [of x] by simp

lemma sint32_of_nat: "n < 2 ^ 31 \<Longrightarrow> sint (of_nat n :: u32) = int n"
proof -
  assume "n < 2 ^ 31"
  then have "- (2 ^ 31) \<le> int n" "int n < 2 ^ 31" by simp_all
  then have "sint (word_of_int (int n) :: u32) = int n"
    by (simp only: sint_sbintrunc' signed_take_bit_int_eq_self_iff) simp
  then show ?thesis by simp
qed

lemma size_of_int_nonneg:
  assumes "0 \<le> sint x"
  shows "size_of_int x = nat (sint x)"
proof -
  have "sint x < 2 ^ LENGTH(64)" using sint32_upper [of x] by simp
  with assms have "uint (word_of_int (sint x) :: u64) = sint x"
    by (simp only: uint_word_of_int take_bit_eq_mod mod_pos_pos_trivial)
  then show ?thesis
    by (simp only: size_of_int_def scast_eq nat_uint_eq [symmetric])
qed

text \<open>Signed readings of 64-bit sums that do not leave the range.\<close>

lemma sint64_of_int:
  assumes "- (2 ^ 63) \<le> i" and "i < 2 ^ 63"
  shows "sint (word_of_int i :: u64) = i"
  using assms by (simp only: sint_sbintrunc' signed_take_bit_int_eq_self_iff) simp

lemma scast_word_of_int: "(scast (x :: u32) :: u64) = word_of_int (sint x)"
  by (simp only: scast_eq)

section \<open>The option monad: assertions, faults, weakest preconditions\<close>

definition assert_that :: "bool \<Rightarrow> unit option" where
  "assert_that b = (if b then Some () else None)"

definition wp :: "'a option \<Rightarrow> ('a \<Rightarrow> bool) \<Rightarrow> bool" where
  "wp m P \<longleftrightarrow> (\<exists>x. m = Some x \<and> P x)"

lemma wp_Some [simp]: "wp (Some x) P = P x"
  by (simp add: wp_def)

lemma wp_None [simp]: "\<not> wp None P"
  by (simp add: wp_def)

lemma wp_bind [simp]: "wp (m \<bind> f) P = wp m (\<lambda>x. wp (f x) P)"
  by (cases m) simp_all

lemma wp_assert [simp]: "wp (assert_that b) P = (b \<and> P ())"
  by (simp add: assert_that_def)

lemma assert_that_simps [simp]: "assert_that True = Some ()" "assert_that False = None"
  by (simp_all add: assert_that_def)

lemma wp_if [simp]: "wp (if b then m else n) P = (if b then wp m P else wp n P)"
  by simp

lemma wp_mono: "wp m P \<Longrightarrow> (\<And>x. P x \<Longrightarrow> Q x) \<Longrightarrow> wp m Q"
  by (auto simp: wp_def)

lemma wpI: "m = Some x \<Longrightarrow> P x \<Longrightarrow> wp m P"
  by simp

lemma wpE: "wp m P \<Longrightarrow> (\<And>x. m = Some x \<Longrightarrow> P x \<Longrightarrow> Q) \<Longrightarrow> Q"
  by (auto simp: wp_def)

lemma wp_conj: "wp m P \<Longrightarrow> wp m Q \<Longrightarrow> wp m (\<lambda>x. P x \<and> Q x)"
  by (auto simp: wp_def)

text \<open>Running an operation over a list: threading a state, and collecting results.\<close>

fun foldM :: "('s \<Rightarrow> 'a \<Rightarrow> 's option) \<Rightarrow> 's \<Rightarrow> 'a list \<Rightarrow> 's option" where
  "foldM f s [] = Some s"
| "foldM f s (x # xs) = do { s' \<leftarrow> f s x; foldM f s' xs }"

fun collectM :: "('s \<Rightarrow> 'a \<Rightarrow> ('r \<times> 's) option) \<Rightarrow> 's \<Rightarrow> 'a list \<Rightarrow> ('r list \<times> 's) option" where
  "collectM f s [] = Some ([], s)"
| "collectM f s (x # xs) = do {
     (r, s') \<leftarrow> f s x;
     (rs, s'') \<leftarrow> collectM f s' xs;
     Some (r # rs, s'') }"

lemma foldM_append: "foldM f s (xs @ ys) = foldM f s xs \<bind> (\<lambda>s'. foldM f s' ys)"
  by (induction xs arbitrary: s) (simp_all add: bind_assoc)

text \<open>What relates the states before and after each element relates them before and after the list.\<close>

lemma foldM_rel:
  assumes "foldM f s xs = Some s'" and "\<And>s. R s s" and "\<And>s s' s''. R s s' \<Longrightarrow> R s' s'' \<Longrightarrow> R s s''"
    and "\<And>s x s'. f s x = Some s' \<Longrightarrow> R s s'"
  shows "R s s'"
  using assms(1)
proof (induction xs arbitrary: s)
  case Nil
  then show ?case by (simp add: assms(2))
next
  case (Cons x xs)
  then show ?case by (auto split: bind_splits intro: assms(3,4))
qed

lemma wp_foldM_inv:
  assumes "I s" and "\<And>s x. x \<in> set xs \<Longrightarrow> I s \<Longrightarrow> wp (f s x) I"
  shows "wp (foldM f s xs) I"
  using assms
proof (induction xs arbitrary: s)
  case (Cons x xs)
  show ?case
    by simp (rule wp_mono [OF Cons.prems(2)], use Cons in auto)
qed simp

section \<open>Raw memory blocks\<close>

text \<open>\<open>memcpy\<close> into and out of a block; an access past the end is a fault.\<close>

definition memread :: "bytes \<Rightarrow> nat \<Rightarrow> nat \<Rightarrow> bytes option" where
  "memread m off n = (if off + n \<le> length m then Some (take n (drop off m)) else None)"

definition memwrite :: "bytes \<Rightarrow> nat \<Rightarrow> bytes \<Rightarrow> bytes option" where
  "memwrite m off bs =
     (if off + length bs \<le> length m
      then Some (take off m @ bs @ drop (off + length bs) m) else None)"

lemma wp_memread [simp]:
  "wp (memread m off n) P \<longleftrightarrow> off + n \<le> length m \<and> P (take n (drop off m))"
  by (simp add: memread_def)

lemma wp_memwrite [simp]:
  "wp (memwrite m off bs) P \<longleftrightarrow>
     off + length bs \<le> length m \<and> P (take off m @ bs @ drop (off + length bs) m)"
  by (simp add: memwrite_def)

section \<open>Integers in memory\<close>

text \<open>
  The host is little-endian: \<open>memcpy\<close> of an integer lays out its low byte first. \<open>htonl\<close>,
  \<open>htons\<close> and their inverses reverse the bytes.
\<close>

definition mem16 :: "u16 \<Rightarrow> bytes" where
  "mem16 x = [ucast x, ucast (drop_bit 8 x)]"

definition mem32 :: "u32 \<Rightarrow> bytes" where
  "mem32 x = map (\<lambda>i. ucast (drop_bit (8 * i) x)) [0, 1, 2, 3]"

definition mem64 :: "u64 \<Rightarrow> bytes" where
  "mem64 x = map (\<lambda>i. ucast (drop_bit (8 * i) x)) [0, 1, 2, 3, 4, 5, 6, 7]"

fun le_word :: "bytes \<Rightarrow> 'a::len word" where
  "le_word [] = 0"
| "le_word (b # bs) = ucast b OR push_bit 8 (le_word bs)"

definition htonl :: "u32 \<Rightarrow> u32" where
  "htonl x = le_word (rev (mem32 x))"

definition htons :: "u16 \<Rightarrow> u16" where
  "htons x = le_word (rev (mem16 x))"

lemmas mem_layout [mem_defs] = mem16_def mem32_def mem64_def

lemma length_mem [simp]:
  "length (mem16 a) = 2" "length (mem32 b) = 4" "length (mem64 c) = 8"
  by (simp_all add: mem_defs)

lemma bit_le_word:
  "bit (le_word bs :: 'a::len word) n \<longleftrightarrow>
     n < LENGTH('a) \<and> n div 8 < length bs \<and> bit (bs ! (n div 8)) (n mod 8)"
proof (induction bs arbitrary: n)
  case Nil
  then show ?case by simp
next
  case (Cons b bs)
  show ?case
  proof (cases "n < 8")
    case True
    then show ?thesis by (auto simp: bit_simps)
  next
    case False
    then have "n div 8 = Suc ((n - 8) div 8)" "n mod 8 = (n - 8) mod 8"
      by (simp_all add: le_div_geq le_mod_geq)
    with False show ?thesis
      by (auto simp: bit_simps Cons.IH dest: bit_imp_le_length)
  qed
qed

lemma nth_mem:
  "i < 2 \<Longrightarrow> mem16 a ! i = ucast (drop_bit (8 * i) a)"
  "i < 4 \<Longrightarrow> mem32 b ! i = ucast (drop_bit (8 * i) b)"
  "i < 8 \<Longrightarrow> mem64 c ! i = ucast (drop_bit (8 * i) c)"
  by (auto simp: mem_defs less_Suc_eq numeral_eq_Suc)

lemma le_word_mem [simp]:
  "le_word (mem16 a) = a" "le_word (mem32 b) = b" "le_word (mem64 c) = c"
  by (rule bit_word_eqI, simp add: bit_le_word nth_mem bit_simps div_less_iff_less_mult)+

lemma mem_le_word [simp]:
  "length bs = 2 \<Longrightarrow> mem16 (le_word bs) = bs"
  "length bs = 4 \<Longrightarrow> mem32 (le_word bs) = bs"
  "length bs = 8 \<Longrightarrow> mem64 (le_word bs) = bs"
  by (rule nth_equalityI;
      force simp: nth_mem bit_le_word bit_simps div_less_iff_less_mult intro!: bit_word_eqI)+

lemma mem_hton [simp]:
  "mem32 (htonl x) = rev (mem32 x)" "mem16 (htons y) = rev (mem16 y)"
  by (simp_all add: htonl_def htons_def)

lemma hton_hton [simp]: "htonl (htonl x) = x" "htons (htons y) = y"
  by (simp_all add: htonl_def [of "htonl x"] htons_def [of "htons y"])

end
