(* ===== verification/LoopPool.thy ===== *)
theory LoopPool
  imports Prelude "HOL-Library.Sublist"
begin

text \<open>
  The worker threads of a server (\<open>thirdpartlibs/evpp/evpp\<close>): the life cycle states
  (\<open>server_status.h\<close>), a thread with its event loop (\<open>event_loop_thread.h\<close>,
  \<open>event_loop_thread.cc\<close>), the pool of such threads (\<open>event_loop_thread_pool.h\<close>,
  \<open>event_loop_thread_pool.cc\<close>) and the policy by which connections are given to them
  (\<open>thread_dispatch_policy.h\<close>).

  A worker thread makes its steps on its own: it enters its loop, runs the functor that marks it
  as running, leaves the loop once it has been told to stop, and runs the exit functor. Where the
  code sleeps until a condition holds, a schedule, the list of the workers in the order in which
  they make their next step, says what happens meanwhile; \<open>None\<close> is a failing assertion or a
  schedule that ends before the condition holds. Of an event loop the state that matters here is
  its status. The names of the threads and \<open>AfterFork\<close>, which reinitialises libevent, are left out.
\<close>

section \<open>Status\<close>

datatype server_status =
  kNull | kInitializing | kInitialized | kStarting | kRunning | kStopping | kStopped

datatype sub_status = kSubStatusNull | kStoppingListener | kStoppingThreadPool

fun status_number :: "server_status \<Rightarrow> nat" where
  "status_number kNull = 0"
| "status_number kInitializing = 1"
| "status_number kInitialized = 2"
| "status_number kStarting = 3"
| "status_number kRunning = 4"
| "status_number kStopping = 5"
| "status_number kStopped = 6"

lemma status_number_inject [simp]: "status_number a = status_number b \<longleftrightarrow> a = b"
  by (cases a; cases b; simp)

instantiation server_status :: linorder
begin

definition less_eq_server_status :: "server_status \<Rightarrow> server_status \<Rightarrow> bool" where
  "less_eq_server_status a b \<longleftrightarrow> status_number a \<le> status_number b"

definition less_server_status :: "server_status \<Rightarrow> server_status \<Rightarrow> bool" where
  "less_server_status a b \<longleftrightarrow> status_number a < status_number b"

instance
  by standard (auto simp: less_eq_server_status_def less_server_status_def)

end

text \<open>Two of the states have no name in \<open>StatusToString\<close>.\<close>

fun server_StatusToString :: "server_status \<Rightarrow> string" where
  "server_StatusToString kNull = ''kNull''"
| "server_StatusToString kInitialized = ''kInitialized''"
| "server_StatusToString kRunning = ''kRunning''"
| "server_StatusToString kStopping = ''kStopping''"
| "server_StatusToString kStopped = ''kStopped''"
| "server_StatusToString _ = ''Unknown''"

section \<open>A thread and its loop\<close>

text \<open>
  \<open>status_\<close>, whether \<open>thread_\<close> is set, the status of the event loop, and whether the functor that
  \<open>Run\<close> queued is still to be run.
\<close>

record loop_thread =
  thr_status :: server_status
  thr_thread :: bool
  thr_loop :: server_status
  thr_queued :: bool

definition EventLoopThread_new :: loop_thread where
  "EventLoopThread_new =
     \<lparr>thr_status = kNull, thr_thread = False, thr_loop = kInitialized, thr_queued = False\<rparr>"

text \<open>\<open>Start\<close> up to the wait, \<open>Stop\<close> without the wait, \<open>Join\<close> of a thread that has ended.\<close>

definition EventLoopThread_Start :: "loop_thread \<Rightarrow> loop_thread option" where
  "EventLoopThread_Start t = do {
     assert_that (\<not> thr_thread t);
     Some (t\<lparr>thr_status := kStarting, thr_thread := True\<rparr>) }"

definition EventLoop_Stop :: "loop_thread \<Rightarrow> loop_thread option" where
  "EventLoop_Stop t = do {
     assert_that (thr_loop t = kRunning);
     Some (t\<lparr>thr_loop := kStopping\<rparr>) }"

definition EventLoopThread_IsRunning :: "loop_thread \<Rightarrow> bool" where
  "EventLoopThread_IsRunning t \<longleftrightarrow> thr_loop t = kRunning"

definition EventLoopThread_Stop :: "loop_thread \<Rightarrow> loop_thread option" where
  "EventLoopThread_Stop t = do {
     assert_that (thr_status t = kRunning \<and> EventLoopThread_IsRunning t);
     EventLoop_Stop (t\<lparr>thr_status := kStopping\<rparr>) }"

definition EventLoopThread_Join :: "loop_thread \<Rightarrow> loop_thread" where
  "EventLoopThread_Join t = (if thr_thread t then t\<lparr>thr_thread := False\<rparr> else t)"

definition EventLoopThread_delete :: "loop_thread \<Rightarrow> unit option" where
  "EventLoopThread_delete t = assert_that (thr_status t = kStopped)"

section \<open>The pool\<close>

text \<open>
  \<open>lp_created\<close> are the thread objects in the order of their creation, of which the first
  \<open>lp_pushed\<close> are in \<open>threads_\<close>; \<open>lp_started\<close> and \<open>lp_exited\<close> the counters that \<open>Start\<close> shares with
  its functors; \<open>lp_done\<close> counts the calls of the stop callback.
\<close>

record loop_pool =
  lp_status :: server_status
  lp_thread_num :: u32
  lp_next :: u64
  lp_stopped_cb :: bool
  lp_done :: nat
  lp_created :: "loop_thread list"
  lp_pushed :: nat
  lp_started :: u32
  lp_exited :: u32

definition EventLoopThreadPool_new :: "u32 \<Rightarrow> loop_pool" where
  "EventLoopThreadPool_new n =
     \<lparr>lp_status = kNull, lp_thread_num = n, lp_next = 0, lp_stopped_cb = False, lp_done = 0,
      lp_created = [], lp_pushed = 0, lp_started = 0, lp_exited = 0\<rparr>"

definition lp_threads :: "loop_pool \<Rightarrow> loop_thread list" where
  "lp_threads P = take (lp_pushed P) (lp_created P)"

definition OnThreadStarted :: "u32 \<Rightarrow> loop_pool \<Rightarrow> loop_pool" where
  "OnThreadStarted cnt P = (if cnt = lp_thread_num P then P\<lparr>lp_status := kRunning\<rparr> else P)"

definition OnThreadExited :: "u32 \<Rightarrow> loop_pool \<Rightarrow> loop_pool" where
  "OnThreadExited cnt P =
     (if cnt = lp_thread_num P then
        (let P = P\<lparr>lp_status := kStopped\<rparr>
         in if lp_stopped_cb P then P\<lparr>lp_done := Suc (lp_done P), lp_stopped_cb := False\<rparr> else P)
      else P)"

definition set_thread :: "nat \<Rightarrow> loop_thread \<Rightarrow> loop_pool \<Rightarrow> loop_pool" where
  "set_thread i t P = P\<lparr>lp_created := (lp_created P)[i := t]\<rparr>"

text \<open>
  The next step of worker \<open>i\<close> in \<open>EventLoopThread::Run\<close>: entering the loop with the functor queued;
  the functor with \<open>prefn\<close>; the end of the loop, when \<open>StopInLoop\<close> has run; \<open>postfn\<close> and the end
  of the thread. A worker that has nothing to do waits in its loop.
\<close>

definition worker_step :: "nat \<Rightarrow> loop_pool \<Rightarrow> loop_pool option" where
  "worker_step i P =
     (if i < length (lp_created P) \<and> thr_thread (lp_created P ! i) then
        (let t = lp_created P ! i
         in if thr_loop t = kInitialized then
              Some (set_thread i (t\<lparr>thr_loop := kRunning, thr_queued := True\<rparr>) P)
            else if thr_loop t = kRunning \<and> thr_queued t then
              (let P = set_thread i (t\<lparr>thr_status := kRunning, thr_queued := False\<rparr>) P;
                   P = P\<lparr>lp_started := lp_started P + 1\<rparr>
               in Some (OnThreadStarted (lp_started P) P))
            else if thr_loop t = kStopping then
              Some (set_thread i (t\<lparr>thr_loop := kStopped\<rparr>) P)
            else if thr_loop t = kStopped \<and> thr_status t \<noteq> kStopped then
              (let P = P\<lparr>lp_exited := lp_exited P + 1\<rparr>;
                   P = OnThreadExited (lp_exited P) P
               in Some (set_thread i (t\<lparr>thr_status := kStopped\<rparr>) P))
            else Some P)
      else Some P)"

text \<open>\<open>while (!cond) usleep(1)\<close>: the workers go on until the condition holds.\<close>

fun pool_wait :: "(loop_pool \<Rightarrow> bool) \<Rightarrow> nat list \<Rightarrow> loop_pool \<Rightarrow> (nat list \<times> loop_pool) option" where
  "pool_wait cond [] P = (if cond P then Some ([], P) else None)"
| "pool_wait cond (i # sched) P =
     (if cond P then Some (i # sched, P) else worker_step i P \<bind> pool_wait cond sched)"

text \<open>The loop of \<open>Start\<close>, with \<open>k\<close> threads to go.\<close>

fun start_threads :: "bool \<Rightarrow> nat \<Rightarrow> nat list \<Rightarrow> loop_pool \<Rightarrow> (nat list \<times> loop_pool) option" where
  "start_threads wait_thread_started 0 sched P = Some (sched, P)"
| "start_threads wait_thread_started (Suc k) sched P = do {
     let i = length (lp_created P);
     t \<leftarrow> EventLoopThread_Start EventLoopThread_new;
     let P = P\<lparr>lp_created := lp_created P @ [t]\<rparr>;
     (sched, P) \<leftarrow>
       (if wait_thread_started
        then pool_wait (\<lambda>P. \<not> thr_status (lp_created P ! i) < kRunning) sched P
        else Some (sched, P));
     start_threads wait_thread_started k sched (P\<lparr>lp_pushed := Suc (lp_pushed P)\<rparr>) }"

definition Pool_Start :: "bool \<Rightarrow> nat list \<Rightarrow> loop_pool \<Rightarrow> (bool \<times> nat list \<times> loop_pool) option" where
  "Pool_Start wait_thread_started sched P =
     (let P = P\<lparr>lp_status := kStarting\<rparr>
      in if lp_thread_num P = 0 then Some (True, sched, P\<lparr>lp_status := kRunning\<rparr>)
         else do {
           let P = P\<lparr>lp_started := 0, lp_exited := 0\<rparr>;
           (sched, P) \<leftarrow> start_threads wait_thread_started (unat (lp_thread_num P)) sched P;
           (sched, P) \<leftarrow>
             (if wait_thread_started then do {
                (sched, P) \<leftarrow> pool_wait (\<lambda>P. lp_status P = kRunning) sched P;
                assert_that (lp_status P = kRunning);
                Some (sched, P) }
              else Some (sched, P));
           Some (True, sched, P) })"

definition stop_threads :: "loop_pool \<Rightarrow> loop_pool option" where
  "stop_threads P =
     foldM (\<lambda>P i. do { t \<leftarrow> EventLoopThread_Stop (lp_created P ! i); Some (set_thread i t P) })
       P [0..<length (lp_threads P)]"

definition all_stopped :: "loop_pool \<Rightarrow> bool" where
  "all_stopped P \<longleftrightarrow> list_all (\<lambda>t. thr_status t = kStopped) (lp_threads P)"

text \<open>\<open>fn\<close> tells whether a callback was given.\<close>

definition Pool_Stop :: "bool \<Rightarrow> bool \<Rightarrow> nat list \<Rightarrow> loop_pool \<Rightarrow> (nat list \<times> loop_pool) option" where
  "Pool_Stop wait_thread_exit fn sched P =
     (let P = P\<lparr>lp_status := kStopping\<rparr>
      in if lp_thread_num P = 0 then
           Some (sched, P\<lparr>lp_status := kStopped, lp_done := lp_done P + (if fn then 1 else 0)\<rparr>)
         else do {
           P \<leftarrow> stop_threads (P\<lparr>lp_stopped_cb := fn\<rparr>);
           (sched, P) \<leftarrow> (if wait_thread_exit then pool_wait all_stopped sched P else Some (sched, P));
           Some (sched, P\<lparr>lp_status := kStopped\<rparr>) })"

text \<open>\<open>Join\<close> waits for the end of every thread; clearing \<open>threads_\<close> destroys the objects.\<close>

fun join_threads :: "nat list \<Rightarrow> nat list \<Rightarrow> loop_pool \<Rightarrow> (nat list \<times> loop_pool) option" where
  "join_threads [] sched P = Some (sched, P)"
| "join_threads (i # is) sched P = do {
     (sched, P) \<leftarrow>
       pool_wait (\<lambda>P. thr_thread (lp_created P ! i) \<longrightarrow> thr_status (lp_created P ! i) = kStopped) sched P;
     join_threads is sched (set_thread i (EventLoopThread_Join (lp_created P ! i)) P) }"

definition Pool_Join :: "nat list \<Rightarrow> loop_pool \<Rightarrow> (nat list \<times> loop_pool) option" where
  "Pool_Join sched P = do {
     (sched, P) \<leftarrow> join_threads [0..<length (lp_threads P)] sched P;
     _ \<leftarrow> foldM (\<lambda>_ t. EventLoopThread_delete t) () (lp_threads P);
     Some (sched, P\<lparr>lp_created := drop (lp_pushed P) (lp_created P), lp_pushed := 0\<rparr>) }"

text \<open>
  The loop that is to serve a new connection: \<open>None\<close> is \<open>base_loop_\<close>, \<open>Some i\<close> the loop of thread
  \<open>i\<close>. The remainder is taken of the counter as an unsigned number.
\<close>

definition Pool_GetNextLoop :: "loop_pool \<Rightarrow> nat option \<times> loop_pool" where
  "Pool_GetNextLoop P =
     (if lp_status P = kRunning \<and> lp_threads P \<noteq> [] then
        (Some (unat (lp_next P) mod length (lp_threads P)), P\<lparr>lp_next := lp_next P + 1\<rparr>)
      else (None, P))"

definition Pool_GetNextLoopWithHash :: "u64 \<Rightarrow> loop_pool \<Rightarrow> nat option" where
  "Pool_GetNextLoopWithHash hash P =
     (if lp_status P = kRunning \<and> lp_threads P \<noteq> []
      then Some (unat hash mod length (lp_threads P)) else None)"


section \<open>Lemmas\<close>

subsection \<open>Waiting\<close>

lemma pool_wait_done: "cond P \<Longrightarrow> pool_wait cond sched P = Some (sched, P)"
  by (cases sched) simp_all

lemma pool_wait_idle:
  assumes "\<not> cond P" and "\<forall>i \<in> set xs. worker_step i P = Some P"
  shows "pool_wait cond (xs @ ys) P = pool_wait cond ys P"
  using assms by (induction xs) simp_all

lemma subseq_Cons_split:
  assumes "subseq (k # ks) sched"
  shows "\<exists>xs zs. sched = xs @ k # zs \<and> k \<notin> set xs \<and> subseq ks zs"
  using assms
proof (induction sched rule: list.induct)
  case (Cons i sched)
  show ?case
  proof (cases "i = k")
    case True
    then have "subseq ks sched" using Cons.prems by (simp split: if_splits)
    with True show ?thesis by (metis append_Nil empty_iff list.set(1))
  next
    case False
    then obtain xs zs where "sched = xs @ k # zs" "k \<notin> set xs" "subseq ks zs" using Cons by force
    then have "i # sched = (i # xs) @ k # zs \<and> k \<notin> set (i # xs) \<and> subseq ks zs" using False by simp
    then show ?thesis by blast
  qed
qed simp

subsection \<open>Starting\<close>

definition running_thread :: loop_thread where
  "running_thread = \<lparr>thr_status = kRunning, thr_thread = True, thr_loop = kRunning, thr_queued = False\<rparr>"

text \<open>The pool after \<open>k\<close> of its threads have been started.\<close>

definition started :: "nat \<Rightarrow> loop_pool \<Rightarrow> loop_pool" where
  "started k P = P\<lparr>lp_status := (if k = unat (lp_thread_num P) then kRunning else kStarting),
     lp_created := replicate k running_thread, lp_pushed := k, lp_started := of_nat k, lp_exited := 0\<rparr>"

lemma running_thread_simps [simp]:
  "thr_status running_thread = kRunning" "thr_thread running_thread"
  "thr_loop running_thread = kRunning" "\<not> thr_queued running_thread"
  by (simp_all add: running_thread_def)

lemma worker_idle:
  assumes "lp_created P = replicate k running_thread @ ts" and "i \<notin> {k..<k + length ts}"
  shows "worker_step i P = Some P"
  using assms by (auto simp: worker_step_def nth_append)

lemma status_less [simp]: "kStarting < kRunning" "\<not> kRunning < kRunning"
  by (simp_all add: less_server_status_def)

lemma of_nat_eq_unat:
  fixes w :: u32
  assumes "k \<le> unat w"
  shows "of_nat k = w \<longleftrightarrow> k = unat w"
proof -
  have "unat (of_nat k :: u32) = k"
    using assms unsigned_less [of w, where 'a = nat] by (simp add: unat_of_nat take_bit_nat_eq_self)
  then show ?thesis by auto
qed

text \<open>One round of the loop of \<open>Start\<close>, in which worker \<open>k\<close> makes its two steps.\<close>

lemma start_round:
  assumes k: "k < unat (lp_thread_num P)" and x: "k \<notin> set xs" "k \<notin> set ys"
  shows "pool_wait (\<lambda>P. \<not> thr_status (lp_created P ! k) < kRunning) (xs @ k # ys @ k # zs)
      ((started k P)\<lparr>lp_created := replicate k running_thread @
         [\<lparr>thr_status = kStarting, thr_thread = True, thr_loop = kInitialized, thr_queued = False\<rparr>]\<rparr>) =
    Some (zs, (started (Suc k) P)\<lparr>lp_pushed := k\<rparr>)"
    (is "pool_wait ?c _ ?P1 = Some (zs, ?P3)")
proof -
  let ?P2 = "?P1\<lparr>lp_created := replicate k running_thread @
    [\<lparr>thr_status = kStarting, thr_thread = True, thr_loop = kRunning, thr_queued = True\<rparr>]\<rparr>"
  have s1: "worker_step k ?P1 = Some ?P2"
    by (simp add: worker_step_def set_thread_def nth_append list_update_append)
  have "(of_nat k + 1 = lp_thread_num P) = (Suc k = unat (lp_thread_num P))"
    using of_nat_eq_unat [of "Suc k" "lp_thread_num P"] k by (simp add: add.commute)
  then have s2: "worker_step k ?P2 = Some ?P3"
    using k by (simp add: worker_step_def set_thread_def nth_append list_update_append started_def
        OnThreadStarted_def replicate_append_same running_thread_def [symmetric] add.commute)
  have i: "\<forall>i\<in>set xs. worker_step i ?P1 = Some ?P1" "\<forall>i\<in>set ys. worker_step i ?P2 = Some ?P2"
    using x by (auto intro!: worker_idle)
  have "pool_wait ?c (xs @ k # ys @ k # zs) ?P1 = pool_wait ?c (ys @ k # zs) ?P2"
    using pool_wait_idle [of ?c ?P1 xs] i(1) s1 by (simp add: nth_append)
  also have "\<dots> = pool_wait ?c zs ?P3"
    using pool_wait_idle [of ?c ?P2 ys] i(2) s2 by (simp add: nth_append)
  also have "\<dots> = Some (zs, ?P3)"
    by (rule pool_wait_done) (simp add: started_def nth_append replicate_append_same [symmetric] del: replicate_Suc)
  finally show ?thesis .
qed

lemma start_threads_ok:
  assumes "k + d = unat (lp_thread_num P)"
    and "subseq (concat (map (\<lambda>i. [i, i]) [k..<k + d])) sched"
  shows "\<exists>rest. start_threads True d (sched @ ys) (started k P) =
    Some (rest @ ys, started (unat (lp_thread_num P)) P)"
  using assms
proof (induction d arbitrary: k sched)
  case 0
  then show ?case by auto
next
  case (Suc d)
  have "[k..<k + Suc d] = k # [Suc k..<Suc k + d]" by (simp add: upt_rec)
  then have "subseq (k # k # concat (map (\<lambda>i. [i, i]) [Suc k..<Suc k + d])) sched"
    using Suc.prems(2) by simp
  from subseq_Cons_split [OF this] obtain xs zs where s1: "sched = xs @ k # zs" "k \<notin> set xs"
    "subseq (k # concat (map (\<lambda>i. [i, i]) [Suc k..<Suc k + d])) zs" by blast
  from subseq_Cons_split [OF s1(3)] obtain us vs where s2: "zs = us @ k # vs" "k \<notin> set us"
    "subseq (concat (map (\<lambda>i. [i, i]) [Suc k..<Suc k + d])) vs" by blast
  note r = start_round [of k P xs us "vs @ ys", OF _ s1(2) s2(2)]
  have "(started (Suc k) P)\<lparr>lp_pushed := Suc k\<rparr> = started (Suc k) P" by (simp add: started_def)
  moreover have "k < unat (lp_thread_num P)" using Suc.prems(1) by simp
  moreover have "started k P\<lparr>lp_created := lp_created (started k P) @ [t]\<rparr> =
      started k P\<lparr>lp_created := replicate k running_thread @ [t]\<rparr>" for t
    by (simp add: started_def)
  moreover have "length (lp_created (started k P)) = k" "lp_pushed (started (Suc k) P\<lparr>lp_pushed := k\<rparr>) = k"
    by (simp_all add: started_def)
  moreover obtain rest where "start_threads True d (vs @ ys) (started (Suc k) P) =
      Some (rest @ ys, started (unat (lp_thread_num P)) P)"
    using Suc.IH [OF _ s2(3)] Suc.prems(1) by auto
  ultimately show ?case
    using r s1(1) s2(1) by (simp add: EventLoopThread_Start_def EventLoopThread_new_def)
qed


lemma Pool_Start_ok:
  assumes "lp_created P = []" and "lp_pushed P = 0"
    and "subseq (concat (map (\<lambda>i. [i, i]) [0..<unat (lp_thread_num P)])) sched"
  shows "\<exists>rest. Pool_Start True (sched @ ys) P = Some (True, rest @ ys,
    if lp_thread_num P = 0 then P\<lparr>lp_status := kRunning\<rparr> else started (unat (lp_thread_num P)) P)"
proof (cases "lp_thread_num P = 0")
  case True
  then show ?thesis by (auto simp: Pool_Start_def)
next
  case False
  then have n: "0 < unat (lp_thread_num P)" by (simp add: unat_gt_0)
  let ?P = "P\<lparr>lp_status := kStarting, lp_started := 0, lp_exited := 0\<rparr>"
  have "started 0 P = ?P" using n assms(1,2) by (simp add: started_def)
  with start_threads_ok [of 0 "unat (lp_thread_num P)" P sched ys] assms(3) obtain rest where
    "start_threads True (unat (lp_thread_num P)) (sched @ ys) ?P =
      Some (rest @ ys, started (unat (lp_thread_num P)) P)" by auto
  moreover have "lp_status (started (unat (lp_thread_num P)) P) = kRunning" by (simp add: started_def)
  ultimately show ?thesis
    using False by (simp add: Pool_Start_def pool_wait_done)
qed

subsection \<open>Stopping\<close>

text \<open>The way of a thread that has been told to stop: in its loop, out of it, ended.\<close>

fun stopping_thread :: "nat \<Rightarrow> loop_thread" where
  "stopping_thread 0 = \<lparr>thr_status = kStopping, thr_thread = True, thr_loop = kStopping, thr_queued = False\<rparr>"
| "stopping_thread (Suc 0) = \<lparr>thr_status = kStopping, thr_thread = True, thr_loop = kStopped, thr_queued = False\<rparr>"
| "stopping_thread _ = \<lparr>thr_status = kStopped, thr_thread = True, thr_loop = kStopped, thr_queued = False\<rparr>"

text \<open>The pool when its threads are on their way as \<open>ps\<close> says.\<close>

definition stopping :: "nat list \<Rightarrow> bool \<Rightarrow> loop_pool \<Rightarrow> loop_pool" where
  "stopping ps fn P =
     (let e = length (filter (\<lambda>p. 2 \<le> p) ps); last = (e = unat (lp_thread_num P))
      in P\<lparr>lp_status := (if last then kStopped else kStopping), lp_created := map stopping_thread ps,
           lp_pushed := length ps, lp_exited := of_nat e, lp_stopped_cb := (fn \<and> \<not> last),
           lp_done := (if fn \<and> last then Suc (lp_done P) else lp_done P)\<rparr>)"

lemma stopping_thread_simps [simp]:
  "thr_thread (stopping_thread p)"
  "thr_status (stopping_thread p) = kStopped \<longleftrightarrow> 2 \<le> p"
  "thr_loop (stopping_thread p) = (if p = 0 then kStopping else kStopped)"
  by (cases p rule: stopping_thread.cases; simp)+

lemma filter_update:
  assumes "i < length ps" and "\<not> Q (ps ! i)" and "Q p"
  shows "length (filter Q (ps[i := p])) = Suc (length (filter Q ps))"
  using assms by (induction ps arbitrary: i) (auto simp: nth_Cons split: nat.splits)

lemma filter_update_other:
  assumes "i < length ps" and "\<not> Q (ps ! i)" and "\<not> Q p"
  shows "filter Q (ps[i := p]) = filter Q ps"
  using assms by (induction ps arbitrary: i) (auto simp: nth_Cons split: nat.splits)

lemma stopping_step:
  assumes "length ps = unat (lp_thread_num P)"
  shows "worker_step i (stopping ps fn P) =
    Some (if i < length ps \<and> ps ! i < 2 then stopping (ps[i := Suc (ps ! i)]) fn P else stopping ps fn P)"
proof (cases "i < length ps \<and> ps ! i < 2")
  case False
  then show ?thesis by (auto simp: worker_step_def stopping_def Let_def)
next
  case True
  then have i: "i < length ps" by simp
  let ?e = "length (filter (\<lambda>p. 2 \<le> p) ps)"
  have e: "?e < length ps" using True by (intro length_filter_less [of "ps ! i"]) auto
  show ?thesis
  proof (cases "ps ! i = 0")
    case z: True
    have "filter (\<lambda>p. 2 \<le> p) (ps[i := Suc 0]) = filter (\<lambda>p. 2 \<le> p) ps"
      using i z by (intro filter_update_other) auto
    then show ?thesis
      using True z by (simp add: worker_step_def stopping_def Let_def set_thread_def map_update)
  next
    case nz: False
    then have one: "ps ! i = Suc 0" using True by simp
    have l: "length (filter (\<lambda>p. 2 \<le> p) (ps[i := Suc (Suc 0)])) = Suc ?e"
      using i one by (intro filter_update) auto
    have c: "(of_nat ?e + 1 = lp_thread_num P) = (Suc ?e = unat (lp_thread_num P))"
      using of_nat_eq_unat [of "Suc ?e" "lp_thread_num P"] e assms by (simp add: add.commute)
    have ne: "?e \<noteq> unat (lp_thread_num P)" using e assms by simp
    show ?thesis
      using True one l c ne
      by (simp add: worker_step_def stopping_def Let_def set_thread_def OnThreadExited_def map_update add.commute)
  qed
qed

lemma all_stopped_stopping: "all_stopped (stopping ps fn P) \<longleftrightarrow> list_all (\<lambda>p. 2 \<le> p) ps"
  by (simp add: all_stopped_def lp_threads_def stopping_def Let_def list.pred_map comp_def)

text \<open>When every thread makes the steps it still has to make, the wait of \<open>Stop\<close> ends.\<close>

lemma wait_all_stopped:
  assumes "length ps = unat (lp_thread_num P)" and "\<forall>i<length ps. 2 \<le> ps ! i + count_list sched i"
  shows "\<exists>rest qs. pool_wait all_stopped sched (stopping ps fn P) = Some (rest, stopping qs fn P) \<and>
    length qs = length ps \<and> list_all (\<lambda>p. 2 \<le> p) qs"
  using assms
proof (induction sched arbitrary: ps)
  case Nil
  then have "list_all (\<lambda>p. 2 \<le> p) ps" by (simp add: list_all_length)
  then show ?case by (auto simp: all_stopped_stopping)
next
  case (Cons i sched)
  show ?case
  proof (cases "list_all (\<lambda>p. 2 \<le> p) ps")
    case True
    then show ?thesis by (auto simp: all_stopped_stopping)
  next
    case False
    let ?ps = "if i < length ps \<and> ps ! i < 2 then ps[i := Suc (ps ! i)] else ps"
    have "\<exists>rest qs. pool_wait all_stopped sched (stopping ?ps fn P) = Some (rest, stopping qs fn P) \<and>
        length qs = length ?ps \<and> list_all (\<lambda>p. 2 \<le> p) qs"
      by (rule Cons.IH) (use Cons.prems in \<open>auto simp: nth_list_update split: if_splits\<close>)
    with False show ?thesis
      by (auto simp: all_stopped_stopping stopping_step [OF Cons.prems(1)] split: if_splits)
  qed
qed


lemma stop_threads_ok:
  assumes "lp_created P = replicate n running_thread" and "lp_pushed P = n"
  shows "stop_threads P = Some (P\<lparr>lp_created := replicate n (stopping_thread 0)\<rparr>)"
proof -
  let ?f = "\<lambda>P i. do { t \<leftarrow> EventLoopThread_Stop (lp_created P ! i); Some (set_thread i t P) }"
  have "foldM ?f (P\<lparr>lp_created := replicate k (stopping_thread 0) @ replicate d running_thread\<rparr>) [k..<k + d] =
      Some (P\<lparr>lp_created := replicate (k + d) (stopping_thread 0)\<rparr>)" for k d
  proof (induction d arbitrary: k)
    case (Suc d)
    have u: "[k..<k + Suc d] = k # [Suc k..<Suc k + d]" by (simp add: upt_rec)
    have "EventLoopThread_Stop running_thread = Some (stopping_thread 0)"
      by (simp add: EventLoopThread_Stop_def EventLoop_Stop_def EventLoopThread_IsRunning_def running_thread_def)
    then have "?f (P\<lparr>lp_created := replicate k (stopping_thread 0) @ replicate (Suc d) running_thread\<rparr>) k =
        Some (P\<lparr>lp_created := replicate (Suc k) (stopping_thread 0) @ replicate d running_thread\<rparr>)"
      by (simp add: nth_append set_thread_def list_update_append replicate_app_Cons_same)
    then show ?case unfolding u using Suc.IH [of "Suc k"] by simp
  qed simp
  note F = this [of 0 n]
  have e: "P\<lparr>lp_created := replicate n running_thread\<rparr> = P" using assms(1) by (cases P) simp
  have "foldM ?f P [0..<n] = Some (P\<lparr>lp_created := replicate n (stopping_thread 0)\<rparr>)"
    using F by (simp add: e)
  moreover have "length (lp_threads P) = n" using assms by (simp add: lp_threads_def)
  ultimately show ?thesis by (simp only: stop_threads_def)
qed

lemma Pool_Stop_ok:
  assumes n: "n = unat (lp_thread_num P)" "0 < n" and c: "\<forall>i<n. 2 \<le> count_list sched i"
  shows "\<exists>rest qs. Pool_Stop True fn sched (started n P) = Some (rest, stopping qs fn (started n P)) \<and>
    length qs = n \<and> list_all (\<lambda>p. 2 \<le> p) qs"
proof -
  have w: "lp_thread_num P \<noteq> 0" using n by auto
  let ?Q = "started n P\<lparr>lp_status := kStopping, lp_stopped_cb := fn\<rparr>"
  have "stop_threads ?Q = Some (?Q\<lparr>lp_created := replicate n (stopping_thread 0)\<rparr>)"
    by (rule stop_threads_ok) (simp_all add: started_def)
  moreover have "?Q\<lparr>lp_created := replicate n (stopping_thread 0)\<rparr> = stopping (replicate n 0) fn (started n P)"
    using n by (simp add: stopping_def started_def Let_def filter_replicate)
  moreover obtain rest qs where q: "pool_wait all_stopped sched (stopping (replicate n 0) fn (started n P)) =
      Some (rest, stopping qs fn (started n P))" "length qs = n" "list_all (\<lambda>p. 2 \<le> p) qs"
    using wait_all_stopped [of "replicate n 0" "started n P" sched fn] n c by (auto simp: started_def)
  moreover have "filter (\<lambda>p. 2 \<le> p) qs = qs" using q(3) by (simp add: list_all_iff)
  then have "stopping qs fn (started n P)\<lparr>lp_status := kStopped\<rparr> = stopping qs fn (started n P)"
    using q(2) n by (simp add: stopping_def Let_def started_def)
  moreover have "lp_thread_num (started n P) = lp_thread_num P" by (simp add: started_def)
  ultimately show ?thesis using w by (auto simp: Pool_Stop_def)
qed

lemma join_threads_ok:
  assumes "list_all (\<lambda>t. thr_status t = kStopped) (lp_created P)" and "\<forall>i\<in>set is. i < length (lp_created P)"
  shows "\<exists>ts. join_threads is sched P = Some (sched, P\<lparr>lp_created := ts\<rparr>) \<and>
    length ts = length (lp_created P) \<and> list_all (\<lambda>t. thr_status t = kStopped) ts"
  using assms
proof (induction "is" arbitrary: P)
  case (Cons i "is")
  let ?P = "set_thread i (EventLoopThread_Join (lp_created P ! i)) P"
  have s: "thr_status (lp_created P ! i) = kStopped" using Cons.prems by (simp add: list_all_length)
  have "\<exists>ts. join_threads is sched ?P = Some (sched, ?P\<lparr>lp_created := ts\<rparr>) \<and>
      length ts = length (lp_created ?P) \<and> list_all (\<lambda>t. thr_status t = kStopped) ts"
    by (rule Cons.IH)
      (use Cons.prems s in \<open>auto simp: set_thread_def EventLoopThread_Join_def list_all_length nth_list_update\<close>)
  with s show ?case by (auto simp: pool_wait_done set_thread_def)
next
  case Nil
  have "P\<lparr>lp_created := lp_created P\<rparr> = P" by simp
  with Nil show ?case by (metis join_threads.simps(1))
qed

lemma Pool_Join_ok:
  assumes "list_all (\<lambda>t. thr_status t = kStopped) (lp_created P)" and "lp_pushed P = length (lp_created P)"
  shows "Pool_Join sched P = Some (sched, P\<lparr>lp_created := [], lp_pushed := 0\<rparr>)"
proof -
  obtain ts where t: "join_threads [0..<length (lp_threads P)] sched P = Some (sched, P\<lparr>lp_created := ts\<rparr>)"
    "length ts = length (lp_created P)" "list_all (\<lambda>t. thr_status t = kStopped) ts"
    using join_threads_ok [OF assms(1), of "[0..<length (lp_threads P)]" sched] assms(2)
    by (auto simp: lp_threads_def)
  have "foldM (\<lambda>_ t. EventLoopThread_delete t) () ts = Some ()"
    using t(3) by (induction ts) (simp_all add: EventLoopThread_delete_def)
  with t assms(2) show ?thesis by (simp add: Pool_Join_def lp_threads_def)
qed

subsection \<open>Fair schedules\<close>

text \<open>An infinite schedule in which no worker is forgotten.\<close>

definition fair :: "nat \<Rightarrow> (nat \<Rightarrow> nat) \<Rightarrow> bool" where
  "fair n \<sigma> \<longleftrightarrow> (\<forall>i<n. \<forall>k. \<exists>k'\<ge>k. \<sigma> k' = i)"

lemma fair_subseq:
  assumes "fair n \<sigma>" and "set ks \<subseteq> {..<n}"
  shows "\<exists>N\<ge>p. subseq ks (map \<sigma> [p..<N])"
  using assms(2)
proof (induction ks arbitrary: p)
  case (Cons i ks)
  obtain q where q: "p \<le> q" "\<sigma> q = i" using assms(1) Cons.prems by (auto simp: fair_def)
  obtain N where N: "Suc q \<le> N" "subseq ks (map \<sigma> [Suc q..<N])" using Cons by auto
  have "[p..<N] = [p..<q] @ q # [Suc q..<N]"
    using q(1) N(1) by (metis Suc_le_eq le_add_diff_inverse less_imp_le_nat upt_add_eq_append upt_rec)
  then have "subseq (i # ks) (map \<sigma> [p..<N])"
    using q(2) N(2) by (simp add: list_emb_append2)
  then show ?case using q(1) N(1) by (meson Suc_leD le_trans)
qed auto

lemma subseq_count_list: "subseq xs ys \<Longrightarrow> count_list xs i \<le> count_list ys i"
  by (induction rule: list_emb.induct) auto

lemma count_twice: "i < n \<Longrightarrow> count_list (concat (map (\<lambda>i. [i, i]) [0..<n])) i = 2"
proof -
  have "count_list (concat (map (\<lambda>i. [i, i]) ks)) i = 2 * count_list ks i" for ks :: "nat list"
    by (induction ks) auto
  moreover assume "i < n"
  then have "count_list [0..<n] i = 1"
    by (induction n) (auto simp: count_list_append less_Suc_eq count_list_0_iff)
  ultimately show ?thesis by simp
qed


subsection \<open>Choosing a loop\<close>

text \<open>The choices of consecutive calls of \<open>GetNextLoop\<close>.\<close>

fun next_loops :: "nat \<Rightarrow> loop_pool \<Rightarrow> nat option list" where
  "next_loops 0 P = []"
| "next_loops (Suc k) P = (let (l, P) = Pool_GetNextLoop P in l # next_loops k P)"

lemma next_loops_running:
  assumes "lp_status P = kRunning" and "lp_threads P \<noteq> []" and "unat (lp_next P) + k \<le> 2 ^ 64"
  shows "next_loops k P = map (\<lambda>j. Some (j mod length (lp_threads P))) [unat (lp_next P)..<unat (lp_next P) + k]"
  using assms
proof (induction k arbitrary: P)
  case (Suc k)
  let ?P = "P\<lparr>lp_next := lp_next P + 1\<rparr>"
  have t: "lp_threads ?P = lp_threads P" by (simp add: lp_threads_def)
  show ?case
  proof (cases k)
    case 0
    then show ?thesis using Suc.prems by (simp add: Pool_GetNextLoop_def)
  next
    case (Suc k')
    then have "unat (lp_next P) + 1 < 2 ^ 64" using Suc.prems by simp
    then have n: "unat (lp_next P + 1) = Suc (unat (lp_next P))"
      by (simp add: unat_word_ariths(1))
    have "next_loops k ?P = map (\<lambda>j. Some (j mod length (lp_threads P))) [unat (lp_next ?P)..<unat (lp_next ?P) + k]"
      using Suc.IH [of ?P] Suc.prems n t by simp
    with n Suc.prems show ?thesis by (simp add: Pool_GetNextLoop_def upt_rec)
  qed
qed simp

lemma mod_window:
  fixes m x :: nat
  assumes "0 < m"
  shows "(\<lambda>j. j mod m) ` {x..<x + m} = {..<m}"
proof -
  have "inj_on (\<lambda>j. j mod m) {x..<x + m}"
  proof (rule inj_onI)
    fix a b assume ab: "a \<in> {x..<x + m}" "b \<in> {x..<x + m}" "a mod m = b mod m"
    then have "m dvd (b - a)" "m dvd (a - b)"
      by (metis mod_eq_dvd_iff_nat nat_le_linear diff_is_0_eq dvd_0_right)+
    moreover have "b - a < m" "a - b < m" using ab by auto
    ultimately show "a = b"
      by (metis diff_is_0_eq dvd_imp_le le_antisym not_gr_zero not_le)
  qed
  then have "card ((\<lambda>j. j mod m) ` {x..<x + m}) = m" by (simp add: card_image)
  moreover have "(\<lambda>j. j mod m) ` {x..<x + m} \<subseteq> {..<m}" using assms by auto
  ultimately show ?thesis by (intro card_subset_eq) auto
qed

section \<open>Properties\<close>

text \<open>
  C18. The life of a thread pool: under every schedule that keeps giving each worker its turn,
  \<open>Start\<close> returns with all threads in their loops and the pool running; \<open>Stop\<close> then returns with
  every loop and thread stopped, having called the stop callback exactly once if there is one;
  and \<open>Join\<close> destroys the threads. No assertion fails on the way.
\<close>

theorem EventLoopThreadPool_lifecycle:
  assumes "fair (unat n) \<sigma>"
  shows "\<exists>N. wp (do {
      (ok, sched, P) \<leftarrow> Pool_Start True (map \<sigma> [0..<N]) (EventLoopThreadPool_new n);
      (sched, Q) \<leftarrow> Pool_Stop True fn sched P;
      (sched, R) \<leftarrow> Pool_Join sched Q;
      Some (ok, P, Q, R) })
    (\<lambda>(ok, P, Q, R). ok \<and> lp_status P = kRunning \<and> length (lp_threads P) = unat n \<and>
       list_all (\<lambda>t. thr_status t = kRunning \<and> thr_loop t = kRunning) (lp_threads P) \<and>
       lp_status Q = kStopped \<and> list_all (\<lambda>t. thr_status t = kStopped \<and> thr_loop t = kStopped) (lp_threads Q) \<and>
       lp_done Q = (if fn then 1 else 0) \<and> lp_threads R = [])"
proof -
  let ?ks = "concat (map (\<lambda>i. [i, i]) [0..<unat n])" and ?P = "EventLoopThreadPool_new n"
  have ks: "set ?ks \<subseteq> {..<unat n}" by auto
  obtain M where M: "subseq ?ks (map \<sigma> [0..<M])" using fair_subseq [OF assms ks] by blast
  obtain N where N: "M \<le> N" "subseq ?ks (map \<sigma> [M..<N])" using fair_subseq [OF assms ks] by blast
  have s: "map \<sigma> [0..<N] = map \<sigma> [0..<M] @ map \<sigma> [M..<N]"
    using N(1) by (metis le_add_diff_inverse map_append upt_add_eq_append zero_le)
  have new: "lp_created ?P = []" "lp_pushed ?P = 0" "lp_thread_num ?P = n" "lp_done ?P = 0"
    by (simp_all add: EventLoopThreadPool_new_def)
  obtain rest where st: "Pool_Start True (map \<sigma> [0..<N]) ?P = Some (True, rest @ map \<sigma> [M..<N],
      if n = 0 then ?P\<lparr>lp_status := kRunning\<rparr> else started (unat n) ?P)"
    using Pool_Start_ok [OF new(1,2), of "map \<sigma> [0..<M]" "map \<sigma> [M..<N]"] M
    unfolding new(3) s by blast
  show ?thesis
  proof (cases "n = 0")
    case True
    then show ?thesis
      using st new by (auto intro!: exI [of _ N] simp: Pool_Stop_def Pool_Join_def lp_threads_def)
  next
    case False
    then have n: "0 < unat n" by (simp add: unat_gt_0)
    have c: "\<forall>i<unat n. 2 \<le> count_list (rest @ map \<sigma> [M..<N]) i"
      using subseq_count_list [OF N(2)] count_twice by (metis count_list_append trans_le_add2)
    obtain rest' qs where q: "Pool_Stop True fn (rest @ map \<sigma> [M..<N]) (started (unat n) ?P) =
        Some (rest', stopping qs fn (started (unat n) ?P))" "length qs = unat n" "list_all (\<lambda>p. 2 \<le> p) qs"
      using Pool_Stop_ok [of "unat n" ?P] new(3) n c by metis
    let ?Q = "stopping qs fn (started (unat n) ?P)"
    have all: "filter (\<lambda>p. 2 \<le> p) qs = qs" using q(3) by (simp add: list_all_iff)
    have Q: "lp_created ?Q = map stopping_thread qs" "lp_pushed ?Q = length qs" "lp_status ?Q = kStopped"
      "lp_done ?Q = (if fn then 1 else 0)"
      using all q(2) new by (simp_all add: stopping_def Let_def started_def)
    have "\<forall>p\<in>set qs. p \<noteq> 0" using q(3) by (auto simp: list_all_iff)
    then have L: "list_all (\<lambda>t. thr_status t = kStopped \<and> thr_loop t = kStopped) (lp_created ?Q)"
      using Q(1) q(3) by (auto simp: list_all_iff)
    have J: "Pool_Join rest' ?Q = Some (rest', ?Q\<lparr>lp_created := [], lp_pushed := 0\<rparr>)"
      by (rule Pool_Join_ok) (use Q L in \<open>auto simp: list_all_iff\<close>)
    show ?thesis
      using st False q(1) J Q L new
      by (intro exI [of _ N]) (simp add: lp_threads_def started_def list_all_length)
  qed
qed

theorem EventLoopThreadPool_lifecycle_witness:
  "\<exists>N. wp (do {
      (ok, sched, P) \<leftarrow> Pool_Start True (map (\<lambda>k. k mod 2) [0..<N]) (EventLoopThreadPool_new 2);
      (sched, Q) \<leftarrow> Pool_Stop True True sched P;
      (sched, R) \<leftarrow> Pool_Join sched Q;
      Some (ok, P, Q, R) })
    (\<lambda>(ok, P, Q, R). ok \<and> lp_status P = kRunning \<and> length (lp_threads P) = unat (2 :: u32) \<and>
       list_all (\<lambda>t. thr_status t = kRunning \<and> thr_loop t = kRunning) (lp_threads P) \<and>
       lp_status Q = kStopped \<and> list_all (\<lambda>t. thr_status t = kStopped \<and> thr_loop t = kStopped) (lp_threads Q) \<and>
       lp_done Q = (if True then 1 else 0) \<and> lp_threads R = [])"
proof (rule EventLoopThreadPool_lifecycle)
  show "fair (unat (2 :: u32)) (\<lambda>k. k mod 2)"
    unfolding fair_def
  proof (intro allI impI)
    fix i k :: nat assume "i < unat (2 :: u32)"
    then have "i < 2" by simp
    then have "k \<le> 2 * k + i \<and> (2 * k + i) mod 2 = i" by simp
    then show "\<exists>k'\<ge>k. k' mod 2 = i" by blast
  qed
qed

text \<open>
  Connections are spread evenly: as long as the 64-bit counter does not wrap around, any run
  of as many consecutive calls of \<open>GetNextLoop\<close> as the running pool has threads names every thread
  exactly once.
\<close>

theorem GetNextLoop_round_robin:
  assumes "lp_status P = kRunning" and "lp_threads P \<noteq> []"
    and "unat (lp_next P) + length (lp_threads P) \<le> 2 ^ 64"
  shows "distinct (next_loops (length (lp_threads P)) P) \<and>
         set (next_loops (length (lp_threads P)) P) = Some ` {..<length (lp_threads P)}"
proof -
  let ?m = "length (lp_threads P)" and ?x = "unat (lp_next P)"
  have l: "next_loops ?m P = map (\<lambda>j. Some (j mod ?m)) [?x..<?x + ?m]"
    by (rule next_loops_running [OF assms])
  have s: "set (next_loops ?m P) = Some ` {..<?m}"
    using mod_window [of ?m ?x] assms(2) image_image [of Some "\<lambda>j. j mod ?m" "{?x..<?x + ?m}"]
    by (simp add: l)
  moreover have "card (set (next_loops ?m P)) = length (next_loops ?m P)"
    unfolding s by (simp add: card_image) (simp add: l)
  ultimately show ?thesis by (simp add: card_distinct)
qed

theorem GetNextLoop_round_robin_witness:
  "distinct (next_loops (length (lp_threads (started 3 (EventLoopThreadPool_new 3)))) (started 3 (EventLoopThreadPool_new 3))) \<and>
   set (next_loops (length (lp_threads (started 3 (EventLoopThreadPool_new 3)))) (started 3 (EventLoopThreadPool_new 3))) =
     Some ` {..<length (lp_threads (started 3 (EventLoopThreadPool_new 3)))}"
  by (rule GetNextLoop_round_robin) (simp_all add: started_def EventLoopThreadPool_new_def lp_threads_def)

end
