(* ===== verification/Buffer.thy ===== *)
theory Buffer
  imports Prelude
begin

text \<open>
  The byte buffer \<open>evpp::Buffer\<close> (\<open>thirdpartlibs/evpp/evpp/buffer.h\<close> and \<open>buffer.cc\<close>), on
  which all the network code reads and writes: one heap block, a reading index and a writing
  index into it. The definitions keep every \<open>assert\<close> of the source and every memory access
  as a fault of the option monad; the lemmas show that on a well-formed buffer none of them
  happens, and describe each operation by what it does to the unread bytes, \<open>unread\<close>.
\<close>

unbundle bit_operations_syntax

section \<open>State\<close>

record buffer =
  mem :: bytes
  capacity :: nat
  read_index :: nat
  write_index :: nat
  reserved_prepend_size :: nat

definition kCheapPrependSize :: nat where
  "kCheapPrependSize = 8"

definition kInitialSize :: nat where
  "kInitialSize = 1024"

text \<open>
  The contents of a fresh block are indeterminate in C++; the model fills it with zeros. No
  theorem depends on them, since only written bytes lie between the two indices.
\<close>

definition Buffer_length :: "buffer \<Rightarrow> nat option" where
  "Buffer_length b = do {
     assert_that (write_index b \<ge> read_index b);
     Some (write_index b - read_index b) }"

definition Buffer_size :: "buffer \<Rightarrow> nat option" where
  "Buffer_size b = Buffer_length b"

definition Buffer_capacity :: "buffer \<Rightarrow> nat" where
  "Buffer_capacity b = capacity b"

definition WritableBytes :: "buffer \<Rightarrow> nat option" where
  "WritableBytes b = do {
     assert_that (capacity b \<ge> write_index b);
     Some (capacity b - write_index b) }"

definition PrependableBytes :: "buffer \<Rightarrow> nat" where
  "PrependableBytes b = read_index b"

definition Buffer_new :: "nat \<Rightarrow> nat \<Rightarrow> buffer option" where
  "Buffer_new initial_size reserved = do {
     let b = \<lparr> mem = replicate (reserved + initial_size) 0,
               capacity = reserved + initial_size,
               read_index = reserved, write_index = reserved,
               reserved_prepend_size = reserved \<rparr>;
     n \<leftarrow> Buffer_length b;
     assert_that (n = 0);
     w \<leftarrow> WritableBytes b;
     assert_that (w = initial_size);
     assert_that (PrependableBytes b = reserved);
     Some b }"

definition Buffer_Swap :: "buffer \<Rightarrow> buffer \<Rightarrow> buffer \<times> buffer" where
  "Buffer_Swap b rhs =
     (b\<lparr> mem := mem rhs, capacity := capacity rhs, read_index := read_index rhs,
        write_index := write_index rhs, reserved_prepend_size := reserved_prepend_size rhs \<rparr>,
      rhs\<lparr> mem := mem b, capacity := capacity b, read_index := read_index b,
        write_index := write_index b, reserved_prepend_size := reserved_prepend_size b \<rparr>)"

section \<open>Discarding and making room\<close>

definition Truncate :: "buffer \<Rightarrow> nat \<Rightarrow> buffer" where
  "Truncate b n =
     (if n = 0
      then b\<lparr> read_index := reserved_prepend_size b, write_index := reserved_prepend_size b \<rparr>
      else if write_index b > read_index b + n
      then b\<lparr> write_index := read_index b + n \<rparr>
      else b)"

definition Buffer_Reset :: "buffer \<Rightarrow> buffer" where
  "Buffer_Reset b = Truncate b 0"

definition Skip :: "buffer \<Rightarrow> nat \<Rightarrow> buffer option" where
  "Skip b len = do {
     n \<leftarrow> Buffer_length b;
     if len < n then Some (b\<lparr> read_index := read_index b + len \<rparr>)
     else Some (Buffer_Reset b) }"

definition Retrieve :: "buffer \<Rightarrow> nat \<Rightarrow> buffer option" where
  "Retrieve b len = Skip b len"

definition grow :: "buffer \<Rightarrow> nat \<Rightarrow> buffer option" where
  "grow b len = do {
     w \<leftarrow> WritableBytes b;
     if w + PrependableBytes b < len + reserved_prepend_size b then do {
       let n = capacity b * 2 + len;
       m \<leftarrow> Buffer_length b;
       src \<leftarrow> memread (mem b) (read_index b) m;
       d \<leftarrow> memwrite (replicate n 0) (reserved_prepend_size b) src;
       Some (b\<lparr> write_index := m + reserved_prepend_size b,
                read_index := reserved_prepend_size b,
                capacity := n, mem := d \<rparr>) }
     else do {
       assert_that (reserved_prepend_size b < read_index b);
       readable \<leftarrow> Buffer_length b;
       src \<leftarrow> memread (mem b) (read_index b) readable;
       d \<leftarrow> memwrite (mem b) (reserved_prepend_size b) src;
       let b' = b\<lparr> mem := d, read_index := reserved_prepend_size b,
                   write_index := reserved_prepend_size b + readable \<rparr>;
       m \<leftarrow> Buffer_length b';
       assert_that (readable = m);
       w' \<leftarrow> WritableBytes b';
       assert_that (w' \<ge> len);
       Some b' } }"

definition Buffer_Reserve :: "buffer \<Rightarrow> nat \<Rightarrow> buffer option" where
  "Buffer_Reserve b len =
     (if capacity b \<ge> len + reserved_prepend_size b then Some b
      else grow b (len + reserved_prepend_size b))"

definition EnsureWritableBytes :: "buffer \<Rightarrow> nat \<Rightarrow> buffer option" where
  "EnsureWritableBytes b len = do {
     w \<leftarrow> WritableBytes b;
     b' \<leftarrow> (if w < len then grow b len else Some b);
     w' \<leftarrow> WritableBytes b';
     assert_that (w' \<ge> len);
     Some b' }"

section \<open>Writing\<close>

definition Buffer_Write :: "buffer \<Rightarrow> bytes \<Rightarrow> buffer option" where
  "Buffer_Write b d = do {
     b' \<leftarrow> EnsureWritableBytes b (length d);
     m \<leftarrow> memwrite (mem b') (write_index b') d;
     assert_that (write_index b' + length d \<le> capacity b');
     Some (b'\<lparr> mem := m, write_index := write_index b' + length d \<rparr>) }"

definition Buffer_Append :: "buffer \<Rightarrow> bytes \<Rightarrow> buffer option" where
  "Buffer_Append b d = Buffer_Write b d"

text \<open>The macro \<open>evppbswap_64\<close>, mask by mask.\<close>

definition evppbswap_64 :: "u64 \<Rightarrow> u64" where
  "evppbswap_64 x =
     (drop_bit 56 (x AND 0xff00000000000000)
      OR drop_bit 40 (x AND 0x00ff000000000000)
      OR drop_bit 24 (x AND 0x0000ff0000000000)
      OR drop_bit 8 (x AND 0x000000ff00000000)
      OR push_bit 8 (x AND 0x00000000ff000000)
      OR push_bit 24 (x AND 0x0000000000ff0000)
      OR push_bit 40 (x AND 0x000000000000ff00)
      OR push_bit 56 (x AND 0x00000000000000ff))"

definition AppendInt64 :: "buffer \<Rightarrow> u64 \<Rightarrow> buffer option" where
  "AppendInt64 b x = Buffer_Write b (mem64 (evppbswap_64 x))"

definition AppendInt32 :: "buffer \<Rightarrow> u32 \<Rightarrow> buffer option" where
  "AppendInt32 b x = Buffer_Write b (mem32 (htonl x))"

definition AppendInt16 :: "buffer \<Rightarrow> u16 \<Rightarrow> buffer option" where
  "AppendInt16 b x = Buffer_Write b (mem16 (htons x))"

definition AppendInt8 :: "buffer \<Rightarrow> byte \<Rightarrow> buffer option" where
  "AppendInt8 b x = Buffer_Write b [x]"

definition Prepend :: "buffer \<Rightarrow> bytes \<Rightarrow> buffer option" where
  "Prepend b d = do {
     assert_that (length d \<le> PrependableBytes b);
     let r = read_index b - length d;
     m \<leftarrow> memwrite (mem b) r d;
     Some (b\<lparr> read_index := r, mem := m \<rparr>) }"

definition PrependInt64 :: "buffer \<Rightarrow> u64 \<Rightarrow> buffer option" where
  "PrependInt64 b x = Prepend b (mem64 (evppbswap_64 x))"

definition PrependInt32 :: "buffer \<Rightarrow> u32 \<Rightarrow> buffer option" where
  "PrependInt32 b x = Prepend b (mem32 (htonl x))"

definition PrependInt16 :: "buffer \<Rightarrow> u16 \<Rightarrow> buffer option" where
  "PrependInt16 b x = Prepend b (mem16 (htons x))"

definition PrependInt8 :: "buffer \<Rightarrow> byte \<Rightarrow> buffer option" where
  "PrependInt8 b x = Prepend b [x]"

definition UnwriteBytes :: "buffer \<Rightarrow> nat \<Rightarrow> buffer option" where
  "UnwriteBytes b n = do {
     m \<leftarrow> Buffer_length b;
     assert_that (n \<le> m);
     Some (b\<lparr> write_index := write_index b - n \<rparr>) }"

definition WriteBytes :: "buffer \<Rightarrow> nat \<Rightarrow> buffer option" where
  "WriteBytes b n = do {
     w \<leftarrow> WritableBytes b;
     assert_that (n \<le> w);
     Some (b\<lparr> write_index := write_index b + n \<rparr>) }"

definition ToText :: "buffer \<Rightarrow> buffer option" where
  "ToText b = do { b' \<leftarrow> AppendInt8 b 0; UnwriteBytes b' 1 }"

section \<open>Reading\<close>

text \<open>\<open>data()\<close> as a block of \<open>n\<close> bytes starting at the reading index.\<close>

definition data_block :: "buffer \<Rightarrow> nat \<Rightarrow> bytes option" where
  "data_block b n = memread (mem b) (read_index b) n"

definition PeekInt64 :: "buffer \<Rightarrow> u64 option" where
  "PeekInt64 b = do {
     n \<leftarrow> Buffer_length b;
     assert_that (n \<ge> 8);
     be64 \<leftarrow> data_block b 8;
     Some (evppbswap_64 (le_word be64)) }"

definition PeekInt32 :: "buffer \<Rightarrow> u32 option" where
  "PeekInt32 b = do {
     n \<leftarrow> Buffer_length b;
     assert_that (n \<ge> 4);
     be32 \<leftarrow> data_block b 4;
     Some (htonl (le_word be32)) }"

definition PeekInt16 :: "buffer \<Rightarrow> u16 option" where
  "PeekInt16 b = do {
     n \<leftarrow> Buffer_length b;
     assert_that (n \<ge> 2);
     be16 \<leftarrow> data_block b 2;
     Some (htons (le_word be16)) }"

definition PeekInt8 :: "buffer \<Rightarrow> byte option" where
  "PeekInt8 b = do {
     n \<leftarrow> Buffer_length b;
     assert_that (n \<ge> 1);
     x \<leftarrow> data_block b 1;
     Some (hd x) }"

definition ReadInt64 :: "buffer \<Rightarrow> (u64 \<times> buffer) option" where
  "ReadInt64 b = do { result \<leftarrow> PeekInt64 b; b' \<leftarrow> Skip b 8; Some (result, b') }"

definition ReadInt32 :: "buffer \<Rightarrow> (u32 \<times> buffer) option" where
  "ReadInt32 b = do { result \<leftarrow> PeekInt32 b; b' \<leftarrow> Skip b 4; Some (result, b') }"

definition ReadInt16 :: "buffer \<Rightarrow> (u16 \<times> buffer) option" where
  "ReadInt16 b = do { result \<leftarrow> PeekInt16 b; b' \<leftarrow> Skip b 2; Some (result, b') }"

definition ReadInt8 :: "buffer \<Rightarrow> (byte \<times> buffer) option" where
  "ReadInt8 b = do { result \<leftarrow> PeekInt8 b; b' \<leftarrow> Skip b 1; Some (result, b') }"

definition ToSlice :: "buffer \<Rightarrow> bytes option" where
  "ToSlice b = do { n \<leftarrow> Buffer_length b; data_block b n }"

definition Buffer_ToString :: "buffer \<Rightarrow> bytes option" where
  "Buffer_ToString b = do { n \<leftarrow> Buffer_length b; data_block b n }"

definition Shrink :: "buffer \<Rightarrow> nat \<Rightarrow> buffer option" where
  "Shrink b reserve = do {
     n \<leftarrow> Buffer_length b;
     other \<leftarrow> Buffer_new (n + reserve) kCheapPrependSize;
     s \<leftarrow> ToSlice b;
     other' \<leftarrow> Buffer_Append other s;
     Some (fst (Buffer_Swap b other')) }"

definition NextAll :: "buffer \<Rightarrow> (bytes \<times> buffer) option" where
  "NextAll b = do {
     n \<leftarrow> Buffer_length b;
     result \<leftarrow> data_block b n;
     Some (result, Buffer_Reset b) }"

definition Buffer_Next :: "buffer \<Rightarrow> nat \<Rightarrow> (bytes \<times> buffer) option" where
  "Buffer_Next b len = do {
     n \<leftarrow> Buffer_length b;
     if len < n then do {
       result \<leftarrow> data_block b len;
       Some (result, b\<lparr> read_index := read_index b + len \<rparr>) }
     else NextAll b }"

definition NextString :: "buffer \<Rightarrow> nat \<Rightarrow> (bytes \<times> buffer) option" where
  "NextString b len = Buffer_Next b len"

definition NextAllString :: "buffer \<Rightarrow> (bytes \<times> buffer) option" where
  "NextAllString b = NextAll b"

definition ReadByte :: "buffer \<Rightarrow> (byte \<times> buffer) option" where
  "ReadByte b = do {
     n \<leftarrow> Buffer_length b;
     assert_that (n \<ge> 1);
     if n = 0 then Some (0, b)
     else do {
       x \<leftarrow> data_block b 1;
       Some (hd x, b\<lparr> read_index := read_index b + 1 \<rparr>) } }"

definition UnreadBytes :: "buffer \<Rightarrow> nat \<Rightarrow> buffer option" where
  "UnreadBytes b n = do {
     assert_that (n < read_index b);
     Some (b\<lparr> read_index := read_index b - n \<rparr>) }"

section \<open>Filling from a socket\<close>

text \<open>
  \<open>::readv\<close> is the kernel's: its outcome for the offered blocks is an argument, either an
  error number or the bytes it delivered, which it lays out over the first block and then the
  second one. The result carries \<open>n\<close> and the error number saved on failure.
\<close>

definition extrabuf_size :: nat where
  "extrabuf_size = 65536"

definition readv_room :: "buffer \<Rightarrow> nat" where
  "readv_room b =
     (let writable = capacity b - write_index b
      in if writable < extrabuf_size then writable + extrabuf_size else writable)"

definition ReadFromFD :: "buffer \<Rightarrow> int + bytes \<Rightarrow> (int \<times> int option \<times> buffer) option" where
  "ReadFromFD b kres = do {
     writable \<leftarrow> WritableBytes b;
     (case kres of
        Inl err \<Rightarrow> Some (-1, Some err, b)
      | Inr ds \<Rightarrow> do {
          m \<leftarrow> memwrite (mem b) (write_index b) (take writable ds);
          if length ds \<le> writable
          then Some (int (length ds), None,
                     b\<lparr> mem := m, write_index := write_index b + length ds \<rparr>)
          else do {
            b' \<leftarrow> Buffer_Append (b\<lparr> mem := m, write_index := capacity b \<rparr>) (drop writable ds);
            Some (int (length ds), None, b') } }) }"

section \<open>Searching\<close>

text \<open>
  \<open>std::search\<close> and \<open>memchr\<close> over the bytes from a start offset to \<open>WriteBegin()\<close>; a pointer
  result is the offset of the byte in the block, \<open>nullptr\<close> is \<open>None\<close>. The outer option is the
  fault of the monad.
\<close>

fun search_pair :: "byte \<Rightarrow> byte \<Rightarrow> bytes \<Rightarrow> nat option" where
  "search_pair p q (x # y # r) =
     (if x = p \<and> y = q then Some 0 else map_option Suc (search_pair p q (y # r)))"
| "search_pair p q _ = None"

fun memchr :: "byte \<Rightarrow> bytes \<Rightarrow> nat option" where
  "memchr c [] = None"
| "memchr c (x # r) = (if x = c then Some 0 else map_option Suc (memchr c r))"

definition FindCRLF_from :: "buffer \<Rightarrow> nat \<Rightarrow> nat option option" where
  "FindCRLF_from b start = do {
     assert_that (read_index b \<le> start);
     assert_that (start \<le> write_index b);
     ds \<leftarrow> memread (mem b) start (write_index b - start);
     Some (map_option (\<lambda>i. start + i) (search_pair 13 10 ds)) }"

definition FindCRLF :: "buffer \<Rightarrow> nat option option" where
  "FindCRLF b = do {
     ds \<leftarrow> memread (mem b) (read_index b) (write_index b - read_index b);
     Some (map_option (\<lambda>i. read_index b + i) (search_pair 13 10 ds)) }"

definition FindEOL_from :: "buffer \<Rightarrow> nat \<Rightarrow> nat option option" where
  "FindEOL_from b start = do {
     assert_that (read_index b \<le> start);
     assert_that (start \<le> write_index b);
     ds \<leftarrow> memread (mem b) start (write_index b - start);
     Some (map_option (\<lambda>i. start + i) (memchr 10 ds)) }"

definition FindEOL :: "buffer \<Rightarrow> nat option option" where
  "FindEOL b = do {
     n \<leftarrow> Buffer_length b;
     ds \<leftarrow> memread (mem b) (read_index b) n;
     Some (map_option (\<lambda>i. read_index b + i) (memchr 10 ds)) }"

section \<open>Well-formed buffers and the unread bytes\<close>

definition buf_ok :: "buffer \<Rightarrow> bool" where
  "buf_ok b \<longleftrightarrow> length (mem b) = capacity b \<and> read_index b \<le> write_index b \<and>
     write_index b \<le> capacity b \<and> reserved_prepend_size b \<le> capacity b"

definition unread :: "buffer \<Rightarrow> bytes" where
  "unread b = take (write_index b - read_index b) (drop (read_index b) (mem b))"

lemma length_unread: "buf_ok b \<Longrightarrow> length (unread b) = write_index b - read_index b"
  by (auto simp: buf_ok_def unread_def)

lemma unread_split:
  assumes "buf_ok b"
  obtains P Q where "mem b = P @ unread b @ Q" and "length P = read_index b"
    and "write_index b = read_index b + length (unread b)"
proof
  show "mem b = take (read_index b) (mem b) @ unread b @ drop (write_index b) (mem b)"
    using assms append_take_drop_id [of "write_index b - read_index b" "drop (read_index b) (mem b)"]
    by (simp add: unread_def buf_ok_def)
  show "length (take (read_index b) (mem b)) = read_index b" "write_index b = read_index b + length (unread b)"
    using assms length_unread [OF assms] by (auto simp: buf_ok_def)
qed

lemma Buffer_length_ok [simp]: "buf_ok b \<Longrightarrow> Buffer_length b = Some (length (unread b))"
  by (simp add: Buffer_length_def length_unread) (simp add: buf_ok_def)

lemma WritableBytes_ok [simp]:
  "buf_ok b \<Longrightarrow> WritableBytes b = Some (capacity b - write_index b)"
  by (simp add: WritableBytes_def buf_ok_def)

lemma data_block_ok [simp]:
  "buf_ok b \<Longrightarrow> n \<le> length (unread b) \<Longrightarrow> data_block b n = Some (take n (unread b))"
  using length_unread [of b]
  by (auto simp: data_block_def memread_def buf_ok_def unread_def min.absorb1)

lemma wp_Buffer_new:
  "wp (Buffer_new n r) (\<lambda>b. buf_ok b \<and> unread b = [] \<and> reserved_prepend_size b = r)"
  by (simp add: Buffer_new_def Let_def Buffer_length_def WritableBytes_def PrependableBytes_def
      buf_ok_def unread_def)

lemma Truncate_ok [simp]: "buf_ok b \<Longrightarrow> buf_ok (Truncate b n)"
  by (auto simp: Truncate_def buf_ok_def)

lemma unread_Truncate [simp]: "buf_ok b \<Longrightarrow> unread (Truncate b n) = take n (unread b)"
  by (auto simp: Truncate_def buf_ok_def unread_def min.absorb1 min.absorb2)

lemma Buffer_Reset_ok [simp]:
  "buf_ok b \<Longrightarrow> buf_ok (Buffer_Reset b)" "unread (Buffer_Reset b) = []"
  by (auto simp: Buffer_Reset_def Truncate_def buf_ok_def unread_def)

lemma reserved_Truncate [simp]:
  "reserved_prepend_size (Truncate b n) = reserved_prepend_size b"
  "reserved_prepend_size (Buffer_Reset b) = reserved_prepend_size b"
  by (auto simp: Truncate_def Buffer_Reset_def)

lemma advance_ok:
  assumes "buf_ok b" and "n \<le> length (unread b)"
  shows "buf_ok (b\<lparr> read_index := read_index b + n \<rparr>)"
    and "unread (b\<lparr> read_index := read_index b + n \<rparr>) = drop n (unread b)"
  using assms by (auto simp: buf_ok_def unread_def drop_take add.commute)

lemma wp_Skip [wp_rules]:
  assumes "buf_ok b"
  shows "wp (Skip b n) (\<lambda>b'. buf_ok b' \<and> unread b' = drop n (unread b) \<and>
           reserved_prepend_size b' = reserved_prepend_size b)"
  using assms by (auto simp: Skip_def advance_ok)

lemma wp_grow [wp_rules]:
  assumes ok: "buf_ok b" and short: "capacity b - write_index b < len"
  shows "wp (grow b len) (\<lambda>b'. buf_ok b' \<and> unread b' = unread b \<and>
           reserved_prepend_size b' = reserved_prepend_size b \<and>
           len \<le> capacity b' - write_index b')"
proof (cases "capacity b - write_index b + read_index b < len + reserved_prepend_size b")
  case True
  then show ?thesis using ok
    by (simp add: grow_def PrependableBytes_def length_unread Let_def)
      (auto simp: buf_ok_def unread_def)
next
  case False
  with short have "reserved_prepend_size b < read_index b" by linarith
  with False ok show ?thesis
    by (simp add: grow_def PrependableBytes_def length_unread Let_def)
      (auto simp: buf_ok_def unread_def Buffer_length_def WritableBytes_def)
qed

lemma wp_EnsureWritableBytes [wp_rules]:
  assumes "buf_ok b"
  shows "wp (EnsureWritableBytes b len) (\<lambda>b'. buf_ok b' \<and> unread b' = unread b \<and>
           reserved_prepend_size b' = reserved_prepend_size b \<and>
           len \<le> capacity b' - write_index b')"
  using assms wp_grow [of b len] by (auto simp: EnsureWritableBytes_def elim!: wp_mono)

lemma wp_Buffer_Reserve [wp_rules]:
  assumes "buf_ok b" and "reserved_prepend_size b \<le> read_index b"
  shows "wp (Buffer_Reserve b len) (\<lambda>b'. buf_ok b' \<and> unread b' = unread b \<and>
           len + reserved_prepend_size b \<le> capacity b')"
proof (cases "capacity b < len + reserved_prepend_size b")
  case True
  then have "capacity b - write_index b < len + reserved_prepend_size b" by simp
  from wp_grow [OF assms(1) this] True show ?thesis
    by (auto simp: Buffer_Reserve_def elim!: wp_mono)
qed (simp add: Buffer_Reserve_def assms)

lemma write_ok:
  assumes "buf_ok b" and "length d \<le> capacity b - write_index b"
  defines "b' \<equiv> b\<lparr> mem := take (write_index b) (mem b) @ d @
                       drop (write_index b + length d) (mem b),
                   write_index := write_index b + length d \<rparr>"
  shows "buf_ok b'" and "unread b' = unread b @ d"
proof -
  have "write_index b + length d - read_index b = write_index b - read_index b + length d"
    using assms(1) by (simp add: buf_ok_def)
  with assms show "buf_ok b'" "unread b' = unread b @ d"
    by (auto simp: buf_ok_def unread_def drop_take)
qed

lemma wp_Buffer_Write [wp_rules]:
  assumes "buf_ok b"
  shows "wp (Buffer_Write b d) (\<lambda>b'. buf_ok b' \<and> unread b' = unread b @ d \<and>
           reserved_prepend_size b' = reserved_prepend_size b)"
proof -
  have *: "wp (memwrite (mem b') (write_index b') d) (\<lambda>m.
             write_index b' + length d \<le> capacity b' \<and>
             buf_ok (b'\<lparr> mem := m, write_index := write_index b' + length d \<rparr>) \<and>
             unread (b'\<lparr> mem := m, write_index := write_index b' + length d \<rparr>) = unread b' @ d)"
    if "buf_ok b'" and "length d \<le> capacity b' - write_index b'" for b'
    using that write_ok [OF that] by (auto simp: buf_ok_def)
  show ?thesis
    by (simp add: Buffer_Write_def del: wp_memwrite)
      (rule wp_mono [OF wp_EnsureWritableBytes [OF assms, of "length d"]],
        auto simp del: wp_memwrite intro!: wp_mono [OF *])
qed

lemma evppbswap_64_mask:
  "evppbswap_64 x =
     (let byte_at = \<lambda>k. x AND push_bit k (mask 8)
      in drop_bit 56 (byte_at 56) OR drop_bit 40 (byte_at 48) OR drop_bit 24 (byte_at 40)
         OR drop_bit 8 (byte_at 32) OR push_bit 8 (byte_at 24) OR push_bit 24 (byte_at 16)
         OR push_bit 40 (byte_at 8) OR push_bit 56 (byte_at 0))"
  by (simp add: evppbswap_64_def Let_def mask_eq_exp_minus_1 push_bit_eq_mult)

lemma bit_evppbswap_64:
  assumes "n < 64"
  shows "bit (evppbswap_64 x) n \<longleftrightarrow> bit x (8 * (7 - n div 8) + n mod 8)"
proof -
  define q r where "q = n div 8" and "r = n mod 8"
  then have n: "n = 8 * q + r" "r < 8" and q: "q < 8" using assms by simp_all
  from q consider "q = 0" | "q = 1" | "q = 2" | "q = 3" | "q = 4" | "q = 5" | "q = 6" | "q = 7"
    by linarith
  then have "bit (evppbswap_64 x) (8 * q + r) \<longleftrightarrow> bit x (8 * (7 - q) + r)"
    using n(2)
    by cases (simp_all only: evppbswap_64_mask Let_def, simp_all add: bit_simps ac_simps)
  with n(1) show ?thesis by (simp add: q_def r_def)
qed

lemma mem_evppbswap_64 [simp]: "mem64 (evppbswap_64 x) = rev (mem64 x)"
proof -
  have *: "evppbswap_64 x = le_word (rev (mem64 x))"
    by (rule bit_word_eqI)
       (simp add: bit_le_word rev_nth nth_mem bit_simps bit_evppbswap_64 div_less_iff_less_mult)
  show ?thesis by (simp add: *)
qed
lemma evppbswap_64_evppbswap_64 [simp]: "evppbswap_64 (evppbswap_64 x) = x"
  using le_word_mem(3) [of "evppbswap_64 (evppbswap_64 x)"] by simp

lemma wp_Prepend [wp_rules]:
  assumes "buf_ok b" and "length d \<le> read_index b"
  shows "wp (Prepend b d) (\<lambda>b'. buf_ok b' \<and> unread b' = d @ unread b \<and>
           reserved_prepend_size b' = reserved_prepend_size b \<and>
           read_index b' = read_index b - length d)"
  using assms by (auto simp: Prepend_def PrependableBytes_def Let_def buf_ok_def unread_def)

lemma wp_Buffer_Append [wp_rules]:
  assumes "buf_ok b"
  shows "wp (Buffer_Append b d) (\<lambda>b'. buf_ok b' \<and> unread b' = unread b @ d \<and>
           reserved_prepend_size b' = reserved_prepend_size b)"
  using wp_Buffer_Write [OF assms] by (simp add: Buffer_Append_def)

lemma wp_AppendInt [wp_rules]:
  assumes "buf_ok b"
  shows "wp (AppendInt64 b x64) (\<lambda>b'. buf_ok b' \<and> unread b' = unread b @ rev (mem64 x64))"
    and "wp (AppendInt32 b x32) (\<lambda>b'. buf_ok b' \<and> unread b' = unread b @ rev (mem32 x32))"
    and "wp (AppendInt16 b x16) (\<lambda>b'. buf_ok b' \<and> unread b' = unread b @ rev (mem16 x16))"
    and "wp (AppendInt8 b x8) (\<lambda>b'. buf_ok b' \<and> unread b' = unread b @ [x8])"
  by (auto simp: AppendInt64_def AppendInt32_def AppendInt16_def AppendInt8_def
      intro: wp_mono [OF wp_Buffer_Write [OF assms]])

lemma PeekInt_ok:
  assumes "buf_ok b"
  shows "unread b = rev (mem64 x64) @ r \<Longrightarrow> PeekInt64 b = Some x64"
    and "unread b = rev (mem32 x32) @ r \<Longrightarrow> PeekInt32 b = Some x32"
    and "unread b = rev (mem16 x16) @ r \<Longrightarrow> PeekInt16 b = Some x16"
    and "unread b = x8 # r \<Longrightarrow> PeekInt8 b = Some x8"
  using assms
  by (simp_all add: PeekInt64_def PeekInt32_def PeekInt16_def PeekInt8_def
      flip: mem_hton mem_evppbswap_64)

lemma wp_NextAll [wp_rules]:
  assumes "buf_ok b"
  shows "wp (NextAll b) (\<lambda>(r, b'). buf_ok b' \<and> r = unread b \<and> unread b' = [] \<and>
           reserved_prepend_size b' = reserved_prepend_size b)"
  using assms by (simp add: NextAll_def)

lemma wp_Buffer_Next [wp_rules]:
  assumes "buf_ok b"
  shows "wp (Buffer_Next b n) (\<lambda>(r, b'). buf_ok b' \<and> r = take n (unread b) \<and>
           unread b' = drop n (unread b) \<and> reserved_prepend_size b' = reserved_prepend_size b)"
  using assms wp_NextAll [OF assms] 
  by (auto simp: Buffer_Next_def advance_ok not_less elim!: wp_mono)

lemma wp_ReadFromFD [wp_rules]:
  assumes "buf_ok b"
  shows "wp (ReadFromFD b (Inr ds)) (\<lambda>(n, e, b'). n = int (length ds) \<and> e = None \<and> buf_ok b' \<and>
           unread b' = unread b @ ds \<and> reserved_prepend_size b' = reserved_prepend_size b)"
    (is "wp _ ?Q")
proof (cases "length ds \<le> capacity b - write_index b")
  case True
  have "wp (memwrite (mem b) (write_index b) ds) (\<lambda>m.
          ?Q (int (length ds), None, b\<lparr> mem := m, write_index := write_index b + length ds \<rparr>))"
    using write_ok [OF assms True] True assms by (simp add: buf_ok_def)
  with True assms show ?thesis by (simp add: ReadFromFD_def del: wp_memwrite)
next
  case False
  let ?w = "capacity b - write_index b"
  let ?d = "take ?w ds"
  let ?b = "b\<lparr> mem := take (write_index b) (mem b) @ ?d @ drop (write_index b + length ?d) (mem b),
               write_index := write_index b + length ?d \<rparr>"
  have l: "length ?d \<le> ?w" by simp
  note ok = write_ok [OF assms l]
  have c: "write_index b + length ?d = capacity b" "length (mem b) = capacity b"
    using False assms by (auto simp: buf_ok_def)
  with wp_Buffer_Append [OF ok(1), of "drop ?w ds"] ok(2) False assms show ?thesis
    by (auto simp: ReadFromFD_def elim!: wp_mono)
qed

lemma ReadFromFD_error: "buf_ok b \<Longrightarrow> ReadFromFD b (Inl e) = Some (-1, Some e, b)"
  by (simp add: ReadFromFD_def)

lemma wp_Shrink [wp_rules]:
  assumes "buf_ok b"
  shows "wp (Shrink b n) (\<lambda>b'. buf_ok b' \<and> unread b' = unread b)"
proof -
  have sl: "ToSlice b = Some (unread b)" using assms by (simp add: ToSlice_def)
  show ?thesis using assms
    by (auto simp: Shrink_def sl Buffer_Swap_def buf_ok_def unread_def
        intro!: wp_mono [OF wp_Buffer_new] wp_mono [OF wp_Buffer_Append])
qed
lemma search_pair_Some:
  "search_pair p q ds = Some i \<longleftrightarrow>
     Suc i < length ds \<and> ds ! i = p \<and> ds ! Suc i = q \<and> (\<forall>j < i. \<not> (ds ! j = p \<and> ds ! Suc j = q))"
proof (induction p q ds arbitrary: i rule: search_pair.induct)
  case (1 p q x y r)
  then show ?case by (cases i) (auto simp: less_Suc_eq_0_disj)
qed auto

lemma memchr_Some:
  "memchr c ds = Some i \<longleftrightarrow> i < length ds \<and> ds ! i = c \<and> (\<forall>j < i. ds ! j \<noteq> c)"
proof (induction ds arbitrary: i)
  case (Cons x r)
  then show ?case by (cases i) (auto simp: less_Suc_eq_0_disj)
qed auto

lemma FindCRLF_ok:
  assumes "buf_ok b"
  shows "FindCRLF b = Some (map_option (\<lambda>i. read_index b + i) (search_pair 13 10 (unread b)))"
  using assms by (simp add: FindCRLF_def memread_def unread_def buf_ok_def)

lemma FindEOL_ok:
  assumes "buf_ok b"
  shows "FindEOL b = Some (map_option (\<lambda>i. read_index b + i) (memchr 10 (unread b)))"
  using assms by (simp add: FindEOL_def memread_def length_unread) (simp add: buf_ok_def unread_def)

section \<open>The buffer as a byte queue\<close>

text \<open>
  What the connection code relies on: appending puts bytes at the end, taking removes them
  from the front. Everything a client of a byte queue needs follows from the two laws.
\<close>

locale byte_queue =
  fixes ok :: "'s \<Rightarrow> bool"
    and contents :: "'s \<Rightarrow> bytes"
    and append :: "'s \<Rightarrow> bytes \<Rightarrow> 's option"
    and next_n :: "'s \<Rightarrow> nat \<Rightarrow> (bytes \<times> 's) option"
  assumes append_law: "ok s \<Longrightarrow> wp (append s d) (\<lambda>s'. ok s' \<and> contents s' = contents s @ d)"
    and next_law: "ok s \<Longrightarrow> wp (next_n s n) (\<lambda>(r, s'). ok s' \<and> r = take n (contents s) \<and>
                     contents s' = drop n (contents s))"
begin

lemma append_all:
  "ok s \<Longrightarrow> wp (foldM append s ds) (\<lambda>s'. ok s' \<and> contents s' = contents s @ concat ds)"
proof (induction ds arbitrary: s)
  case (Cons d ds)
  show ?case
    by simp (rule wp_mono [OF append_law [OF Cons.prems]], auto intro: wp_mono [OF Cons.IH])
qed simp

lemma next_all:
  assumes "ok s" and "contents s = concat ds @ r"
  shows "wp (collectM next_n s (map length ds)) (\<lambda>(rs, s'). ok s' \<and> rs = ds \<and> contents s' = r)"
  using assms
proof (induction ds arbitrary: s)
  case (Cons d ds)
  have "wp (next_n s (length d)) (\<lambda>(r', s'). ok s' \<and> r' = d \<and> contents s' = concat ds @ r)"
    using Cons.prems by (auto intro: wp_mono [OF next_law])
  then show ?case by (auto elim!: wp_mono intro!: wp_mono [OF Cons.IH])
qed simp

lemma fifo:
  assumes "ok s" and "contents s = []"
  shows "wp (foldM append s ds) (\<lambda>s'.
           wp (collectM next_n s' (map length ds)) (\<lambda>(rs, s''). rs = ds \<and> contents s'' = []))"
  using append_all [OF assms(1), of ds] assms(2)
  by (auto elim!: wp_mono intro!: wp_mono [OF next_all [where r = "[]"]])

end

interpretation bq: byte_queue buf_ok unread Buffer_Append NextString
proof
  show "wp (Buffer_Append s d) (\<lambda>s'. buf_ok s' \<and> unread s' = unread s @ d)" if "buf_ok s" for s d
    by (rule wp_mono [OF wp_Buffer_Append [OF that]]) simp
  show "wp (NextString s n) (\<lambda>(r, s'). buf_ok s' \<and> r = take n (unread s) \<and>
          unread s' = drop n (unread s))" if "buf_ok s" for s n
    unfolding NextString_def by (rule wp_mono [OF wp_Buffer_Next [OF that]]) auto
qed

section \<open>Properties\<close>

text \<open>A small empty buffer, the concrete input of the witnesses.\<close>

definition sample_buffer :: buffer where
  "sample_buffer = \<lparr> mem = replicate 12 0, capacity = 12, read_index = 8, write_index = 8,
                      reserved_prepend_size = 8 \<rparr>"

lemma sample_buffer_ok [simp]:
  "buf_ok sample_buffer" "unread sample_buffer = []" "reserved_prepend_size sample_buffer = 8"
  "read_index sample_buffer = 8"
  by (simp_all add: sample_buffer_def buf_ok_def unread_def)

lemma wp_Buffer_Skip_unread:
  assumes "buf_ok b" and "unread b = d @ r" and "length d = n"
  shows "wp (Skip b n) (\<lambda>b'. buf_ok b' \<and> unread b' = r)"
  using wp_Skip [OF assms(1), of n] assms(2,3) by (auto elim: wp_mono)

lemma wp_ReadInt [wp_rules]:
  assumes "buf_ok b"
  shows "unread b = rev (mem64 x64) @ r \<Longrightarrow>
           wp (ReadInt64 b) (\<lambda>(x, b'). x = x64 \<and> buf_ok b' \<and> unread b' = r)"
    and "unread b = rev (mem32 x32) @ r \<Longrightarrow>
           wp (ReadInt32 b) (\<lambda>(x, b'). x = x32 \<and> buf_ok b' \<and> unread b' = r)"
    and "unread b = rev (mem16 x16) @ r \<Longrightarrow>
           wp (ReadInt16 b) (\<lambda>(x, b'). x = x16 \<and> buf_ok b' \<and> unread b' = r)"
    and "unread b = x8 # r \<Longrightarrow>
           wp (ReadInt8 b) (\<lambda>(x, b'). x = x8 \<and> buf_ok b' \<and> unread b' = r)"
proof -
  note skip = wp_Buffer_Skip_unread [OF assms]
  show "unread b = rev (mem64 x64) @ r \<Longrightarrow>
           wp (ReadInt64 b) (\<lambda>(x, b'). x = x64 \<and> buf_ok b' \<and> unread b' = r)"
    using skip [of "rev (mem64 x64)" r 8] by (simp add: ReadInt64_def PeekInt_ok [OF assms])
  show "unread b = rev (mem32 x32) @ r \<Longrightarrow>
           wp (ReadInt32 b) (\<lambda>(x, b'). x = x32 \<and> buf_ok b' \<and> unread b' = r)"
    using skip [of "rev (mem32 x32)" r 4] by (simp add: ReadInt32_def PeekInt_ok [OF assms])
  show "unread b = rev (mem16 x16) @ r \<Longrightarrow>
           wp (ReadInt16 b) (\<lambda>(x, b'). x = x16 \<and> buf_ok b' \<and> unread b' = r)"
    using skip [of "rev (mem16 x16)" r 2] by (simp add: ReadInt16_def PeekInt_ok [OF assms])
  show "unread b = x8 # r \<Longrightarrow>
           wp (ReadInt8 b) (\<lambda>(x, b'). x = x8 \<and> buf_ok b' \<and> unread b' = r)"
    using skip [of "[x8]" r 1] by (simp add: ReadInt8_def PeekInt_ok [OF assms])
qed

text \<open>
  C9. The buffer is a faithful byte stream: whatever blocks are appended to an empty
  well-formed buffer, through any number of reallocations and compactions, no assertion and no
  memory access of it fails, and taking the same lengths out again returns exactly the
  appended blocks in order and leaves the buffer empty.
\<close>

theorem Buffer_fifo:
  assumes "buf_ok b" and "unread b = []"
  shows "wp (foldM Buffer_Append b ds) (\<lambda>b'.
           wp (collectM NextString b' (map length ds)) (\<lambda>(rs, b''). rs = ds \<and> unread b'' = []))"
  using assms by (rule bq.fifo)

theorem Buffer_fifo_witness:
  "wp (foldM Buffer_Append sample_buffer [[1, 2], [3, 4, 5]])
      (\<lambda>b'. wp (collectM NextString b' (map length [[1, 2], [3, 4, 5 :: byte]]))
        (\<lambda>(rs, b''). rs = [[1, 2], [3, 4, 5]] \<and> unread b'' = []))"
  by (rule Buffer_fifo) simp_all

text \<open>
  Integers of every width written with \<open>AppendInt64\<close>, \<open>AppendInt32\<close>, \<open>AppendInt16\<close> and
  \<open>AppendInt8\<close> behind whatever the buffer holds, then a frame length pushed in front with
  \<open>PrependInt32\<close>, are read back unchanged by the \<open>ReadInt\<close> operations; the network byte order
  conversions, \<open>evppbswap_64\<close> included, cancel out, and no assertion of the nine operations
  fails as long as four bytes can be prepended.
\<close>

theorem Buffer_int_roundtrip:
  assumes "buf_ok b" and "unread b = []" and "4 \<le> reserved_prepend_size b"
    and "read_index b = reserved_prepend_size b"
  shows "wp (PrependInt32 b len \<bind> (\<lambda>b. AppendInt64 b x64) \<bind> (\<lambda>b. AppendInt32 b x32)
             \<bind> (\<lambda>b. AppendInt16 b x16) \<bind> (\<lambda>b. AppendInt8 b x8))
           (\<lambda>b. wp (do { (l, b) \<leftarrow> ReadInt32 b; (w, b) \<leftarrow> ReadInt64 b; (x, b) \<leftarrow> ReadInt32 b;
                         (y, b) \<leftarrow> ReadInt16 b; (z, b) \<leftarrow> ReadInt8 b; Some (l, w, x, y, z, b) })
             (\<lambda>(l, w, x, y, z, b'). l = len \<and> w = x64 \<and> x = x32 \<and> y = x16 \<and> z = x8 \<and>
                unread b' = [] \<and> buf_ok b'))"
proof -
  have pre: "wp (PrependInt32 b len) (\<lambda>b'. buf_ok b' \<and> unread b' = rev (mem32 len))"
    unfolding PrependInt32_def using assms by (auto intro!: wp_mono [OF wp_Prepend])
  have rd: "wp (do { (l, b) \<leftarrow> ReadInt32 b; (w, b) \<leftarrow> ReadInt64 b; (x, b) \<leftarrow> ReadInt32 b;
                 (y, b) \<leftarrow> ReadInt16 b; (z, b) \<leftarrow> ReadInt8 b; Some (l, w, x, y, z, b) })
             (\<lambda>(l, w, x, y, z, b'). l = len \<and> w = x64 \<and> x = x32 \<and> y = x16 \<and> z = x8 \<and>
                unread b' = [] \<and> buf_ok b')"
    if "buf_ok b" and "unread b = rev (mem32 len) @ rev (mem64 x64) @ rev (mem32 x32) @
      rev (mem16 x16) @ [x8]" for b
    unfolding wp_bind
    apply (rule wp_mono [OF wp_ReadInt(2) [OF that]], clarsimp)
    apply (rule wp_mono [OF wp_ReadInt(1)], assumption+, clarsimp)
    apply (rule wp_mono [OF wp_ReadInt(2)], assumption+, clarsimp)
    apply (rule wp_mono [OF wp_ReadInt(3)], assumption+, clarsimp)
    apply (rule wp_mono [OF wp_ReadInt(4)], assumption+, clarsimp)
    done
  show ?thesis
    unfolding wp_bind [of _ "\<lambda>b. AppendInt64 b x64"] wp_bind [of _ "\<lambda>b. AppendInt32 b x32"]
      wp_bind [of _ "\<lambda>b. AppendInt16 b x16"] wp_bind [of _ "\<lambda>b. AppendInt8 b x8"]
    by (rule wp_mono [OF pre], clarify, rule wp_mono [OF wp_AppendInt(1)], assumption, clarify,
        rule wp_mono [OF wp_AppendInt(2)], assumption, clarify,
        rule wp_mono [OF wp_AppendInt(3)], assumption, clarify,
        rule wp_mono [OF wp_AppendInt(4)], assumption, clarify, rule rd) simp_all
qed

theorem Buffer_int_roundtrip_witness:
  "wp (PrependInt32 sample_buffer 15 \<bind> (\<lambda>b. AppendInt64 b 1) \<bind> (\<lambda>b. AppendInt32 b 2)
             \<bind> (\<lambda>b. AppendInt16 b 3) \<bind> (\<lambda>b. AppendInt8 b 4))
           (\<lambda>b. wp (do { (l, b) \<leftarrow> ReadInt32 b; (w, b) \<leftarrow> ReadInt64 b; (x, b) \<leftarrow> ReadInt32 b;
                         (y, b) \<leftarrow> ReadInt16 b; (z, b) \<leftarrow> ReadInt8 b; Some (l, w, x, y, z, b) })
             (\<lambda>(l, w, x, y, z, b'). l = 15 \<and> w = 1 \<and> x = 2 \<and> y = 3 \<and> z = 4 \<and>
                unread b' = [] \<and> buf_ok b'))"
  by (rule Buffer_int_roundtrip) simp_all

text \<open>
  Reading from a socket appends exactly what the kernel delivered, whether it fits the
  free space of the block or spills into the 64 KB stack block; nothing is lost or reordered,
  and on an error the buffer is untouched and the error number is reported.
\<close>

theorem ReadFromFD_appends:
  assumes "buf_ok b"
  shows "wp (ReadFromFD b (Inr ds)) (\<lambda>(n, e, b').
           n = int (length ds) \<and> e = None \<and> buf_ok b' \<and> unread b' = unread b @ ds) \<and>
         ReadFromFD b (Inl err) = Some (-1, Some err, b)"
  using wp_ReadFromFD [OF assms, of ds] ReadFromFD_error [OF assms]
  by (auto elim!: wp_mono)

theorem ReadFromFD_appends_witness:
  "wp (ReadFromFD sample_buffer (Inr [5, 6, 7])) (\<lambda>(n, e, b').
      n = int (length [5, 6, 7 :: byte]) \<and> e = None \<and> buf_ok b' \<and>
      unread b' = unread sample_buffer @ [5, 6, 7]) \<and>
   ReadFromFD sample_buffer (Inl 11) = Some (-1, Some 11, sample_buffer)"
  by (rule ReadFromFD_appends) simp

text \<open>
  \<open>FindCRLF\<close> returns the first CRLF of the unread bytes and nothing when there is none.
\<close>

theorem FindCRLF_first:
  assumes "buf_ok b"
  shows "FindCRLF b = Some (Some p) \<longleftrightarrow>
           (\<exists>i. p = read_index b + i \<and> Suc i < length (unread b) \<and>
              unread b ! i = 13 \<and> unread b ! Suc i = 10 \<and>
              (\<forall>j < i. \<not> (unread b ! j = 13 \<and> unread b ! Suc j = 10)))"
  using assms by (auto simp: FindCRLF_ok search_pair_Some)

theorem FindCRLF_first_witness:
  "FindCRLF (sample_buffer\<lparr> mem := replicate 9 0 @ [13, 10, 0], write_index := 11 \<rparr>)
     = Some (Some 9)"
  by (subst FindCRLF_first)
    (auto simp: sample_buffer_def buf_ok_def unread_def intro!: exI [of _ 1])

end
