(* ===== verification/FdChannel.thy ===== *)
theory FdChannel
  imports Prelude
begin

text \<open>
  \<open>evpp::FdChannel\<close> (\<open>thirdpartlibs/evpp/evpp/fd_channel.h\<close>, \<open>fd_channel.cc\<close>): the registration of
  a file descriptor with the event loop. The calling thread and libevent are the environment:
  whether the call runs in the loop's thread, and whether \<open>EventAdd\<close> and \<open>EventDel\<close> succeed.
\<close>

unbundle bit_operations_syntax

record loop_env =
  inLoopThread :: bool
  event_add_ok :: bool
  event_del_ok :: bool

definition env_ok :: "loop_env \<Rightarrow> bool" where
  "env_ok E \<longleftrightarrow> inLoopThread E \<and> event_add_ok E \<and> event_del_ok E"

section \<open>Operations\<close>

definition kNone :: u32 where "kNone = 0x00"

definition kReadable :: u32 where "kReadable = 0x02"

definition kWritable :: u32 where "kWritable = 0x04"

text \<open>\<open>event_\<close> is the allocated libevent object: present until \<open>Close\<close>.\<close>

record fd_channel =
  read_fn :: bool
  write_fn :: bool
  attached :: bool
  event_present :: bool
  events :: u32
  chan_fd :: int

definition FdChannel_new :: "int \<Rightarrow> bool \<Rightarrow> bool \<Rightarrow> fd_channel option" where
  "FdChannel_new f r w = do {
     assert_that (f > 0);
     Some \<lparr> read_fn = False, write_fn = False, attached = False, event_present = True,
            events = (if r then kReadable else 0) OR (if w then kWritable else 0),
            chan_fd = f \<rparr> }"

definition FdChannel_delete :: "fd_channel \<Rightarrow> unit option" where
  "FdChannel_delete c = assert_that (\<not> event_present c)"

definition IsReadable :: "fd_channel \<Rightarrow> bool" where
  "IsReadable c \<longleftrightarrow> events c AND kReadable \<noteq> 0"

definition IsWritable :: "fd_channel \<Rightarrow> bool" where
  "IsWritable c \<longleftrightarrow> events c AND kWritable \<noteq> 0"

definition IsNoneEvent :: "fd_channel \<Rightarrow> bool" where
  "IsNoneEvent c \<longleftrightarrow> events c = kNone"

definition SetReadCallback :: "fd_channel \<Rightarrow> fd_channel" where
  "SetReadCallback c = c\<lparr> read_fn := True \<rparr>"

definition SetWriteCallback :: "fd_channel \<Rightarrow> fd_channel" where
  "SetWriteCallback c = c\<lparr> write_fn := True \<rparr>"

definition FdChannel_Close :: "fd_channel \<Rightarrow> fd_channel option" where
  "FdChannel_Close c = do {
     assert_that (event_present c);
     c \<leftarrow> (if event_present c then do {
              assert_that (\<not> attached c);
              Some (c\<lparr> event_present := False \<rparr>) }
           else Some c);
     Some (c\<lparr> read_fn := False, write_fn := False \<rparr>) }"

definition DetachFromLoop :: "loop_env \<Rightarrow> fd_channel \<Rightarrow> fd_channel option" where
  "DetachFromLoop E c = do {
     assert_that (inLoopThread E);
     assert_that (attached c);
     assert_that (event_present c);
     if event_del_ok E then Some (c\<lparr> attached := False \<rparr>) else Some c }"

definition AttachToLoop :: "loop_env \<Rightarrow> fd_channel \<Rightarrow> fd_channel option" where
  "AttachToLoop E c = do {
     assert_that (\<not> IsNoneEvent c);
     assert_that (inLoopThread E);
     c \<leftarrow> (if attached c then DetachFromLoop E c else Some c);
     assert_that (\<not> attached c);
     assert_that (event_present c);
     if event_add_ok E then Some (c\<lparr> attached := True \<rparr>) else Some c }"

definition FdChannel_Update :: "loop_env \<Rightarrow> fd_channel \<Rightarrow> fd_channel option" where
  "FdChannel_Update E c = do {
     assert_that (inLoopThread E);
     if IsNoneEvent c then DetachFromLoop E c else AttachToLoop E c }"

text \<open>The four operations share their shape: change the mask and update when it changed.\<close>

definition set_events :: "loop_env \<Rightarrow> fd_channel \<Rightarrow> u32 \<Rightarrow> fd_channel option" where
  "set_events E c m =
     (if m \<noteq> events c then FdChannel_Update E (c\<lparr> events := m \<rparr>) else Some (c\<lparr> events := m \<rparr>))"

definition EnableReadEvent :: "loop_env \<Rightarrow> fd_channel \<Rightarrow> fd_channel option" where
  "EnableReadEvent E c = set_events E c (events c OR kReadable)"

definition EnableWriteEvent :: "loop_env \<Rightarrow> fd_channel \<Rightarrow> fd_channel option" where
  "EnableWriteEvent E c = set_events E c (events c OR kWritable)"

definition DisableReadEvent :: "loop_env \<Rightarrow> fd_channel \<Rightarrow> fd_channel option" where
  "DisableReadEvent E c = set_events E c (events c AND NOT kReadable)"

definition DisableWriteEvent :: "loop_env \<Rightarrow> fd_channel \<Rightarrow> fd_channel option" where
  "DisableWriteEvent E c = set_events E c (events c AND NOT kWritable)"

definition DisableAllEvent :: "loop_env \<Rightarrow> fd_channel \<Rightarrow> fd_channel option" where
  "DisableAllEvent E c =
     (if events c = kNone then Some c else FdChannel_Update E (c\<lparr> events := kNone \<rparr>))"

definition EventsToString :: "fd_channel \<Rightarrow> string" where
  "EventsToString c =
     (let s = (if events c AND kReadable \<noteq> 0 then ''kReadable'' else [])
      in if events c AND kWritable \<noteq> 0
         then (if s \<noteq> [] then s @ ''|'' else s) @ ''kWritable'' else s)"

text \<open>
  \<open>HandleEvent\<close> runs the read and the write callback, in this order, on the state \<open>'s\<close> of the
  channel's owner; \<open>chan\<close> reads the channel in it, since the read callback may change it.
\<close>

definition HandleEvent :: "('s \<Rightarrow> fd_channel) \<Rightarrow> ('s \<Rightarrow> 's option) \<Rightarrow> ('s \<Rightarrow> 's option) \<Rightarrow>
    int \<Rightarrow> u32 \<Rightarrow> 's \<Rightarrow> 's option" where
  "HandleEvent chan on_read on_write sockfd which s = do {
     assert_that (sockfd = chan_fd (chan s));
     s \<leftarrow> (if which AND kReadable \<noteq> 0 \<and> read_fn (chan s) then on_read s else Some s);
     if which AND kWritable \<noteq> 0 \<and> write_fn (chan s) then on_write s else Some s }"

section \<open>Well-formed channels\<close>

text \<open>
  The mask holds only the two flags and the channel is attached exactly when it is not empty.
\<close>

definition mask_ok :: "u32 \<Rightarrow> bool" where
  "mask_ok m \<longleftrightarrow> m \<in> {0, 2, 4, 6}"

definition chan_ok :: "fd_channel \<Rightarrow> bool" where
  "chan_ok c \<longleftrightarrow> event_present c \<and> mask_ok (events c) \<and> (attached c \<longleftrightarrow> events c \<noteq> 0)"

lemmas event_consts = kNone_def kReadable_def kWritable_def

lemma event_nonzero [simp]: "kReadable \<noteq> 0" "kWritable \<noteq> 0"
  by (simp_all add: event_consts)

lemma mask_ops:
  assumes "mask_ok m"
  shows "mask_ok (m OR kReadable)" "mask_ok (m OR kWritable)"
    "mask_ok (m AND NOT kReadable)" "mask_ok (m AND NOT kWritable)"
    "(m OR kReadable) AND kWritable = m AND kWritable"
    "(m OR kWritable) AND kReadable = m AND kReadable"
    "(m AND NOT kReadable) AND kWritable = m AND kWritable"
    "(m AND NOT kWritable) AND kReadable = m AND kReadable"
    "(m OR kReadable) AND kReadable \<noteq> 0" "(m OR kWritable) AND kWritable \<noteq> 0"
    "(m AND NOT kReadable) AND kReadable = 0" "(m AND NOT kWritable) AND kWritable = 0"
  using assms by (auto simp: mask_ok_def event_consts)

lemma wp_set_events:
  assumes "env_ok E" and "chan_ok c" and "mask_ok m"
  shows "wp (set_events E c m) (\<lambda>c'. chan_ok c' \<and> c' = c\<lparr> events := m, attached := (m \<noteq> 0) \<rparr>)"
  using assms by (auto simp: set_events_def FdChannel_Update_def IsNoneEvent_def DetachFromLoop_def
      AttachToLoop_def env_ok_def chan_ok_def event_consts intro!: fd_channel.equality)

lemma wp_event_ops [wp_rules]:
  assumes "env_ok E" and "chan_ok c"
  shows "wp (EnableReadEvent E c) (\<lambda>c'. chan_ok c' \<and> IsReadable c' \<and> IsWritable c' = IsWritable c \<and>
           chan_fd c' = chan_fd c)"
    and "wp (EnableWriteEvent E c) (\<lambda>c'. chan_ok c' \<and> IsWritable c' \<and> IsReadable c' = IsReadable c \<and>
           chan_fd c' = chan_fd c)"
    and "wp (DisableReadEvent E c) (\<lambda>c'. chan_ok c' \<and> \<not> IsReadable c' \<and> IsWritable c' = IsWritable c \<and>
           chan_fd c' = chan_fd c)"
    and "wp (DisableWriteEvent E c) (\<lambda>c'. chan_ok c' \<and> \<not> IsWritable c' \<and> IsReadable c' = IsReadable c \<and>
           chan_fd c' = chan_fd c)"
    and "wp (DisableAllEvent E c) (\<lambda>c'. chan_ok c' \<and> IsNoneEvent c' \<and> \<not> attached c' \<and>
           chan_fd c' = chan_fd c)"
proof -
  have m: "mask_ok (events c)" using assms(2) by (simp add: chan_ok_def)
  note ops = mask_ops [OF m] and ev = wp_set_events [OF assms]
  show "wp (EnableReadEvent E c) (\<lambda>c'. chan_ok c' \<and> IsReadable c' \<and> IsWritable c' = IsWritable c \<and>
           chan_fd c' = chan_fd c)"
    unfolding EnableReadEvent_def by (rule wp_mono [OF ev [OF ops(1)]])
      (auto simp: IsReadable_def IsWritable_def ops)
  show "wp (EnableWriteEvent E c) (\<lambda>c'. chan_ok c' \<and> IsWritable c' \<and> IsReadable c' = IsReadable c \<and>
           chan_fd c' = chan_fd c)"
    unfolding EnableWriteEvent_def by (rule wp_mono [OF ev [OF ops(2)]])
      (auto simp: IsReadable_def IsWritable_def ops)
  show "wp (DisableReadEvent E c) (\<lambda>c'. chan_ok c' \<and> \<not> IsReadable c' \<and> IsWritable c' = IsWritable c \<and>
           chan_fd c' = chan_fd c)"
    unfolding DisableReadEvent_def by (rule wp_mono [OF ev [OF ops(3)]])
      (auto simp: IsReadable_def IsWritable_def ops)
  show "wp (DisableWriteEvent E c) (\<lambda>c'. chan_ok c' \<and> \<not> IsWritable c' \<and> IsReadable c' = IsReadable c \<and>
           chan_fd c' = chan_fd c)"
    unfolding DisableWriteEvent_def by (rule wp_mono [OF ev [OF ops(4)]])
      (auto simp: IsReadable_def IsWritable_def ops)
  show "wp (DisableAllEvent E c) (\<lambda>c'. chan_ok c' \<and> IsNoneEvent c' \<and> \<not> attached c' \<and>
           chan_fd c' = chan_fd c)"
    using assms by (auto simp: DisableAllEvent_def FdChannel_Update_def IsNoneEvent_def
        DetachFromLoop_def env_ok_def chan_ok_def event_consts mask_ok_def)
qed

lemma wp_FdChannel_new:
  "0 < f \<Longrightarrow> wp (FdChannel_new f False False) (\<lambda>c. chan_ok c \<and> chan_fd c = f \<and> \<not> IsWritable c)"
  by (simp add: FdChannel_new_def chan_ok_def mask_ok_def IsWritable_def)

lemma wp_FdChannel_Close:
  "chan_ok c \<Longrightarrow> \<not> attached c \<Longrightarrow> wp (FdChannel_Close c) (\<lambda>c'. c' = c\<lparr> event_present := False,
     read_fn := False, write_fn := False \<rparr>)"
  by (simp add: FdChannel_Close_def chan_ok_def)

end
