(* ===== verification/TcpConn.thy ===== *)
theory TcpConn
  imports Buffer FdChannel "HOL-Library.Sublist"
begin

text \<open>
  \<open>evpp::TCPConn\<close> (\<open>thirdpartlibs/evpp/evpp/tcp_conn.h\<close>, \<open>tcp_conn.cc\<close>): a connection with its
  input and output buffers. Parameters of the model are the calling thread and libevent
  (\<open>loop_env\<close>) and the kernel's \<open>::send\<close>, a function of the number of the call and the bytes
  offered, which answers an error number or how many bytes it took. Work queued in the event
  loop for this connection is the list \<open>conn_tasks\<close>, callbacks made to the owner and the user
  are logged in \<open>conn_log\<close>, and the bytes the kernel took are collected in \<open>wire\<close>.
\<close>

section \<open>State\<close>

datatype conn_type = kIncoming | kOutgoing

datatype conn_status = kDisconnected | kConnecting | kConnected | kDisconnecting

datatype conn_task = CloseTask | SendTask bytes | WriteComplete | HighWaterMark nat

datatype conn_event = ConnCallback conn_status | CloseCallback

record tcp_conn =
  conn_fd :: int
  conn_id :: u64
  conn_name :: string
  local_addr :: string
  remote_addr :: string
  chan :: "fd_channel option"
  input_buffer :: buffer
  output_buffer :: buffer
  conn_context :: "nat option list"
  type_of_conn :: conn_type
  status :: conn_status
  high_water_mark :: nat
  close_delay :: int
  delay_close_timer :: bool
  conn_fn :: bool
  write_complete_fn :: bool
  high_water_mark_fn :: bool
  close_fn :: bool
  conn_tasks :: "conn_task list"
  conn_log :: "conn_event list"
  wire :: bytes
  sends :: nat

type_synonym ksend = "nat \<Rightarrow> bytes \<Rightarrow> int + nat"

text \<open>The error numbers of the platform.\<close>

definition EINTR :: int where "EINTR = 4"

definition EAGAIN :: int where "EAGAIN = 11"

definition EPIPE :: int where "EPIPE = 32"

definition ECONNRESET :: int where "ECONNRESET = 104"

definition EVUTIL_ERR_RW_RETRIABLE :: "int \<Rightarrow> bool" where
  "EVUTIL_ERR_RW_RETRIABLE e \<longleftrightarrow> e = EINTR \<or> e = EAGAIN"

definition kContextCount :: nat where "kContextCount = 16"

section \<open>Operations\<close>

definition TCPConn_new :: "string \<Rightarrow> int \<Rightarrow> string \<Rightarrow> string \<Rightarrow> u64 \<Rightarrow> tcp_conn option" where
  "TCPConn_new n sockfd laddr raddr cid = do {
     inb \<leftarrow> Buffer_new kInitialSize kCheapPrependSize;
     outb \<leftarrow> Buffer_new kInitialSize kCheapPrependSize;
     ch \<leftarrow> (if sockfd \<ge> 0 then do {
               c \<leftarrow> FdChannel_new sockfd False False;
               Some (Some (SetWriteCallback (SetReadCallback c))) }
            else Some None);
     Some \<lparr> conn_fd = sockfd, conn_id = cid, conn_name = n, local_addr = laddr, remote_addr = raddr,
            chan = ch, input_buffer = inb, output_buffer = outb,
            conn_context = replicate kContextCount None, type_of_conn = kIncoming,
            status = kDisconnected, high_water_mark = 128 * 1024 * 1024, close_delay = 0,
            delay_close_timer = False, conn_fn = False, write_complete_fn = False,
            high_water_mark_fn = False, close_fn = False, conn_tasks = [], conn_log = [],
            wire = [], sends = 0 \<rparr> }"

definition TCPConn_delete :: "tcp_conn \<Rightarrow> unit option" where
  "TCPConn_delete c = do {
     assert_that (status c = kDisconnected);
     (if conn_fd c \<ge> 0 then do {
        ch \<leftarrow> chan c;
        assert_that (conn_fd c = chan_fd ch);
        assert_that (IsNoneEvent ch) }
      else Some ());
     assert_that (\<not> delay_close_timer c) }"

definition queue_task :: "conn_task \<Rightarrow> tcp_conn \<Rightarrow> tcp_conn" where
  "queue_task t c = c\<lparr> conn_tasks := conn_tasks c @ [t] \<rparr>"

definition callback :: "conn_event \<Rightarrow> tcp_conn \<Rightarrow> tcp_conn" where
  "callback e c = c\<lparr> conn_log := conn_log c @ [e] \<rparr>"

definition on_chan :: "(fd_channel \<Rightarrow> fd_channel option) \<Rightarrow> tcp_conn \<Rightarrow> tcp_conn option" where
  "on_chan f c = do { ch \<leftarrow> chan c; ch \<leftarrow> f ch; Some (c\<lparr> chan := Some ch \<rparr>) }"

definition TCPConn_Close :: "tcp_conn \<Rightarrow> tcp_conn" where
  "TCPConn_Close c = queue_task CloseTask (c\<lparr> status := kDisconnecting \<rparr>)"

definition HandleClose :: "loop_env \<Rightarrow> tcp_conn \<Rightarrow> tcp_conn option" where
  "HandleClose E c =
     (if status c = kDisconnected then Some c
      else do {
        assert_that (status c = kDisconnecting);
        let c = c\<lparr> status := kDisconnecting \<rparr>;
        assert_that (inLoopThread E);
        c \<leftarrow> on_chan (DisableAllEvent E) c;
        c \<leftarrow> on_chan FdChannel_Close c;
        let c = (if delay_close_timer c then c\<lparr> delay_close_timer := False \<rparr> else c);
        c \<leftarrow> (if conn_fn c then do {
                 assert_that (status c = kDisconnecting);
                 Some (callback (ConnCallback (status c)) c) }
              else Some c);
        let c = (if close_fn c then callback CloseCallback c else c);
        Some (c\<lparr> status := kDisconnected \<rparr>) })"

definition HandleError :: "loop_env \<Rightarrow> tcp_conn \<Rightarrow> tcp_conn option" where
  "HandleError E c = HandleClose E (c\<lparr> status := kDisconnecting \<rparr>)"

definition DelayClose :: "loop_env \<Rightarrow> tcp_conn \<Rightarrow> tcp_conn option" where
  "DelayClose E c = do {
     assert_that (inLoopThread E);
     HandleClose E (c\<lparr> status := kDisconnecting, delay_close_timer := False \<rparr>) }"

text \<open>\<open>::send\<close>: the kernel's answer, with the taken bytes added to \<open>wire\<close>.\<close>

definition kernel_send :: "ksend \<Rightarrow> tcp_conn \<Rightarrow> bytes \<Rightarrow> (int + nat) \<times> tcp_conn" where
  "kernel_send K c d =
     (let r = K (sends c) d; c = c\<lparr> sends := Suc (sends c) \<rparr>
      in case r of Inl e \<Rightarrow> (Inl e, c) | Inr n \<Rightarrow> (Inr n, c\<lparr> wire := wire c @ take n d \<rparr>))"

text \<open>
  The direct write of \<open>SendInLoop\<close>: \<open>nwritten\<close>, \<open>remaining\<close> and \<open>write_error\<close>.
\<close>

definition try_write :: "ksend \<Rightarrow> tcp_conn \<Rightarrow> bytes \<Rightarrow> (nat \<times> nat \<times> bool \<times> tcp_conn) option" where
  "try_write K c d = do {
     ch \<leftarrow> chan c;
     n \<leftarrow> Buffer_length (output_buffer c);
     if \<not> IsWritable ch \<and> n = 0 then
       (case kernel_send K c d of
          (Inr nwritten, c) \<Rightarrow>
            (let remaining = length d - nwritten
             in Some (nwritten, remaining, False,
                      if remaining = 0 \<and> write_complete_fn c then queue_task WriteComplete c else c))
        | (Inl serrno, c) \<Rightarrow>
            Some (0, length d,
                  \<not> EVUTIL_ERR_RW_RETRIABLE serrno \<and> (serrno = EPIPE \<or> serrno = ECONNRESET), c))
     else Some (0, length d, False, c) }"

text \<open>The end of \<open>SendInLoop\<close>: the \<open>remaining\<close> bytes, at \<open>data + nwritten\<close>, are kept for later.\<close>

definition keep_remaining :: "loop_env \<Rightarrow> tcp_conn \<Rightarrow> bytes \<Rightarrow> tcp_conn option" where
  "keep_remaining E c rest =
     (if length rest > 0 then do {
        old_len \<leftarrow> Buffer_length (output_buffer c);
        let c = (if old_len + length rest \<ge> high_water_mark c \<and> old_len < high_water_mark c \<and>
                    high_water_mark_fn c
                 then queue_task (HighWaterMark (old_len + length rest)) c else c);
        outb \<leftarrow> Buffer_Append (output_buffer c) rest;
        let c = c\<lparr> output_buffer := outb \<rparr>;
        ch \<leftarrow> chan c;
        if \<not> IsWritable ch then on_chan (EnableWriteEvent E) c else Some c }
      else Some c)"

definition SendInLoop :: "loop_env \<Rightarrow> ksend \<Rightarrow> tcp_conn \<Rightarrow> bytes \<Rightarrow> tcp_conn option" where
  "SendInLoop E K c d = do {
     assert_that (inLoopThread E);
     if status c = kDisconnected then Some c
     else do {
       (nwritten, remaining, write_error, c) \<leftarrow> try_write K c d;
       if write_error then HandleError E c
       else do {
         assert_that (remaining \<le> length d);
         keep_remaining E c (take remaining (drop nwritten d)) } } }"

definition SendStringInLoop :: "loop_env \<Rightarrow> ksend \<Rightarrow> tcp_conn \<Rightarrow> bytes \<Rightarrow> tcp_conn option" where
  "SendStringInLoop E K c message = SendInLoop E K c message"

definition Send_string :: "loop_env \<Rightarrow> ksend \<Rightarrow> tcp_conn \<Rightarrow> bytes \<Rightarrow> tcp_conn option" where
  "Send_string E K c d =
     (if status c \<noteq> kConnected then Some c
      else if inLoopThread E then SendInLoop E K c d
      else Some (queue_task (SendTask d) c))"

definition Send_slice :: "loop_env \<Rightarrow> ksend \<Rightarrow> tcp_conn \<Rightarrow> bytes \<Rightarrow> tcp_conn option" where
  "Send_slice E K c message =
     (if status c \<noteq> kConnected then Some c
      else if inLoopThread E then SendInLoop E K c message
      else Some (queue_task (SendTask message) c))"

definition Send_data :: "loop_env \<Rightarrow> ksend \<Rightarrow> tcp_conn \<Rightarrow> bytes \<Rightarrow> tcp_conn option" where
  "Send_data E K c d =
     (if inLoopThread E then SendInLoop E K c d else Send_slice E K c d)"

text \<open>\<open>Send(Buffer*)\<close> also returns the buffer, emptied when the bytes were taken over.\<close>

definition Send_buffer :: "loop_env \<Rightarrow> ksend \<Rightarrow> tcp_conn \<Rightarrow> buffer \<Rightarrow> (tcp_conn \<times> buffer) option" where
  "Send_buffer E K c buf =
     (if status c \<noteq> kConnected then Some (c, buf)
      else if inLoopThread E then do {
        n \<leftarrow> Buffer_length buf;
        d \<leftarrow> data_block buf n;
        c \<leftarrow> SendInLoop E K c d;
        Some (c, Buffer_Reset buf) }
      else do {
        (d, buf) \<leftarrow> NextAllString buf;
        Some (queue_task (SendTask d) c, buf) })"

text \<open>
  \<open>msg\<close> is the message callback, the last action of the branch; \<open>kres\<close> what the kernel's
  \<open>::readv\<close> answers.
\<close>

definition HandleRead :: "loop_env \<Rightarrow> (tcp_conn \<Rightarrow> tcp_conn option) \<Rightarrow> tcp_conn \<Rightarrow> int + bytes \<Rightarrow>
    tcp_conn option" where
  "HandleRead E msg c kres = do {
     assert_that (inLoopThread E);
     (n, serrno, inb) \<leftarrow> ReadFromFD (input_buffer c) kres;
     let c = c\<lparr> input_buffer := inb \<rparr>;
     if n > 0 then msg c
     else if n = 0 then
       (if type_of_conn c = kOutgoing then HandleClose E (c\<lparr> status := kDisconnecting \<rparr>)
        else do {
          c \<leftarrow> on_chan (DisableReadEvent E) c;
          if close_delay c = 0 then DelayClose E c
          else Some (c\<lparr> delay_close_timer := True \<rparr>) })
     else (case serrno of
             Some e \<Rightarrow> if EVUTIL_ERR_RW_RETRIABLE e then Some c else HandleError E c
           | None \<Rightarrow> None) }"

text \<open>When \<open>::send\<close> returns 0, \<open>errno\<close> is what an earlier call left: \<open>stale\<close>.\<close>

definition HandleWrite :: "loop_env \<Rightarrow> ksend \<Rightarrow> int \<Rightarrow> tcp_conn \<Rightarrow> tcp_conn option" where
  "HandleWrite E K stale c = do {
     assert_that (inLoopThread E);
     ch \<leftarrow> chan c;
     assert_that (\<not> attached ch \<or> IsWritable ch);
     len \<leftarrow> Buffer_length (output_buffer c);
     d \<leftarrow> data_block (output_buffer c) len;
     let (r, c) = kernel_send K c d;
     let fail = (\<lambda>serrno c. if EVUTIL_ERR_RW_RETRIABLE serrno then Some c else HandleError E c);
     (case r of
        Inl serrno \<Rightarrow> fail serrno c
      | Inr n \<Rightarrow>
          if n > 0 then do {
            (s, outb) \<leftarrow> Buffer_Next (output_buffer c) n;
            let c = c\<lparr> output_buffer := outb \<rparr>;
            m \<leftarrow> Buffer_length (output_buffer c);
            if m = 0 then do {
              c \<leftarrow> on_chan (DisableWriteEvent E) c;
              Some (if write_complete_fn c then queue_task WriteComplete c else c) }
            else Some c }
          else fail stale c) }"

definition OnAttachedToLoop :: "loop_env \<Rightarrow> tcp_conn \<Rightarrow> tcp_conn option" where
  "OnAttachedToLoop E c = do {
     assert_that (inLoopThread E);
     let c = c\<lparr> status := kConnected \<rparr>;
     c \<leftarrow> on_chan (EnableReadEvent E) c;
     Some (if conn_fn c then callback (ConnCallback (status c)) c else c) }"

definition SetHighWaterMarkCallback :: "tcp_conn \<Rightarrow> nat \<Rightarrow> tcp_conn" where
  "SetHighWaterMarkCallback c mark = c\<lparr> high_water_mark_fn := True, high_water_mark := mark \<rparr>"

definition StatusToString :: "tcp_conn \<Rightarrow> string" where
  "StatusToString c =
     (case status c of kDisconnected \<Rightarrow> ''kDisconnected'' | kConnecting \<Rightarrow> ''kConnecting''
      | kConnected \<Rightarrow> ''kConnected'' | kDisconnecting \<Rightarrow> ''kDisconnecting'')"

definition AddrToString :: "tcp_conn \<Rightarrow> string" where
  "AddrToString c =
     (if type_of_conn c = kIncoming
      then ''('' @ remote_addr c @ ''->'' @ local_addr c @ ''(local))''
      else ''('' @ local_addr c @ ''(local)->'' @ remote_addr c @ '')'')"

definition conn_IsConnected :: "tcp_conn \<Rightarrow> bool" where
  "conn_IsConnected c \<longleftrightarrow> status c = kConnected"

definition SetCloseDelayTime :: "tcp_conn \<Rightarrow> int \<Rightarrow> tcp_conn option" where
  "SetCloseDelayTime c d = do {
     assert_that (type_of_conn c = kIncoming);
     Some (c\<lparr> close_delay := d \<rparr>) }"

definition set_context :: "tcp_conn \<Rightarrow> nat \<Rightarrow> nat option \<Rightarrow> tcp_conn option" where
  "set_context c i x = do {
     assert_that (i < kContextCount);
     assert_that (length (conn_context c) = kContextCount);
     Some (c\<lparr> conn_context := (conn_context c)[i := x] \<rparr>) }"

definition get_context :: "tcp_conn \<Rightarrow> nat \<Rightarrow> nat option option" where
  "get_context c i = do {
     assert_that (i < kContextCount);
     assert_that (length (conn_context c) = kContextCount);
     Some (conn_context c ! i) }"

text \<open>The loop runs the oldest queued task of the connection.\<close>

fun run_task :: "loop_env \<Rightarrow> ksend \<Rightarrow> tcp_conn \<Rightarrow> tcp_conn option" where
  "run_task E K c =
     (case conn_tasks c of
        [] \<Rightarrow> Some c
      | t # ts \<Rightarrow>
          (let c = c\<lparr> conn_tasks := ts \<rparr>
           in case t of
                CloseTask \<Rightarrow> do { assert_that (inLoopThread E); HandleClose E c }
              | SendTask d \<Rightarrow> SendStringInLoop E K c d
              | WriteComplete \<Rightarrow> Some c
              | HighWaterMark n \<Rightarrow> Some c))"

section \<open>Well-formed connections\<close>

text \<open>
  As long as the connection is not closed, its channel is registered consistently, and the write
  event is enabled exactly when unsent bytes wait in the output buffer: they will be sent, and
  the loop does not spin on a connection with nothing to send.
  A closed connection has no event and no timer left.
\<close>

definition conn_ok :: "tcp_conn \<Rightarrow> bool" where
  "conn_ok c \<longleftrightarrow> buf_ok (input_buffer c) \<and> buf_ok (output_buffer c) \<and>
     (\<exists>ch. chan c = Some ch \<and> chan_fd ch = conn_fd c \<and>
        (if status c = kDisconnected then IsNoneEvent ch \<and> \<not> delay_close_timer c
         else chan_ok ch \<and> (IsWritable ch \<longleftrightarrow> unread (output_buffer c) \<noteq> [])))"

definition kernel_ok :: "ksend \<Rightarrow> bool" where
  "kernel_ok K \<longleftrightarrow> (\<forall>i d n. K i d = Inr n \<longrightarrow> n \<le> length d)"

lemma wp_on_chan [simp]:
  "chan c = Some ch \<Longrightarrow> wp (on_chan f c) Q = wp (f ch) (\<lambda>ch'. Q (c\<lparr> chan := Some ch' \<rparr>))"
  by (simp add: on_chan_def)

lemma task_simps [simp]:
  "status (queue_task t c) = status c" "chan (queue_task t c) = chan c" "wire (queue_task t c) = wire c"
  "output_buffer (queue_task t c) = output_buffer c" "input_buffer (queue_task t c) = input_buffer c"
  "conn_fd (queue_task t c) = conn_fd c" "conn_log (queue_task t c) = conn_log c"
  "conn_ok (queue_task t c) = conn_ok c" "close_fn (queue_task t c) = close_fn c"
  "conn_fn (queue_task t c) = conn_fn c" "delay_close_timer (queue_task t c) = delay_close_timer c"
  by (simp_all add: queue_task_def conn_ok_def)

lemma callback_simps [simp]:
  "status (callback t c) = status c" "chan (callback t c) = chan c" "wire (callback t c) = wire c"
  "output_buffer (callback t c) = output_buffer c" "input_buffer (callback t c) = input_buffer c"
  "conn_fd (callback t c) = conn_fd c" "conn_log (callback t c) = conn_log c @ [t]"
  "close_fn (callback t c) = close_fn c" "conn_fn (callback t c) = conn_fn c"
  "delay_close_timer (callback t c) = delay_close_timer c" "conn_tasks (callback t c) = conn_tasks c"
  by (simp_all add: callback_def)

definition close_events :: "tcp_conn \<Rightarrow> conn_event list" where
  "close_events c = (if conn_fn c then [ConnCallback kDisconnecting] else []) @
                    (if close_fn c then [CloseCallback] else [])"

lemma wp_HandleClose [wp_rules]:
  assumes "env_ok E" and "conn_ok c" and "status c = kDisconnecting"
  shows "wp (HandleClose E c) (\<lambda>c'. conn_ok c' \<and> status c' = kDisconnected \<and> wire c' = wire c \<and>
           output_buffer c' = output_buffer c \<and> input_buffer c' = input_buffer c \<and>
           conn_log c' = conn_log c @ close_events c \<and> \<not> delay_close_timer c' \<and>
           conn_tasks c' = conn_tasks c \<and> (\<exists>ch. chan c' = Some ch \<and> IsNoneEvent ch \<and> \<not> event_present ch) \<and>
           conn_fn c' = conn_fn c \<and> close_fn c' = close_fn c)"
proof -
  obtain ch where ch: "chan c = Some ch" "chan_ok ch" "chan_fd ch = conn_fd c"
    using assms(2,3) by (auto simp: conn_ok_def)
  show ?thesis
    using assms ch
    by (auto simp: HandleClose_def Let_def env_ok_def conn_ok_def close_events_def
        IsNoneEvent_def FdChannel_Close_def chan_ok_def
        intro!: wp_mono [OF wp_event_ops(5)])
qed


lemma wp_HandleError [wp_rules]:
  assumes "env_ok E" and "conn_ok c" and "status c \<noteq> kDisconnected"
  shows "wp (HandleError E c) (\<lambda>c'. conn_ok c' \<and> status c' = kDisconnected \<and> wire c' = wire c \<and>
           output_buffer c' = output_buffer c \<and> conn_log c' = conn_log c @ close_events c \<and>
           conn_tasks c' = conn_tasks c \<and> conn_fn c' = conn_fn c \<and> close_fn c' = close_fn c)"
proof -
  have "conn_ok (c\<lparr> status := kDisconnecting \<rparr>)" using assms(2,3) by (auto simp: conn_ok_def)
  from wp_HandleClose [OF assms(1) this] show ?thesis
    by (auto simp: HandleError_def close_events_def elim!: wp_mono)
qed

text \<open>
  What a send or a write does to the outgoing bytes: either nothing is lost or reordered and
  the connection keeps its state, or the connection is closed and the peer has received no
  more than before, then not a byte of the new data.
\<close>

definition stream_step :: "tcp_conn \<Rightarrow> bytes \<Rightarrow> tcp_conn \<Rightarrow> bool" where
  "stream_step c d c' \<longleftrightarrow> conn_ok c' \<and> close_fn c' = close_fn c \<and> conn_fn c' = conn_fn c \<and>
     (CloseTask \<in> set (conn_tasks c') \<longrightarrow> CloseTask \<in> set (conn_tasks c)) \<and>
     (status c' = status c \<and> conn_log c' = conn_log c \<and>
        wire c' @ unread (output_buffer c') = wire c @ unread (output_buffer c) @ d \<or>
      status c' = kDisconnected \<and> conn_log c' = conn_log c @ close_events c \<and> wire c' = wire c)"

lemma wp_try_write:
  assumes ok: "conn_ok c" "status c \<noteq> kDisconnected" and K: "kernel_ok K"
  shows "wp (try_write K c d) (\<lambda>(nw, rem, err, c'). \<exists>ch.
           chan c' = Some ch \<and> chan c' = chan c \<and> chan_ok ch \<and> chan_fd ch = conn_fd c' \<and> 
           conn_ok c' \<and> status c' = status c \<and> rem = length d - nw \<and> nw \<le> length d \<and>
           output_buffer c' = output_buffer c \<and> conn_log c' = conn_log c \<and>
           close_fn c' = close_fn c \<and> conn_fn c' = conn_fn c \<and>
           (CloseTask \<in> set (conn_tasks c') \<longrightarrow> CloseTask \<in> set (conn_tasks c)) \<and>
           wire c' = wire c @ take nw d \<and> (err \<longrightarrow> nw = 0) \<and>
           (nw > 0 \<longrightarrow> unread (output_buffer c) = []))"
proof -
  obtain ch where ch: "chan c = Some ch" "chan_ok ch" "chan_fd ch = conn_fd c"
    using ok by (auto simp: conn_ok_def)
  have out: "buf_ok (output_buffer c)" using ok by (simp add: conn_ok_def)
  have kn: "n \<le> length d" if "K i d = Inr n" for i n using K that by (simp add: kernel_ok_def)
  show ?thesis
    using ch out ok kn
    by (auto simp: try_write_def kernel_send_def Let_def conn_ok_def queue_task_def split: sum.splits)
qed

lemma wp_keep_remaining:
  assumes E: "env_ok E" and ok: "conn_ok c" "status c \<noteq> kDisconnected"
  shows "wp (keep_remaining E c d) (\<lambda>c'. conn_ok c' \<and> status c' = status c \<and> conn_log c' = conn_log c \<and>
           close_fn c' = close_fn c \<and> conn_fn c' = conn_fn c \<and> wire c' = wire c \<and>
           (CloseTask \<in> set (conn_tasks c') \<longrightarrow> CloseTask \<in> set (conn_tasks c)) \<and>
           unread (output_buffer c') = unread (output_buffer c) @ d)"
proof (cases "d = []")
  case False
  obtain ch where ch: "chan c = Some ch" "chan_ok ch" "chan_fd ch = conn_fd c"
    using ok by (auto simp: conn_ok_def)
  have b: "buf_ok (output_buffer c)" using ok by (simp add: conn_ok_def)
  show ?thesis
    using False ch ok b
    by (auto simp: keep_remaining_def Let_def conn_ok_def queue_task_def
        intro!: wp_mono [OF wp_Buffer_Append] wp_mono [OF wp_event_ops(2) [OF E]])
qed (use ok in \<open>simp add: keep_remaining_def\<close>)

lemma wp_SendInLoop [wp_rules]:
  assumes E: "env_ok E" and K: "kernel_ok K" and ok: "conn_ok c" "status c \<noteq> kDisconnected"
  shows "wp (SendInLoop E K c d) (stream_step c d)"
proof -
  have E': "inLoopThread E" using E by (simp add: env_ok_def)
  have after: "wp (if err then HandleError E c1
       else do { assert_that (rem \<le> length d); keep_remaining E c1 (take rem (drop nw d)) })
      (stream_step c d)"
    if h: "conn_ok c1" "status c1 = status c"
       "rem = length d - nw" "nw \<le> length d" "output_buffer c1 = output_buffer c"
       "close_fn c1 = close_fn c" "conn_fn c1 = conn_fn c" "conn_log c1 = conn_log c"
       "CloseTask \<in> set (conn_tasks c1) \<longrightarrow> CloseTask \<in> set (conn_tasks c)"
       "wire c1 = wire c @ take nw d" "err \<longrightarrow> nw = 0" "nw > 0 \<longrightarrow> unread (output_buffer c) = []"
    for nw rem err c1
  proof (cases err)
    case True
    have "close_events c1 = close_events c" using h by (simp add: close_events_def)
    with True h ok(2) wp_HandleError [OF E h(1)] show ?thesis
      by (auto simp: stream_step_def elim!: wp_mono)
  next
    case False
    have "wire c1 @ unread (output_buffer c1) @ drop nw d = wire c @ unread (output_buffer c) @ d"
      using h by (cases "nw = 0") auto
    with False h ok(2) wp_keep_remaining [OF E h(1), of "drop nw d"] show ?thesis
      by (auto simp: stream_step_def elim!: wp_mono)
  qed
  show ?thesis
    unfolding SendInLoop_def
    using ok(2) E' by (auto intro!: wp_mono [OF wp_try_write [OF ok K, of d]] after simp del: wp_if)
qed

lemma wp_HandleWrite [wp_rules]:
  assumes E: "env_ok E" and K: "kernel_ok K" and ok: "conn_ok c" "status c \<noteq> kDisconnected"
    and wr: "unread (output_buffer c) \<noteq> []"
  shows "wp (HandleWrite E K stale c) (stream_step c [])"
proof -
  obtain ch where ch: "chan c = Some ch" "chan_ok ch" "chan_fd ch = conn_fd c" "IsWritable ch"
    using ok wr by (auto simp: conn_ok_def)
  have b: "buf_ok (output_buffer c)" using ok by (simp add: conn_ok_def)
  have E': "inLoopThread E" using E by (simp add: env_ok_def)
  let ?d = "unread (output_buffer c)" and ?c = "c\<lparr> sends := Suc (sends c) \<rparr>"
  have fail: "wp (if EVUTIL_ERR_RW_RETRIABLE e then Some c1 else HandleError E c1) (stream_step c [])"
    if "c1 = ?c" for e c1
    using ok wp_HandleError [OF E, of ?c] that
    by (auto simp: stream_step_def conn_ok_def close_events_def elim!: wp_mono)
  show ?thesis
  proof (cases "K (sends c) ?d")
    case (Inl e)
    then show ?thesis using fail [of ?c e] ch b E'
      by (simp add: HandleWrite_def kernel_send_def Let_def)
  next
    case (Inr n)
    then have n: "n \<le> length ?d" using K by (simp add: kernel_ok_def)
    show ?thesis
    proof (cases "n > 0")
      case True
      let ?c1 = "c\<lparr> sends := Suc (sends c), wire := wire c @ take n ?d \<rparr>"
      have "wp (Buffer_Next (output_buffer c) n) (\<lambda>(s, b'). buf_ok b' \<and> unread b' = drop n ?d)"
        by (rule wp_mono [OF wp_Buffer_Next [OF b]]) auto
      with True Inr ch b E' n ok show ?thesis
        by (auto simp: HandleWrite_def kernel_send_def Let_def stream_step_def conn_ok_def queue_task_def
            elim!: wp_mono intro!: wp_mono [OF wp_event_ops(4) [OF E]])
    next
      case False
      then show ?thesis using Inr fail [of ?c stale] ch b E'
        by (simp add: HandleWrite_def kernel_send_def Let_def)
    qed
  qed
qed

lemma wp_HandleRead:
  assumes E: "env_ok E" and ok: "conn_ok c" "status c \<noteq> kDisconnected"
  shows "wp (HandleRead E Some c kres) (stream_step c [])"
proof -
  have b: "buf_ok (input_buffer c)" using ok by (simp add: conn_ok_def)
  have E': "inLoopThread E" using E by (simp add: env_ok_def)
  have err: "wp (HandleError E c1) (stream_step c [])" if "c1 = c\<lparr> input_buffer := i \<rparr>" "buf_ok i" for c1 i
    using ok that wp_HandleError [OF E, of c1]
    by (auto simp: stream_step_def conn_ok_def close_events_def elim!: wp_mono)
  show ?thesis
  proof (cases kres)
    case (Inl e)
    then show ?thesis using E' b ok err [of c "input_buffer c"]
      by (simp add: HandleRead_def ReadFromFD_error stream_step_def)
  next
    case (Inr ds)
    have half: "wp (if type_of_conn c1 = kOutgoing then HandleClose E (c1\<lparr> status := kDisconnecting \<rparr>)
        else do {
          c \<leftarrow> on_chan (DisableReadEvent E) c1;
          if close_delay c = 0 then DelayClose E c
          else Some (c\<lparr> delay_close_timer := True \<rparr>) }) (stream_step c [])"
      if c1: "c1 = c\<lparr> input_buffer := i \<rparr>" "buf_ok i" for c1 i
    proof -
      obtain ch where ch: "chan c = Some ch" "chan_ok ch" "chan_fd ch = conn_fd c"
        "IsWritable ch \<longleftrightarrow> unread (output_buffer c) \<noteq> []"
        using ok by (auto simp: conn_ok_def)
      have out: "buf_ok (output_buffer c)" using ok by (simp add: conn_ok_def)
      have close: "wp (HandleClose E c2) (stream_step c [])"
        if "c2 = c\<lparr> input_buffer := i, chan := Some ch2, status := kDisconnecting, delay_close_timer := t \<rparr>"
          "chan_ok ch2" "chan_fd ch2 = conn_fd c" "IsWritable ch2 = IsWritable ch" for c2 ch2 t
        using that c1 ch out wp_HandleClose [OF E, of c2]
        by (auto simp: stream_step_def conn_ok_def close_events_def elim!: wp_mono)
      have "wp (HandleClose E (c1\<lparr> status := kDisconnecting \<rparr>)) (stream_step c [])"
        by (rule close [where ?ch2.0 = ch and t = "delay_close_timer c"]) (use ch c1 in simp_all)
      moreover have "wp (on_chan (DisableReadEvent E) c1 \<bind> (\<lambda>c. if close_delay c = 0
          then DelayClose E c else Some (c\<lparr> delay_close_timer := True \<rparr>))) (stream_step c [])"
        using ch c1 E' close out ok
        by (auto simp: DelayClose_def stream_step_def conn_ok_def intro!: wp_mono [OF wp_event_ops(3) [OF E]])
      ultimately show ?thesis by (simp del: wp_bind)
    qed
    obtain i where i: "ReadFromFD (input_buffer c) (Inr ds) = Some (int (length ds), None, i)" "buf_ok i"
      using wp_ReadFromFD [OF b, of ds] by (auto simp: wp_def)
    show ?thesis
    proof (cases "ds = []")
      case True
      then show ?thesis using E' Inr i half [of "c\<lparr> input_buffer := i \<rparr>" i]
        by (simp add: HandleRead_def Let_def del: wp_if wp_bind)
    next
      case False
      then show ?thesis using E' Inr i ok by (simp add: HandleRead_def stream_step_def conn_ok_def)
    qed
  qed
qed

section \<open>Runs of a connection\<close>

text \<open>
  What can happen to an attached connection, in the loop's thread unless said otherwise: the
  user sends (also from another thread), closes, or takes bytes from the input buffer; the loop
  runs a queued task, reports that the descriptor is readable or writable, or fires the delayed
  close. The actions of a message callback follow the read that made it as further operations.
\<close>

datatype conn_op =
    OpSend bytes | OpSendOther bytes | OpSendBuffer bytes | OpClose | OpConsume nat
  | OpTask | OpReadable "int + bytes" | OpWritable int | OpTimer

fun conn_do :: "loop_env \<Rightarrow> ksend \<Rightarrow> conn_op \<Rightarrow> tcp_conn \<Rightarrow> tcp_conn option" where
  "conn_do E K (OpSend d) c = Send_slice E K c d"
| "conn_do E K (OpSendOther d) c = Send_slice (E\<lparr> inLoopThread := False \<rparr>) K c d"
| "conn_do E K (OpSendBuffer d) c = do {
     b \<leftarrow> Buffer_new kInitialSize kCheapPrependSize;
     b \<leftarrow> Buffer_Append b d;
     (c, b) \<leftarrow> Send_buffer E K c b;
     Some c }"
| "conn_do E K OpClose c = Some (TCPConn_Close c)"
| "conn_do E K (OpConsume n) c = do {
     (d, b) \<leftarrow> Buffer_Next (input_buffer c) n;
     Some (c\<lparr> input_buffer := b \<rparr>) }"
| "conn_do E K OpTask c = run_task E K c"
| "conn_do E K (OpReadable kres) c = HandleRead E Some c kres"
| "conn_do E K (OpWritable stale) c = HandleWrite E K stale c"
| "conn_do E K OpTimer c = DelayClose E c"

text \<open>
  The loop reports only events that are enabled and fires only a timer that is set. \<open>Close\<close> is
  called on a connection that is not closed yet.
\<close>

fun conn_enabled :: "conn_op \<Rightarrow> tcp_conn \<Rightarrow> bool" where
  "conn_enabled OpClose c \<longleftrightarrow> status c \<noteq> kDisconnected"
| "conn_enabled (OpReadable r) c \<longleftrightarrow> (case chan c of Some ch \<Rightarrow> IsReadable ch | None \<Rightarrow> False)"
| "conn_enabled (OpWritable e) c \<longleftrightarrow> (case chan c of Some ch \<Rightarrow> IsWritable ch | None \<Rightarrow> False)"
| "conn_enabled OpTimer c \<longleftrightarrow> delay_close_timer c"
| "conn_enabled _ c \<longleftrightarrow> True"

text \<open>The bytes an operation hands to \<open>SendInLoop\<close> of an open connection.\<close>

fun handed_over :: "conn_op \<Rightarrow> tcp_conn \<Rightarrow> bytes" where
  "handed_over (OpSend d) c = (if status c = kConnected then d else [])"
| "handed_over (OpSendBuffer d) c = (if status c = kConnected then d else [])"
| "handed_over OpTask c =
     (case conn_tasks c of SendTask d # ts \<Rightarrow> if status c = kDisconnected then [] else d | _ \<Rightarrow> [])"
| "handed_over _ c = []"

inductive conn_reach :: "loop_env \<Rightarrow> ksend \<Rightarrow> tcp_conn \<Rightarrow> bytes \<Rightarrow> bool" for E K where
  attach: "TCPConn_new n fd l r i = Some c \<Longrightarrow>
    OnAttachedToLoop E (c\<lparr> type_of_conn := t, close_delay := d, conn_fn := cf, close_fn := xf,
      write_complete_fn := wc, high_water_mark_fn := hf, high_water_mark := m \<rparr>) = Some c' \<Longrightarrow>
    conn_reach E K c' []"
| step: "conn_reach E K c sent \<Longrightarrow> conn_enabled a c \<Longrightarrow> conn_do E K a c = Some c' \<Longrightarrow>
    conn_reach E K c' (sent @ handed_over a c)"

definition conn_inv :: "tcp_conn \<Rightarrow> bytes \<Rightarrow> bool" where
  "conn_inv c sent \<longleftrightarrow> conn_ok c \<and>
     (if status c = kDisconnected then prefix (wire c) sent
      else wire c @ unread (output_buffer c) = sent) \<and>
     (CloseTask \<in> set (conn_tasks c) \<longrightarrow> status c \<in> {kDisconnecting, kDisconnected}) \<and>
     count_list (conn_log c) CloseCallback = (if close_fn c \<and> status c = kDisconnected then 1 else 0)"

lemma conn_inv_stream:
  assumes "conn_inv c sent" and "status c \<noteq> kDisconnected" and "stream_step c d c'"
  shows "conn_inv c' (sent @ d)"
  using assms by (auto simp: conn_inv_def stream_step_def close_events_def prefix_def)

lemma wp_DelayClose:
  assumes E: "env_ok E" and ok: "conn_ok c" "status c \<noteq> kDisconnected"
  shows "wp (DelayClose E c) (stream_step c [])"
proof -
  have "conn_ok (c\<lparr> status := kDisconnecting, delay_close_timer := False \<rparr>)"
    using ok by (auto simp: conn_ok_def)
  from wp_HandleClose [OF E this] E show ?thesis
    by (auto simp: DelayClose_def stream_step_def close_events_def env_ok_def elim!: wp_mono)
qed

lemma wp_Send:
  assumes E: "env_ok E" and K: "kernel_ok K" and i: "conn_inv c sent"
  shows "wp (Send_slice E K c d) (\<lambda>c'. conn_inv c' (sent @ (if status c = kConnected then d else [])))"
  using E i wp_SendInLoop [OF E K, of c d] conn_inv_stream [OF i, of d]
  by (auto simp: Send_slice_def env_ok_def conn_inv_def [of c] elim!: wp_mono)

lemma wp_Send_buffer:
  assumes E: "env_ok E" and K: "kernel_ok K" and i: "conn_inv c sent" and b: "buf_ok b"
  shows "wp (Send_buffer E K c b) (\<lambda>(c', b'). buf_ok b' \<and>
           conn_inv c' (sent @ (if status c = kConnected then unread b else [])) \<and>
           unread b' = (if status c = kConnected then [] else unread b))"
  using E i b wp_SendInLoop [OF E K, of c "unread b"] conn_inv_stream [OF i, of "unread b"]
  by (auto simp: Send_buffer_def env_ok_def conn_inv_def [of c] elim!: wp_mono)

lemma wp_run_task:
  assumes E: "env_ok E" and K: "kernel_ok K" and i: "conn_inv c sent"
  shows "wp (run_task E K c) (\<lambda>c'. conn_inv c' (sent @ handed_over OpTask c))"
proof (cases "conn_tasks c")
  case (Cons t ts)
  let ?c = "c\<lparr> conn_tasks := ts \<rparr>"
  have i': "conn_inv ?c sent" using i Cons by (auto simp: conn_inv_def conn_ok_def)
  show ?thesis
  proof (cases t)
    case CloseTask
    then show ?thesis
      using Cons i i' E wp_HandleClose [OF E, of ?c]
      by (auto simp: conn_inv_def close_events_def env_ok_def HandleClose_def [of _ ?c] prefix_def
          elim!: wp_mono)
  next
    case (SendTask d)
    then show ?thesis using Cons i' E wp_SendInLoop [OF E K, of ?c d] conn_inv_stream [OF i', of d]
      by (auto simp: SendStringInLoop_def SendInLoop_def [of _ _ ?c] env_ok_def conn_inv_def [of ?c] elim!: wp_mono)
  qed (use Cons i' in auto)
qed (use i in auto)

lemma wp_conn_do:
  assumes E: "env_ok E" and K: "kernel_ok K" and i: "conn_inv c sent" and a: "conn_enabled a c"
  shows "wp (conn_do E K a c) (\<lambda>c'. conn_inv c' (sent @ handed_over a c))"
proof -
  have ok: "conn_ok c" using i by (simp add: conn_inv_def)
  have nil: "wp m (\<lambda>c'. conn_inv c' (sent @ []))"
    if "wp m (stream_step c [])" "status c \<noteq> kDisconnected" for m
    using that conn_inv_stream [OF i, of "[]"] by (auto elim!: wp_mono)
  have live: "status c \<noteq> kDisconnected" if "chan c = Some ch" "IsReadable ch \<or> IsWritable ch" for ch
    using ok that by (auto simp: conn_ok_def IsNoneEvent_def IsReadable_def IsWritable_def kNone_def)
  show ?thesis
  proof (cases a)
    case (OpSend d)
    then show ?thesis using wp_Send [OF E K i, of d] by simp
  next
    case (OpSendOther d)
    then show ?thesis using i
      by (auto simp: Send_slice_def conn_inv_def queue_task_def conn_ok_def)
  next
    case (OpSendBuffer d)
    then show ?thesis
      by (auto intro!: wp_mono [OF wp_Buffer_new] wp_mono [OF wp_Buffer_Append] wp_mono [OF wp_Send_buffer [OF E K i]])
  next
    case OpClose
    then show ?thesis using i a
      by (auto simp: TCPConn_Close_def conn_inv_def conn_ok_def)
  next
    case (OpConsume n)
    have "buf_ok (input_buffer c)" using ok by (simp add: conn_ok_def)
    from wp_Buffer_Next [OF this, of n] OpConsume i show ?thesis
      by (auto simp: conn_inv_def conn_ok_def elim!: wp_mono)
  next
    case OpTask
    then show ?thesis using wp_run_task [OF E K i] by simp
  next
    case (OpReadable r)
    with a live have l: "status c \<noteq> kDisconnected" by (auto split: option.splits)
    with OpReadable nil [OF wp_HandleRead [OF E ok l, of r] l] show ?thesis by simp
  next
    case (OpWritable e)
    with a live have l: "status c \<noteq> kDisconnected" by (auto split: option.splits)
    with a OpWritable ok have "unread (output_buffer c) \<noteq> []"
      by (auto simp: conn_ok_def split: option.splits)
    with OpWritable nil [OF wp_HandleWrite [OF E K ok l, of e] l] show ?thesis by simp
  next
    case OpTimer
    with a ok have l: "status c \<noteq> kDisconnected" by (auto simp: conn_ok_def)
    with OpTimer nil [OF wp_DelayClose [OF E ok l] l] show ?thesis by simp
  qed
qed

text \<open>The callbacks an operation makes: none, or those of closing the connection.\<close>

definition logged :: "tcp_conn \<Rightarrow> tcp_conn \<Rightarrow> bool" where
  "logged c c' \<longleftrightarrow> close_fn c' = close_fn c \<and> conn_fn c' = conn_fn c \<and>
     (status c' \<noteq> kDisconnected \<and> conn_log c' = conn_log c \<or>
      status c' = kDisconnected \<and> conn_log c' = conn_log c @ close_events c)"

lemma stream_logged: "status c \<noteq> kDisconnected \<Longrightarrow> stream_step c d c' \<Longrightarrow> logged c c'"
  by (auto simp: stream_step_def logged_def)

lemma wp_run_task_logged:
  assumes E: "env_ok E" and K: "kernel_ok K" and i: "conn_inv c sent" and l: "status c \<noteq> kDisconnected"
  shows "wp (run_task E K c) (logged c)"
proof (cases "conn_tasks c")
  case (Cons t ts)
  let ?c = "c\<lparr> conn_tasks := ts \<rparr>"
  have ok: "conn_ok ?c" using i by (auto simp: conn_inv_def conn_ok_def)
  have e: "close_events ?c = close_events c" by (simp add: close_events_def)
  show ?thesis
  proof (cases t)
    case CloseTask
    with Cons i l have "status ?c = kDisconnecting" by (auto simp: conn_inv_def)
    from wp_HandleClose [OF E ok this] CloseTask Cons E e show ?thesis
      by (auto simp: logged_def env_ok_def elim!: wp_mono)
  next
    case (SendTask d)
    from wp_SendInLoop [OF E K ok, of d] l SendTask Cons e show ?thesis
      by (auto simp: SendStringInLoop_def logged_def stream_step_def elim!: wp_mono)
  qed (use Cons l in \<open>auto simp: logged_def\<close>)
qed (use l in \<open>auto simp: logged_def\<close>)

lemma wp_conn_do_logged:
  assumes E: "env_ok E" and K: "kernel_ok K" and i: "conn_inv c sent" and a: "conn_enabled a c"
    and l: "status c \<noteq> kDisconnected"
  shows "wp (conn_do E K a c) (logged c)"
proof -
  have ok: "conn_ok c" using i by (simp add: conn_inv_def)
  have E': "inLoopThread E" using E by (simp add: env_ok_def)
  have st: "wp m (logged c)" if "wp m (stream_step c d)" for m d
    using that stream_logged [OF l] by (auto elim: wp_mono)
  have same: "logged c c" using l by (simp add: logged_def)
  show ?thesis
  proof (cases a)
    case (OpSend d)
    then show ?thesis using st [OF wp_SendInLoop [OF E K ok l, of d]] E' same by (simp add: Send_slice_def)
  next
    case (OpSendOther d)
    then show ?thesis using same by (auto simp: Send_slice_def logged_def)
  next
    case (OpSendBuffer d)
    have "wp (Send_buffer E K c b) (\<lambda>x. wp (case x of (c', b') \<Rightarrow> Some c') (logged c))" if "buf_ok b" for b
      using that E' same st [OF wp_SendInLoop [OF E K ok l, of "unread b"]]
      by (auto simp: Send_buffer_def elim!: wp_mono)
    with OpSendBuffer show ?thesis
      by (auto intro!: wp_mono [OF wp_Buffer_new] wp_mono [OF wp_Buffer_Append])
  next
    case OpClose
    then show ?thesis by (simp add: TCPConn_Close_def logged_def)
  next
    case (OpConsume n)
    have "buf_ok (input_buffer c)" using ok by (simp add: conn_ok_def)
    from wp_Buffer_Next [OF this, of n] OpConsume l show ?thesis by (auto simp: logged_def elim!: wp_mono)
  next
    case OpTask
    then show ?thesis using wp_run_task_logged [OF E K i l] by simp
  next
    case (OpReadable r)
    then show ?thesis using st [OF wp_HandleRead [OF E ok l, of r]] by simp
  next
    case (OpWritable e)
    with a ok l have "unread (output_buffer c) \<noteq> []"
      by (auto simp: conn_ok_def split: option.splits)
    with OpWritable st [OF wp_HandleWrite [OF E K ok l, of e]] show ?thesis by simp
  next
    case OpTimer
    then show ?thesis using st [OF wp_DelayClose [OF E ok l]] by simp
  qed
qed

lemma attach_inv:
  assumes E: "env_ok E" and fd: "0 < fd"
  shows "wp (TCPConn_new n fd l r i) (\<lambda>c. wp (OnAttachedToLoop E (c\<lparr> type_of_conn := t, close_delay := d,
      conn_fn := cf, close_fn := xf, write_complete_fn := wc, high_water_mark_fn := hf,
      high_water_mark := m \<rparr>)) (\<lambda>c'. conn_inv c' [] \<and> status c' = kConnected \<and> close_fn c' = xf))"
proof -
  have "wp (EnableReadEvent E (SetWriteCallback (SetReadCallback ch)))
          (\<lambda>ch'. chan_fd ch' = fd \<and> chan_ok ch' \<and> \<not> IsWritable ch')"
    if "chan_ok ch" "chan_fd ch = fd" "\<not> IsWritable ch" for ch
    using that wp_event_ops(1) [OF E, of "SetWriteCallback (SetReadCallback ch)"]
    by (auto simp: chan_ok_def SetReadCallback_def SetWriteCallback_def IsWritable_def elim!: wp_mono)
  then show ?thesis
    using fd E
    by (auto simp: TCPConn_new_def OnAttachedToLoop_def conn_inv_def env_ok_def conn_ok_def
        intro!: wp_mono [OF wp_Buffer_new] wp_mono [OF wp_FdChannel_new [OF fd]])
qed

lemma TCPConn_new_defaults:
  assumes "TCPConn_new n fd l r i = Some c"
  shows "close_delay c = 0" "\<not> write_complete_fn c" "\<not> high_water_mark_fn c"
    "high_water_mark c = 128 * 1024 * 1024" "conn_log c = []"
  using assms by (auto simp: TCPConn_new_def bind_eq_Some_conv)

lemma attached_fd:
  assumes "TCPConn_new n fd l r i = Some c" and "chan c \<noteq> None"
  shows "0 < fd"
  using assms by (auto simp: TCPConn_new_def FdChannel_new_def bind_eq_Some_conv assert_that_def split: if_splits)

lemma conn_reach_inv:
  assumes E: "env_ok E" and K: "kernel_ok K" and r: "conn_reach E K c sent"
  shows "conn_inv c sent"
  using r
proof induction
  case (attach n fd l r i c m hf wc xf cf d t c')
  then have "chan c \<noteq> None" by (auto simp: OnAttachedToLoop_def on_chan_def Let_def bind_eq_Some_conv)
  with attach have "0 < fd" by (intro attached_fd)
  from attach_inv [OF E this, of n l r i m hf wc xf cf d t] attach
  show ?case by (auto simp: wp_def)
next
  case (step c sent a c')
  with wp_conn_do [OF E K step.IH step.hyps(2)] show ?case by (simp add: wp_def)
qed

lemma delete_ok:
  assumes "conn_ok c" and "status c = kDisconnected"
  shows "TCPConn_delete c = Some ()"
  using assms by (auto simp: conn_ok_def TCPConn_delete_def)

lemma closed_again:
  assumes "chan c = Some ch" and "\<not> event_present ch" and "IsNoneEvent ch" and "status c = kDisconnecting"
  shows "HandleClose E (queue_task t c) = None"
  using assms
  by (auto simp: HandleClose_def on_chan_def DisableAllEvent_def IsNoneEvent_def
      FdChannel_Close_def Let_def assert_that_def)

text \<open>An environment in which everything succeeds, and a kernel that takes two bytes at a time.\<close>

definition sample_env :: loop_env where
  "sample_env = \<lparr> inLoopThread = True, event_add_ok = True, event_del_ok = True \<rparr>"

definition sample_kernel :: ksend where
  "sample_kernel = (\<lambda>i d. Inr (min 2 (length d)))"

lemma sample_ok: "env_ok sample_env" "kernel_ok sample_kernel"
  by (simp_all add: sample_env_def sample_kernel_def env_ok_def kernel_ok_def)

lemma sample_conn_reach: "\<exists>c. conn_reach sample_env sample_kernel c [1, 2, 3]"
proof -
  obtain c c' where c: "TCPConn_new ''c'' 5 ''l'' ''r'' 1 = Some c"
    "OnAttachedToLoop sample_env (c\<lparr> type_of_conn := kIncoming, close_delay := 0, conn_fn := True,
       close_fn := True, write_complete_fn := True, high_water_mark_fn := False,
       high_water_mark := 100 \<rparr>) = Some c'" "conn_inv c' []" "status c' = kConnected"
    using attach_inv [OF sample_ok(1), of 5 "''c''" "''l''" "''r''" 1 100 False True True True 0 kIncoming]
    by (auto simp: wp_def)
  note r = conn_reach.attach [where K = sample_kernel, OF c(1,2)]
  obtain c'' where "conn_do sample_env sample_kernel (OpSend [1, 2, 3]) c' = Some c''"
    using wp_conn_do [OF sample_ok c(3), of "OpSend [1, 2, 3]"] by (auto simp: wp_def)
  from conn_reach.step [OF r _ this] c(4) show ?thesis by auto
qed

text \<open>
  C2. A connection never loses, duplicates or reorders outgoing bytes: in every state that a
  run reaches, what the kernel took is a prefix of the bytes handed to \<open>SendInLoop\<close>, and as
  long as the connection is not closed the rest waits in the output buffer, with the write
  event enabled exactly when that buffer is not empty.
\<close>

theorem TCPConn_stream:
  assumes "env_ok E" and "kernel_ok K" and "conn_reach E K c sent"
  shows "prefix (wire c) sent \<and>
         (status c \<noteq> kDisconnected \<longrightarrow> sent = wire c @ unread (output_buffer c) \<and>
            (\<exists>ch. chan c = Some ch \<and> (IsWritable ch \<longleftrightarrow> unread (output_buffer c) \<noteq> [])))"
  using conn_reach_inv [OF assms] by (auto simp: conn_inv_def conn_ok_def prefix_def split: if_splits)

theorem TCPConn_stream_witness:
  "\<exists>c. conn_reach sample_env sample_kernel c [1, 2, 3] \<and> prefix (wire c) [1, 2, 3] \<and>
     (status c \<noteq> kDisconnected \<longrightarrow> [1, 2, 3] = wire c @ unread (output_buffer c))"
proof -
  obtain c where r: "conn_reach sample_env sample_kernel c [1, 2, 3]" using sample_conn_reach by blast
  with TCPConn_stream [OF sample_ok r] show ?thesis by blast
qed



text \<open>
  \<open>Close\<close> has to be called on an open connection: once a connection has been closed, a
  further \<open>Close\<close> marks it as disconnecting again and the queued \<open>HandleClose\<close> fails the
  assertion of \<open>FdChannel::Close\<close> that the event still exists.
\<close>

theorem TCPConn_Close_twice:
  assumes "env_ok E" and "conn_ok c" and "status c \<noteq> kDisconnected"
  shows "wp (HandleClose E (TCPConn_Close c)) (\<lambda>c'. status c' = kDisconnected \<and>
           HandleClose E (TCPConn_Close c') = None)"
proof -
  have "conn_ok (TCPConn_Close c)" using assms(2,3) by (auto simp: TCPConn_Close_def conn_ok_def)
  from wp_HandleClose [OF assms(1) this] show ?thesis
    by (auto simp: TCPConn_Close_def closed_again elim!: wp_mono)
qed

theorem TCPConn_Close_twice_witness:
  "\<exists>c c'. HandleClose sample_env (TCPConn_Close c) = Some c' \<and> HandleClose sample_env (TCPConn_Close c') = None"
proof -
  obtain c where c: "conn_inv c []" "status c = kConnected"
    using attach_inv [OF sample_ok(1), of 5 "''c''" "''l''" "''r''" 1 100 False True True True 0 kIncoming]
    by (auto simp: wp_def)
  with TCPConn_Close_twice [OF sample_ok(1), of c] show ?thesis by (auto simp: conn_inv_def wp_def)
qed

end
