(* ===== verification/CString.thy ===== *)
theory CString
  imports Prelude
begin

text \<open>
  Strings as the sources use them: decimal numbers as text (\<open>std::to_string\<close>, \<open>atoi\<close>), the
  searching members of \<open>std::string\<close>, the trimming functions of \<open>common/sys/common.h\<close>
  (\<open>QYStringOp\<close>), the C view of a string up to its first null character, and reading a text
  line by line with \<open>fgets\<close>. A position is an option, \<open>None\<close> being \<open>std::string::npos\<close>.
\<close>

section \<open>Numbers as text\<close>

definition digit_char :: "nat \<Rightarrow> char" where
  "digit_char n = char_of (48 + n)"

definition digit_value :: "char \<Rightarrow> nat" where
  "digit_value c = of_char c - 48"

definition is_digit :: "char \<Rightarrow> bool" where
  "is_digit c \<longleftrightarrow> (of_char c :: nat) \<in> {48..57}"

text \<open>\<open>std::to_string\<close> of a number that is not negative.\<close>

fun to_string :: "nat \<Rightarrow> string" where
  "to_string n = (if n < 10 then [digit_char n] else to_string (n div 10) @ [digit_char (n mod 10)])"

declare to_string.simps [simp del]

definition isspace :: "char \<Rightarrow> bool" where
  "isspace c \<longleftrightarrow> (of_char c :: nat) \<in> {9..13} \<union> {32}"

definition number_of :: "string \<Rightarrow> nat" where
  "number_of s = foldl (\<lambda>n c. 10 * n + digit_value c) 0 s"

definition atoi :: "string \<Rightarrow> int" where
  "atoi s =
     (case dropWhile isspace s of
        [] \<Rightarrow> 0
      | c # r \<Rightarrow>
          if c = CHR ''-'' then - int (number_of (takeWhile is_digit r))
          else if c = CHR ''+'' then int (number_of (takeWhile is_digit r))
          else int (number_of (takeWhile is_digit (c # r))))"

text \<open>\<open>std::string::rfind\<close> and \<open>find_first_of\<close> of a character.\<close>

fun find_char :: "char \<Rightarrow> string \<Rightarrow> nat option" where
  "find_char x [] = None"
| "find_char x (c # s) = (if c = x then Some 0 else map_option Suc (find_char x s))"

definition rfind_char :: "char \<Rightarrow> string \<Rightarrow> nat option" where
  "rfind_char x s = map_option (\<lambda>i. length s - 1 - i) (find_char x (rev s))"

text \<open>\<open>std::string::find\<close> of a string: the first position at which it starts.\<close>

fun is_prefix :: "'a list \<Rightarrow> 'a list \<Rightarrow> bool" where
  "is_prefix [] s = True"
| "is_prefix (x # p) [] = False"
| "is_prefix (x # p) (c # s) = (x = c \<and> is_prefix p s)"

fun find_str :: "'a list \<Rightarrow> 'a list \<Rightarrow> nat option" where
  "find_str p [] = (if p = [] then Some 0 else None)"
| "find_str p (c # s) =
     (if is_prefix p (c # s) then Some 0 else map_option Suc (find_str p s))"

text \<open>\<open>find_first_not_of\<close> and \<open>find_last_not_of\<close> a set of characters.\<close>

fun find_first_not_of :: "char list \<Rightarrow> string \<Rightarrow> nat option" where
  "find_first_not_of cs [] = None"
| "find_first_not_of cs (c # s) =
     (if c \<notin> set cs then Some 0 else map_option Suc (find_first_not_of cs s))"

definition find_last_not_of :: "char list \<Rightarrow> string \<Rightarrow> nat option" where
  "find_last_not_of cs s = map_option (\<lambda>i. length s - 1 - i) (find_first_not_of cs (rev s))"

text \<open>\<open>substr(pos, n)\<close>; a position past the end throws \<open>std::out_of_range\<close>.\<close>

definition substr :: "string \<Rightarrow> nat \<Rightarrow> nat \<Rightarrow> string option" where
  "substr s pos n = (if pos \<le> length s then Some (take n (drop pos s)) else None)"

text \<open>The difference of two \<open>size_t\<close> values, which wraps around.\<close>

definition size_diff :: "nat \<Rightarrow> nat \<Rightarrow> nat" where
  "size_diff a b = (if b \<le> a then a - b else 2 ^ 64 - (b - a))"

definition c_str :: "string \<Rightarrow> string" where
  "c_str s = takeWhile (\<lambda>c. c \<noteq> CHR 0x00) s"

section \<open>Trimming\<close>

definition blanks :: string where
  "blanks = [CHR '' '', CHR 0x09, CHR 0x0C, CHR 0x0B, CHR 0x0A, CHR 0x0D]"

definition TrimLeft :: "string \<Rightarrow> string" where
  "TrimLeft s = (case find_first_not_of blanks s of Some i \<Rightarrow> drop i s | None \<Rightarrow> [])"

definition TrimRight :: "string \<Rightarrow> string" where
  "TrimRight s = (case find_last_not_of blanks s of Some i \<Rightarrow> take (i + 1) s | None \<Rightarrow> [])"

definition Trim :: "string \<Rightarrow> string" where
  "Trim s = TrimLeft (TrimRight s)"

section \<open>Lines of a text\<close>

text \<open>
  \<open>fgets(data, n, fp)\<close> on the rest of a file: at most \<open>n - 1\<close> characters, up to and
  including the first newline, and what remains of the file; \<open>None\<close> at its end.
\<close>

definition newline :: char where
  "newline = CHR 0x0A"

definition fgets :: "nat \<Rightarrow> string \<Rightarrow> (string \<times> string) option" where
  "fgets n s =
     (if s = [] then None
      else let k = min (n - 1) (case find_char newline s of Some i \<Rightarrow> i + 1 | None \<Rightarrow> length s)
           in Some (take k s, drop k s))"

text \<open>The rows that a loop \<open>while (fgets(data, 4096, fp))\<close> gets.\<close>

function file_rows :: "string \<Rightarrow> string list" where
  "file_rows s = (case fgets 4096 s of None \<Rightarrow> [] | Some (l, r) \<Rightarrow> l # file_rows r)"
  by pat_completeness auto
termination
  by (relation "measure length") (auto simp: fgets_def Let_def split: if_splits option.splits)

declare file_rows.simps [simp del]

section \<open>Lemmas\<close>

lemma of_char_digit [simp]: "n < 10 \<Longrightarrow> of_char (digit_char n) = 48 + n"
  by (simp add: digit_char_def)

lemma digit_value [simp]: "n < 10 \<Longrightarrow> digit_value (digit_char n) = n"
  by (simp add: digit_value_def)

lemma number_of_snoc [simp]: "number_of (s @ [c]) = 10 * number_of s + digit_value c"
  by (simp add: number_of_def)

lemma to_string_digits: "list_all is_digit (to_string n)"
proof (induction n rule: to_string.induct)
  case (1 n)
  have d: "is_digit (digit_char m)" if "m < 10" for m using that by (simp add: is_digit_def)
  show ?case using 1 d by (subst to_string.simps) simp
qed

lemma to_string_not_Nil [simp]: "to_string n \<noteq> []"
  by (subst to_string.simps) simp

lemma number_of_to_string [simp]: "number_of (to_string n) = n"
proof (induction n rule: to_string.induct)
  case (1 n)
  show ?case
  proof (cases "n < 10")
    case True
    then show ?thesis by (subst to_string.simps) (simp add: number_of_def)
  next
    case False
    then have "number_of (to_string (n div 10)) = n div 10" by (rule 1)
    with False show ?thesis by (subst to_string.simps) simp
  qed
qed

lemma digits_no:
  assumes "list_all is_digit s" and "\<not> is_digit c"
  shows "c \<notin> set s"
  using assms by (auto simp: list_all_iff)

lemma digit_not_special: "is_digit c \<Longrightarrow> \<not> isspace c \<and> c \<noteq> CHR ''-'' \<and> c \<noteq> CHR ''+''"
  by (auto simp: is_digit_def isspace_def)

lemma atoi_to_string [simp]: "atoi (to_string n) = int n"
proof -
  obtain c r where s: "to_string n = c # r" using to_string_not_Nil [of n] by (cases "to_string n") auto
  have d: "list_all is_digit (c # r)" using to_string_digits [of n] s by simp
  have t: "takeWhile is_digit (c # r) = c # r"
    by (rule takeWhile_eq_all_conv [THEN iffD2]) (use d in \<open>simp only: list_all_iff\<close>)
  from d digit_not_special [of c] s number_of_to_string [of n] show ?thesis
    by (simp add: atoi_def t del: takeWhile.simps)
qed

lemma find_char_None: "find_char x s = None \<longleftrightarrow> x \<notin> set s"
  by (induction s) auto

lemma find_char_append: "x \<notin> set s \<Longrightarrow> find_char x (s @ x # r) = Some (length s)"
  by (induction s) auto

lemma rfind_char_append: "x \<notin> set r \<Longrightarrow> rfind_char x (s @ x # r) = Some (length s)"
  using find_char_append [of x "rev r" "rev s"] by (simp add: rfind_char_def)

lemma colon_to_string [simp]: "CHR '':'' \<notin> set (to_string n)"
  by (rule digits_no [OF to_string_digits]) (simp add: is_digit_def)


subsection \<open>Trimming\<close>

lemma TrimLeft_dropWhile: "TrimLeft s = dropWhile (\<lambda>c. c \<in> set blanks) s"
  unfolding TrimLeft_def by (induction s) (auto split: option.splits)

lemma TrimRight_rev: "TrimRight s = rev (TrimLeft (rev s))"
proof -
  have le: "find_first_not_of cs t = Some i \<Longrightarrow> i < length t" for cs t i
    by (induction t arbitrary: i) (auto split: if_splits)
  show ?thesis
  proof (cases "find_first_not_of blanks (rev s)")
    case (Some i)
    then have "Suc (length s - 1 - i) = length s - i" using le [of blanks "rev s" i] by auto
    then show ?thesis using Some by (simp add: TrimRight_def TrimLeft_def find_last_not_of_def rev_drop)
  qed (simp add: TrimRight_def TrimLeft_def find_last_not_of_def)
qed

text \<open>A string with no blank at either end is left alone, and blanks around it are dropped.\<close>

definition trimmed :: "string \<Rightarrow> bool" where
  "trimmed s \<longleftrightarrow> (s = [] \<or> hd s \<notin> set blanks \<and> last s \<notin> set blanks)"

lemma TrimLeft_blanks: "set p \<subseteq> set blanks \<Longrightarrow> TrimLeft (p @ s) = TrimLeft s"
  by (simp add: TrimLeft_dropWhile dropWhile_append2 subset_iff)

lemma TrimRight_blanks: "set q \<subseteq> set blanks \<Longrightarrow> TrimRight (s @ q) = TrimRight s"
  by (simp add: TrimRight_rev TrimLeft_blanks)

lemma TrimLeft_id: "s = [] \<or> hd s \<notin> set blanks \<Longrightarrow> TrimLeft s = s"
  by (cases s) (auto simp: TrimLeft_dropWhile)

lemma TrimRight_id: "s = [] \<or> last s \<notin> set blanks \<Longrightarrow> TrimRight s = s"
  by (simp add: TrimRight_rev TrimLeft_id hd_rev)

lemma Trim_trimmed [simp]: "trimmed s \<Longrightarrow> Trim s = s"
  by (auto simp: Trim_def trimmed_def TrimLeft_id TrimRight_id)

lemma Trim_append:
  assumes "set p \<subseteq> set blanks" and "set q \<subseteq> set blanks" and "trimmed s"
  shows "Trim (p @ s @ q) = s"
proof -
  have l: "last (p @ s) \<notin> set blanks" if "s \<noteq> []" using that assms(3) by (simp add: trimmed_def)
  have e: "TrimRight p = []" using TrimRight_blanks [of p "[]"] assms(1) by (simp add: TrimRight_id)
  show ?thesis
  proof (cases "s = []")
    case True
    then show ?thesis using assms(2) e TrimRight_blanks [of q p] by (simp add: Trim_def TrimLeft_id)
  next
    case False
    have "Trim (p @ s @ q) = TrimLeft (p @ s)"
      using TrimRight_blanks [OF assms(2), of "p @ s"] TrimRight_id [of "p @ s"] l False
      by (simp add: Trim_def)
    also have "\<dots> = s"
      using TrimLeft_blanks [OF assms(1)] TrimLeft_id [of s] assms(3) by (auto simp: trimmed_def)
    finally show ?thesis .
  qed
qed

lemma TrimLeft_last: "TrimLeft s \<noteq> [] \<Longrightarrow> last (TrimLeft s) = last s"
  unfolding TrimLeft_dropWhile by (induction s) (auto split: if_splits)

lemma TrimLeft_hd: "TrimLeft s \<noteq> [] \<Longrightarrow> hd (TrimLeft s) \<notin> set blanks"
  unfolding TrimLeft_dropWhile by (rule hd_dropWhile)

lemma trimmed_Trim [simp]: "trimmed (Trim s)"
proof -
  have "last (TrimRight s) \<notin> set blanks" if "TrimRight s \<noteq> []"
    using that TrimLeft_hd [of "rev s"] by (simp add: TrimRight_rev last_rev)
  then show ?thesis
    using TrimLeft_last [of "TrimRight s"] TrimLeft_hd [of "TrimRight s"]
    by (cases "TrimRight s = []") (auto simp: Trim_def trimmed_def TrimLeft_id)
qed

lemma newline_blank [simp]: "newline \<in> set blanks" "CHR '' '' \<in> set blanks"
  by (simp_all add: newline_def blanks_def)

subsection \<open>Searching\<close>

lemma is_prefix_append [simp]: "is_prefix p (p @ s)"
  by (induction p) simp_all

lemma is_prefix_iff: "is_prefix p s \<longleftrightarrow> (\<exists>r. s = p @ r)"
  by (induction p s rule: is_prefix.induct) auto

lemma find_str_None: "find_str p s = None \<longleftrightarrow> (\<nexists>a b. s = a @ p @ b)"
proof (induction s)
  case (Cons c s)
  have "(\<exists>a b. c # s = a @ p @ b) \<longleftrightarrow> is_prefix p (c # s) \<or> (\<exists>a b. s = a @ p @ b)"
    by (auto simp: is_prefix_iff Cons_eq_append_conv)
  then show ?case using Cons by auto
qed auto

lemma find_str_found: "find_str p (a @ p @ b) \<noteq> None"
  by (auto simp: find_str_None)

text \<open>The result is the first position at which \<open>p\<close> starts.\<close>

lemma find_str_Some:
  "find_str p s = Some i \<longleftrightarrow>
     i \<le> length s \<and> is_prefix p (drop i s) \<and> (\<forall>j<i. \<not> is_prefix p (drop j s))"
proof (induction s arbitrary: i)
  case Nil
  then show ?case by (cases p) auto
next
  case (Cons c s)
  show ?case
  proof (cases i)
    case 0
    then show ?thesis by auto
  next
    case (Suc k)
    have "(\<forall>j<Suc k. \<not> is_prefix p (drop j (c # s))) \<longleftrightarrow>
          \<not> is_prefix p (c # s) \<and> (\<forall>j<k. \<not> is_prefix p (drop j s))"
      by (simp add: less_Suc_eq_0_disj all_conj_distrib) (metis drop_Suc_Cons drop0)
    then show ?thesis using Suc Cons by auto
  qed
qed

lemma substr_simps [simp]:
  "pos \<le> length s \<Longrightarrow> substr s pos n = Some (take n (drop pos s))"
  by (simp add: substr_def)

subsection \<open>Rows of a file\<close>

lemma find_char_Some_take: "find_char x s = Some i \<Longrightarrow> x \<notin> set (take i s) \<and> i < length s \<and> s ! i = x"
proof (induction s arbitrary: i)
  case (Cons c s)
  then show ?case by (cases i) (auto split: if_splits)
qed simp

lemma file_rows_Nil [simp]: "file_rows [] = []"
  by (subst file_rows.simps) (simp add: fgets_def)

lemma file_rows_line:
  assumes "newline \<notin> set l" and "length l < 4095"
  shows "file_rows (l @ newline # r) = (l @ [newline]) # file_rows r"
  using assms by (subst file_rows.simps) (simp add: fgets_def find_char_append Let_def)

lemma c_str_id: "CHR 0x00 \<notin> set s \<Longrightarrow> c_str s = s"
  unfolding c_str_def by (rule takeWhile_eq_all_conv [THEN iffD2]) auto

end
