(* ===== verification/Sockets.thy ===== *)
theory Sockets
  imports CString
begin

text \<open>
  Network addresses as text (\<open>thirdpartlibs/evpp/evpp/sockets.h\<close>, \<open>sockets.cc\<close>). A
  \<open>sockaddr_storage\<close> is its 128 bytes, with the layout of Linux: family and port in the first
  four bytes, an IPv4 address behind them, an IPv6 address from byte 8 on. libevent's
  \<open>evutil_inet_pton\<close> and \<open>evutil_inet_ntop\<close> are parameters, functions between the text and the
  bytes of an address of a family. An outer \<open>None\<close> is a fault, here the last character of an
  empty string.
\<close>

section \<open>Addresses\<close>

definition AF_INET :: u16 where "AF_INET = 2"

definition AF_INET6 :: u16 where "AF_INET6 = 10"

type_synonym pton = "u16 \<Rightarrow> string \<Rightarrow> bytes option"
type_synonym ntop = "u16 \<Rightarrow> bytes \<Rightarrow> string option"

text \<open>The result \<open>None\<close> of the inner option is the return value \<open>false\<close>.\<close>

definition SplitHostPort :: "string \<Rightarrow> (string \<times> int) option option" where
  "SplitHostPort address =
     (if address = [] then Some None
      else case rfind_char (CHR '':'') address of
        None \<Rightarrow> Some None
      | Some i \<Rightarrow>
          if i = length address - 1 then Some None
          else
            (let port = atoi (drop (i + 1) address); host = take i address;
                 bracket = (host \<noteq> [] \<and> hd host = CHR ''['')
             in if bracket \<and> last host \<noteq> CHR '']'' then Some None
                else do {
                  let host = (if bracket then take (length host - 2) (drop 1 host) else host);
                  assert_that (host \<noteq> []);
                  Some (Some (if last host = CHR '']'' then butlast host else host, port)) }))"

definition ParseFromIPPort :: "pton \<Rightarrow> string \<Rightarrow> (bool \<times> bytes) option" where
  "ParseFromIPPort pton address = do {
     let ss = replicate 128 0;
     hp \<leftarrow> SplitHostPort address;
     (case hp of
        None \<Rightarrow> Some (False, ss)
      | Some (host, port) \<Rightarrow> do {
          let family = (if CHR '':'' \<in> set host then AF_INET6 else AF_INET);
          (case pton family host of
             None \<Rightarrow> Some (False, ss)
           | Some a \<Rightarrow> do {
               ss \<leftarrow> memwrite ss 4 a;
               ss \<leftarrow> memwrite ss 0 (mem16 family);
               ss \<leftarrow> memwrite ss 2 (mem16 (htons (word_of_int port)));
               Some (True, ss) }) }) }"

text \<open>The overload that returns the address, zeroed when the text is none.\<close>

definition ParseFromIPPort_value :: "pton \<Rightarrow> string \<Rightarrow> bytes option" where
  "ParseFromIPPort_value pton address = do {
     (rc, ss) \<leftarrow> ParseFromIPPort pton address;
     Some (if rc then ss else replicate 128 0) }"

definition IsZeroAddress :: "bytes \<Rightarrow> bool" where
  "IsZeroAddress ss \<longleftrightarrow> list_all (\<lambda>x. x = 0) ss"

definition ss_family :: "bytes \<Rightarrow> u16" where
  "ss_family ss = le_word (take 2 ss)"

definition ss_port :: "bytes \<Rightarrow> nat" where
  "ss_port ss = unat (htons (le_word (take 2 (drop 2 ss))))"

definition ToIPPort :: "ntop \<Rightarrow> bytes \<Rightarrow> string" where
  "ToIPPort ntop ss =
     (let add_port = (\<lambda>saddr. if saddr \<noteq> [] then saddr @ '':'' @ to_string (ss_port ss) else saddr)
      in if ss_family ss = AF_INET then
           add_port (case ntop AF_INET (take 4 (drop 4 ss)) of Some addr \<Rightarrow> addr | None \<Rightarrow> [])
         else if ss_family ss = AF_INET6 then
           add_port (case ntop AF_INET6 (take 16 (drop 8 ss)) of
                       Some addr \<Rightarrow> ''['' @ addr @ '']'' | None \<Rightarrow> [])
         else [])"

definition ToIP :: "ntop \<Rightarrow> bytes \<Rightarrow> string" where
  "ToIP ntop ss =
     (if ss_family ss = AF_INET then
        (case ntop AF_INET (take 4 (drop 4 ss)) of Some addr \<Rightarrow> addr | None \<Rightarrow> [])
      else if ss_family ss = AF_INET6 then
        (case ntop AF_INET6 (take 16 (drop 8 ss)) of Some addr \<Rightarrow> addr | None \<Rightarrow> [])
      else [])"

text \<open>\<open>SetTimeout\<close> splits milliseconds into the fields of a \<open>timeval\<close>.\<close>

definition SetTimeout_timeval :: "u32 \<Rightarrow> nat \<times> nat" where
  "SetTimeout_timeval ms = (unat (ms div 1000), unat (ms mod 1000 * 1000))"

section \<open>Lemmas\<close>

lemma SplitHostPort_plain:
  assumes "host \<noteq> []" and "hd host \<noteq> CHR ''[''" and "last host \<noteq> CHR '']''"
  shows "SplitHostPort (host @ '':'' @ to_string n) = Some (Some (host, int n))"
  using assms rfind_char_append [of "CHR '':''" "to_string n" host] by (simp add: SplitHostPort_def)

lemma SplitHostPort_bracket:
  assumes "host \<noteq> []" and "last host \<noteq> CHR '']''"
  shows "SplitHostPort (''['' @ host @ '']:'' @ to_string n) = Some (Some (host, int n))"
  using assms rfind_char_append [of "CHR '':''" "to_string n" "''['' @ host @ '']''"]
  by (simp add: SplitHostPort_def)

lemma ss_fields:
  "ss_family (mem16 f @ r) = f" "ss_port (mem16 f @ rev (mem16 q) @ r) = unat q"
  by (simp_all add: ss_family_def ss_port_def htons_def [symmetric])

lemma parse_writes:
  assumes "length a + 4 \<le> 128"
  shows "do { ss \<leftarrow> memwrite (replicate 128 0) 4 a; ss \<leftarrow> memwrite ss 0 (mem16 f);
              ss \<leftarrow> memwrite ss 2 (mem16 p); Some (True, ss) } =
         Some (True, mem16 f @ mem16 p @ a @ replicate (124 - length a) 0)"
  using assms by (simp add: memwrite_def)

text \<open>The layout of an IPv4 address.\<close>

definition v4_address :: "bytes \<Rightarrow> u16 \<Rightarrow> bytes" where
  "v4_address a p = mem16 AF_INET @ mem16 (htons p) @ a @ replicate 120 0"

section \<open>Properties\<close>

text \<open>
  IPv4 addresses survive the way through text: \<open>ToIPPort\<close> prints the dotted address, a
  colon and the port in decimal, and \<open>ParseFromIPPort\<close> reads exactly the same socket address
  back, whatever the port, provided that libevent's \<open>inet_pton\<close> inverts its \<open>inet_ntop\<close> on
  the address.
\<close>

theorem ToIPPort_roundtrip:
  assumes a: "length a = 4" and n: "ntop AF_INET a = Some s" and p: "pton AF_INET s = Some a"
    and s: "s \<noteq> []" "set s \<inter> {CHR '':'', CHR ''['', CHR '']''} = {}"
  shows "ToIPPort ntop (v4_address a p) = s @ '':'' @ to_string (unat p) \<and>
         ParseFromIPPort pton (ToIPPort ntop (v4_address a p)) = Some (True, v4_address a p)"
proof -
  have t: "ToIPPort ntop (v4_address a p) = s @ '':'' @ to_string (unat p)"
    using a n s(1) by (simp add: ToIPPort_def v4_address_def ss_fields)
  have e: "hd s \<in> set s" "last s \<in> set s" using s(1) by simp_all
  have "hd s \<noteq> CHR ''[''" "last s \<noteq> CHR '']''"
    using e s(2) by (metis disjoint_iff insertI1 insert_commute)+
  then have "SplitHostPort (s @ '':'' @ to_string (unat p)) = Some (Some (s, int (unat p)))"
    by (intro SplitHostPort_plain s(1))
  moreover have "CHR '':'' \<notin> set s" using s(2) by blast
  ultimately have "ParseFromIPPort pton (s @ '':'' @ to_string (unat p)) = Some (True, v4_address a p)"
    using p a parse_writes [of a AF_INET "htons p"] by (simp add: ParseFromIPPort_def v4_address_def)
  with t show ?thesis by simp
qed

theorem ToIPPort_roundtrip_witness:
  "ToIPPort (\<lambda>f a. Some ''10.0.0.7'') (v4_address [10, 0, 0, 7] 8080) = ''10.0.0.7'' @ '':'' @ to_string (unat (8080 :: u16)) \<and>
   ParseFromIPPort (\<lambda>f s. if s = ''10.0.0.7'' then Some [10, 0, 0, 7] else None)
     (ToIPPort (\<lambda>f a. Some ''10.0.0.7'') (v4_address [10, 0, 0, 7] 8080)) =
   Some (True, v4_address [10, 0, 0, 7] 8080)"
  by (rule ToIPPort_roundtrip) simp_all

text \<open>
  IPv6 addresses do not: \<open>ParseFromIPPort\<close> stores the 16 bytes of the address where the
  IPv4 address belongs, four bytes before \<open>sin6_addr\<close>, so that the field that \<open>ToIPPort\<close>, \<open>bind\<close>
  and \<open>connect\<close> read holds the address shifted by four bytes, and the flow label its first four.
\<close>

theorem ParseFromIPPort_v6_misplaced:
  assumes "length a = 16" and "pton AF_INET6 s = Some a"
    and "CHR '':'' \<in> set s" and "last s \<noteq> CHR '']''"
  shows "\<exists>ss. ParseFromIPPort pton (''['' @ s @ '']:'' @ to_string p) = Some (True, ss) \<and>
           ss_family ss = AF_INET6 \<and> take 16 (drop 8 ss) = drop 4 a @ [0, 0, 0, 0] \<and>
           take 4 (drop 4 ss) = take 4 a"
proof -
  let ?ss = "mem16 AF_INET6 @ mem16 (htons (word_of_int (int p))) @ a @ replicate 108 0"
  have "s \<noteq> []" using assms(3) by auto
  note SplitHostPort_bracket [OF this assms(4), of p]
  with assms(1-3) parse_writes [of a AF_INET6 "htons (word_of_int (int p))"]
  have "ParseFromIPPort pton (''['' @ s @ '']:'' @ to_string p) = Some (True, ?ss)"
    by (simp add: ParseFromIPPort_def)
  moreover have "take 16 (drop 8 ?ss) = drop 4 a @ [0, 0, 0, 0]" "take 4 (drop 4 ?ss) = take 4 a"
    using assms(1) by (simp_all add: numeral_eq_Suc)
  ultimately show ?thesis by (auto simp: ss_fields)
qed

theorem ParseFromIPPort_v6_misplaced_witness:
  "\<exists>ss. ParseFromIPPort (\<lambda>f s. Some (replicate 15 0 @ [1])) (''['' @ ''::1'' @ '']:'' @ to_string 80) = Some (True, ss) \<and>
     ss_family ss = AF_INET6 \<and> take 16 (drop 8 ss) = drop 4 (replicate 15 0 @ [1]) @ [0, 0, 0, 0] \<and>
     take 4 (drop 4 ss) = take 4 (replicate 15 0 @ [1])"
  by (rule ParseFromIPPort_v6_misplaced) simp_all

text \<open>
  An address with an empty host is not rejected: \<open>SplitHostPort\<close> reads the last character
  of the empty string, undefined behaviour, for \<open>":port"\<close> and for \<open>"[]:port"\<close>.
\<close>

theorem SplitHostPort_empty_host:
  "SplitHostPort ('':'' @ to_string p) = None \<and> SplitHostPort (''[]:'' @ to_string p) = None"
  using rfind_char_append [of "CHR '':''" "to_string p" "[]"]
    rfind_char_append [of "CHR '':''" "to_string p" "''[]''"]
  by (simp add: SplitHostPort_def)

end
