(* ===== verification/StdMap.thy ===== *)
theory StdMap
  imports Prelude
begin

text \<open>
  \<open>std::map\<close> as the sources use it: a finite map whose elements are kept in the order of their
  keys. The model is an association list sorted by key, so that \<open>size()\<close> and iteration from
  \<open>begin()\<close> to \<open>end()\<close> compute. The locale \<open>std_map\<close> states what the clients (the channel pool,
  the configuration file) rely on; the interpretation at the end discharges it.
\<close>

section \<open>Operations\<close>

type_synonym ('k, 'v) stdmap = "('k \<times> 'v) list"

definition map_ok :: "('k::linorder, 'v) stdmap \<Rightarrow> bool" where
  "map_ok m \<longleftrightarrow> sorted_wrt (<) (map fst m)"

definition map_find :: "('k, 'v) stdmap \<Rightarrow> 'k \<Rightarrow> 'v option" where
  "map_find = map_of"

text \<open>\<open>m[k] = v\<close>: overwrites the element of \<open>k\<close> or inserts one at its place.\<close>

fun map_set :: "('k::linorder, 'v) stdmap \<Rightarrow> 'k \<Rightarrow> 'v \<Rightarrow> ('k, 'v) stdmap" where
  "map_set [] k v = [(k, v)]"
| "map_set ((k', v') # m) k v =
     (if k < k' then (k, v) # (k', v') # m
      else if k = k' then (k, v) # m
      else (k', v') # map_set m k v)"

fun map_erase :: "('k, 'v) stdmap \<Rightarrow> 'k \<Rightarrow> ('k, 'v) stdmap" where
  "map_erase [] k = []"
| "map_erase ((k', v') # m) k = (if k = k' then m else (k', v') # map_erase m k)"

section \<open>Lemmas\<close>

lemma map_ok_Nil [simp]: "map_ok []"
  by (simp add: map_ok_def)

lemma map_ok_Cons: "map_ok ((k, v) # m) \<longleftrightarrow> (\<forall>x \<in> fst ` set m. k < x) \<and> map_ok m"
  by (auto simp: map_ok_def)

lemma map_ok_distinct: "map_ok m \<Longrightarrow> distinct (map fst m)"
  by (simp add: map_ok_def strict_sorted_iff)

lemma set_map_set: "fst ` set (map_set m k v) = insert k (fst ` set m)"
  by (induction m) (auto split: if_splits simp: rev_image_eqI)

lemma set_map_erase: "set (map_erase m k) \<subseteq> set m"
  by (induction m) (auto split: if_splits)

lemma map_ok_set [simp]: "map_ok m \<Longrightarrow> map_ok (map_set m k v)"
proof (induction m)
  case (Cons a m)
  obtain k' v' where a: "a = (k', v')" by force
  with Cons have ok: "\<forall>x \<in> fst ` set m. k' < x" "map_ok m" "map_ok (map_set m k v)"
    by (simp_all add: map_ok_Cons)
  consider "k < k'" | "k = k'" | "k' < k" by fastforce
  then show ?case using ok a
    by cases (auto simp: map_ok_Cons set_map_set intro: less_trans)
qed (simp add: map_ok_Cons)

lemma map_ok_erase [simp]: "map_ok m \<Longrightarrow> map_ok (map_erase m k)"
proof (induction m)
  case (Cons a m)
  then show ?case using set_map_erase [of m k] by (cases a) (auto simp: map_ok_Cons)
qed simp

lemma map_find_set [simp]: "map_find (map_set m k v) = (map_find m)(k \<mapsto> v)"
  unfolding map_find_def by (induction m) (auto simp: fun_eq_iff)

lemma map_find_erase [simp]: "map_ok m \<Longrightarrow> map_find (map_erase m k) = (map_find m)(k := None)"
  unfolding map_find_def
proof (induction m)
  case (Cons a m)
  obtain k' v' where a: "a = (k', v')" by force
  have "map_of m k' = None" if "map_ok ((k', v') # m)"
    using that by (auto simp: map_ok_Cons map_of_eq_None_iff)
  with Cons a show ?case by (auto simp: fun_eq_iff map_ok_Cons)
qed auto

lemma map_find_Nil [simp]: "map_find [] = Map.empty"
  by (simp add: map_find_def)

lemma length_map_dom: "map_ok m \<Longrightarrow> length m = card (dom (map_find m))"
  using distinct_card [OF map_ok_distinct, of m]
  by (simp add: map_find_def dom_map_of_conv_image_fst)

lemma finite_dom_map_find [simp]: "finite (dom (map_find m))"
  by (simp add: map_find_def finite_dom_map_of)

section \<open>The interface\<close>

locale std_map =
  fixes ok :: "'m \<Rightarrow> bool"
    and find :: "'m \<Rightarrow> 'k \<Rightarrow> 'v option"
    and set :: "'m \<Rightarrow> 'k \<Rightarrow> 'v \<Rightarrow> 'm"
    and erase :: "'m \<Rightarrow> 'k \<Rightarrow> 'm"
    and size :: "'m \<Rightarrow> nat"
  assumes ok_set: "ok m \<Longrightarrow> ok (set m k v)"
    and ok_erase: "ok m \<Longrightarrow> ok (erase m k)"
    and find_set: "ok m \<Longrightarrow> find (set m k v) = (find m)(k \<mapsto> v)"
    and find_erase: "ok m \<Longrightarrow> find (erase m k) = (find m)(k := None)"
    and size_dom: "ok m \<Longrightarrow> size m = card (dom (find m))"
    and finite_find: "ok m \<Longrightarrow> finite (dom (find m))"
begin

lemma size_set:
  "ok m \<Longrightarrow> size (set m k v) = (if find m k = None then Suc (size m) else size m)"
  by (auto simp: size_dom ok_set find_set finite_find insert_absorb domIff)

lemma size_erase:
  "ok m \<Longrightarrow> size (erase m k) = (if find m k = None then size m else size m - 1)"
  by (auto simp: size_dom ok_erase find_erase dom_fun_upd domIff)

lemma erase_set:
  assumes "ok m" and "find m k = None"
  shows "find (erase (set m k v) k) = find m"
  using assms by (simp add: find_erase find_set ok_set fun_upd_idem)

lemma set_all:
  assumes "ok m"
  shows "find (foldl (\<lambda>m (k, v). set m k v) m kvs) = find m ++ map_of (rev kvs)"
    and "ok (foldl (\<lambda>m (k, v). set m k v) m kvs)"
  using assms
  by (induction kvs arbitrary: m) (auto simp: ok_set find_set map_add_def fun_eq_iff
      split: option.splits)

end

interpretation sm: std_map map_ok map_find map_set map_erase length
  by unfold_locales (simp_all add: length_map_dom)

end
