(* ===== verification/TcpServer.thy ===== *)
theory TcpServer
  imports LoopPool TcpConn Sockets StdMap
begin

text \<open>
  \<open>evpp::Listener\<close> (\<open>thirdpartlibs/evpp/evpp/listener.h\<close>, \<open>listener.cc\<close>) and \<open>evpp::TCPServer\<close>
  (\<open>tcp_server.h\<close>, \<open>tcp_server.cc\<close>): accepting connections in the listening loop, handing them to
  the worker loops, and stopping.

  Connections are objects in a store, known by address; \<open>connections_\<close> maps identifiers to
  addresses. Functors queued in the listening loop are the list \<open>srv_tasks\<close>; \<open>srv_attach\<close> lists
  the connections whose \<open>OnAttachedToLoop\<close> is queued in their worker loop; what a connection has
  queued itself is in its \<open>conn_tasks\<close>. The environment \<open>E\<close> of an operation says whether it is
  called in the thread of its loop. Each functor and each event handler is one step. Where the
  listening loop waits for the workers, a schedule says what they do meanwhile (see \<open>LoopPool\<close>).
  The system calls of \<open>Listen\<close> and \<open>accept\<close> and the address functions of libevent are
  parameters. \<open>LOG_FATAL\<close> ends the program: \<open>None\<close>, like a failing assertion.
\<close>

section \<open>The listener\<close>

record listener =
  li_fd :: int
  li_addr :: string
  li_chan :: "fd_channel option"
  li_new_conn_fn :: bool

text \<open>What \<open>socket\<close>, \<open>bind\<close> and \<open>listen\<close> answer.\<close>

record listen_env =
  k_socket :: int
  k_bind :: "bytes \<Rightarrow> int"
  k_listen :: int

definition Listener_new :: "string \<Rightarrow> listener" where
  "Listener_new addr = \<lparr>li_fd = -1, li_addr = addr, li_chan = None, li_new_conn_fn = False\<rparr>"

definition Listener_Listen :: "pton \<Rightarrow> listen_env \<Rightarrow> listener \<Rightarrow> listener option" where
  "Listener_Listen pton K L = do {
     let L = L\<lparr>li_fd := k_socket K\<rparr>;
     assert_that (\<not> li_fd L < 0);
     ss \<leftarrow> ParseFromIPPort_value pton (li_addr L);
     assert_that (\<not> k_bind K ss < 0);
     assert_that (\<not> k_listen K < 0);
     Some L }"

text \<open>\<open>Accept\<close> up to the functor it hands to the loop.\<close>

definition Listener_Accept :: "listener \<Rightarrow> listener option" where
  "Listener_Accept L = do {
     ch \<leftarrow> FdChannel_new (li_fd L) True False;
     (case li_chan L of None \<Rightarrow> Some () | Some old \<Rightarrow> FdChannel_delete old);
     Some (L\<lparr>li_chan := Some (SetReadCallback ch)\<rparr>) }"

definition SetNewConnectionCallback :: "listener \<Rightarrow> listener" where
  "SetNewConnectionCallback L = L\<lparr>li_new_conn_fn := True\<rparr>"

definition listener_chan :: "(fd_channel \<Rightarrow> fd_channel option) \<Rightarrow> listener \<Rightarrow> listener option" where
  "listener_chan f L = do { ch \<leftarrow> li_chan L; ch \<leftarrow> f ch; Some (L\<lparr>li_chan := Some ch\<rparr>) }"

definition Listener_Stop :: "loop_env \<Rightarrow> listener \<Rightarrow> listener option" where
  "Listener_Stop E L = do {
     assert_that (inLoopThread E);
     L \<leftarrow> listener_chan (DisableAllEvent E) L;
     listener_chan FdChannel_Close L }"

text \<open>The destructor returns the descriptor it closes; its log statement reads the channel.\<close>

definition Listener_delete :: "listener \<Rightarrow> int option" where
  "Listener_delete L = do { ch \<leftarrow> li_chan L; FdChannel_delete ch; Some (li_fd L) }"

section \<open>The server\<close>

datatype dispatch_policy = kRoundRobin | kIPAddressHashing

datatype srv_task = AttachListener | StopTask bool | RemoveTask nat

record tcp_server =
  srv_listen_addr :: string
  srv_listener :: "listener option"
  srv_pool :: "loop_pool option"
  srv_stopped_cb :: bool
  srv_next_id :: u64
  srv_connections :: "(u64, nat) stdmap"
  srv_status :: server_status
  srv_substatus :: sub_status
  srv_policy :: dispatch_policy
  srv_loop_running :: bool
  srv_tasks :: "srv_task list"
  srv_attach :: "nat list"
  srv_conns :: "nat \<Rightarrow> tcp_conn option"
  srv_io :: "nat \<Rightarrow> nat option"
  srv_alloc :: nat
  srv_closed :: "int list"
  srv_done :: nat
  srv_log :: "(nat \<times> conn_status) list"

text \<open>\<open>running\<close> is \<open>loop_->IsRunning()\<close>.\<close>

definition TCPServer_new :: "bool \<Rightarrow> string \<Rightarrow> u32 \<Rightarrow> tcp_server" where
  "TCPServer_new running laddr thread_num =
     \<lparr>srv_listen_addr = laddr, srv_listener = None, srv_pool = Some (EventLoopThreadPool_new thread_num),
      srv_stopped_cb = False, srv_next_id = 0, srv_connections = [], srv_status = kNull,
      srv_substatus = kSubStatusNull, srv_policy = kRoundRobin, srv_loop_running = running,
      srv_tasks = [], srv_attach = [], srv_conns = (\<lambda>_. None), srv_io = (\<lambda>_. None), srv_alloc = 0,
      srv_closed = [], srv_done = 0, srv_log = []\<rparr>"

definition TCPServer_delete :: "tcp_server \<Rightarrow> unit option" where
  "TCPServer_delete S = do {
     assert_that (srv_connections S = []);
     assert_that (srv_listener S = None);
     (case srv_pool S of None \<Rightarrow> Some () | Some P \<Rightarrow> assert_that (lp_status P = kStopped)) }"

definition SetThreadDispatchPolicy :: "dispatch_policy \<Rightarrow> tcp_server \<Rightarrow> tcp_server" where
  "SetThreadDispatchPolicy v S = S\<lparr>srv_policy := v\<rparr>"

definition TCPServer_Init :: "pton \<Rightarrow> listen_env \<Rightarrow> tcp_server \<Rightarrow> (bool \<times> tcp_server) option" where
  "TCPServer_Init pton K S = do {
     assert_that (srv_status S = kNull);
     L \<leftarrow> Listener_Listen pton K (Listener_new (srv_listen_addr S));
     Some (True, S\<lparr>srv_listener := Some L, srv_status := kInitialized\<rparr>) }"

text \<open>\<open>RunInLoop\<close> of the listening loop: at once in its thread when it runs, queued otherwise.\<close>

definition srv_RunInLoop :: "loop_env \<Rightarrow> (tcp_server \<Rightarrow> tcp_server option) \<Rightarrow> srv_task \<Rightarrow> tcp_server \<Rightarrow>
    tcp_server option" where
  "srv_RunInLoop E now later S =
     (if srv_loop_running S \<and> inLoopThread E then now S
      else Some (S\<lparr>srv_tasks := srv_tasks S @ [later]\<rparr>))"

definition attach_listener :: "loop_env \<Rightarrow> tcp_server \<Rightarrow> tcp_server option" where
  "attach_listener E S = do {
     L \<leftarrow> srv_listener S;
     L \<leftarrow> listener_chan (AttachToLoop E) L;
     Some (S\<lparr>srv_listener := Some L\<rparr>) }"

definition TCPServer_Start :: "loop_env \<Rightarrow> nat list \<Rightarrow> tcp_server \<Rightarrow> (bool \<times> tcp_server) option" where
  "TCPServer_Start E sched S = do {
     assert_that (srv_status S = kInitialized);
     let S = S\<lparr>srv_status := kStarting\<rparr>;
     L \<leftarrow> srv_listener S;
     P \<leftarrow> srv_pool S;
     (rc, sched, P) \<leftarrow> Pool_Start True sched P;
     let S = S\<lparr>srv_pool := Some P\<rparr>;
     if rc then do {
       assert_that (lp_status P = kRunning);
       let S = S\<lparr>srv_status := kRunning\<rparr>;
       L \<leftarrow> Listener_Accept (SetNewConnectionCallback L);
       S \<leftarrow> srv_RunInLoop E (attach_listener E) AttachListener (S\<lparr>srv_listener := Some L\<rparr>);
       Some (rc, S) }
     else Some (rc, S) }"

definition TCPServer_GetNextLoop :: "u32 \<Rightarrow> tcp_server \<Rightarrow> (nat option \<times> tcp_server) option" where
  "TCPServer_GetNextLoop s_addr S = do {
     P \<leftarrow> srv_pool S;
     (if srv_policy S = kRoundRobin then
        (let (l, P) = Pool_GetNextLoop P in Some (l, S\<lparr>srv_pool := Some P\<rparr>))
      else Some (Pool_GetNextLoopWithHash (ucast s_addr) P, S)) }"

text \<open>The callbacks a connection makes to the user are logged.\<close>

definition log_callbacks :: "nat \<Rightarrow> conn_event list \<Rightarrow> tcp_server \<Rightarrow> tcp_server" where
  "log_callbacks a evs S =
     S\<lparr>srv_log := srv_log S @ concat (map (\<lambda>ev. case ev of ConnCallback st \<Rightarrow> [(a, st)] | CloseCallback \<Rightarrow> []) evs)\<rparr>"

definition TCPServer_HandleNewConn :: "loop_env \<Rightarrow> int \<Rightarrow> string \<Rightarrow> u32 \<Rightarrow> tcp_server \<Rightarrow> tcp_server option" where
  "TCPServer_HandleNewConn E sockfd peer s_addr S = do {
     assert_that (inLoopThread E);
     if srv_status S = kStopping then Some (S\<lparr>srv_closed := srv_closed S @ [sockfd]\<rparr>)
     else do {
       assert_that (srv_status S = kRunning);
       (io_loop, S) \<leftarrow> TCPServer_GetNextLoop s_addr S;
       let S = S\<lparr>srv_next_id := srv_next_id S + 1\<rparr>;
       c \<leftarrow> TCPConn_new peer sockfd (srv_listen_addr S) peer (srv_next_id S);
       assert_that (type_of_conn c = kIncoming);
       let c = c\<lparr>conn_fn := True, close_fn := True\<rparr>;
       let a = srv_alloc S;
       let S = S\<lparr>srv_alloc := Suc a, srv_io := (srv_io S)(a := io_loop)\<rparr>;
       S \<leftarrow>
         (if io_loop = None \<and> srv_loop_running S then do {
            c \<leftarrow> OnAttachedToLoop E c;
            Some (log_callbacks a (conn_log c) (S\<lparr>srv_conns := (srv_conns S)(a \<mapsto> c)\<rparr>)) }
          else Some (S\<lparr>srv_conns := (srv_conns S)(a \<mapsto> c), srv_attach := srv_attach S @ [a]\<rparr>));
       Some (S\<lparr>srv_connections := map_set (srv_connections S) (srv_next_id S) a\<rparr>) } }"

text \<open>
  \<open>accept\<close> answers an error or the new descriptor, the peer's address and whether the descriptor
  could be made non-blocking. \<open>sin_addr\<close> are the bytes 4 to 7 of the address.
\<close>

definition Listener_HandleAccept :: "loop_env \<Rightarrow> ntop \<Rightarrow> int + int \<times> bytes \<times> bool \<Rightarrow> tcp_server \<Rightarrow>
    tcp_server option" where
  "Listener_HandleAccept E ntop r S = do {
     assert_that (inLoopThread E);
     L \<leftarrow> srv_listener S;
     (case r of
        Inl serrno \<Rightarrow> Some S
      | Inr (nfd, ss, nonblocking) \<Rightarrow>
          if \<not> nonblocking then Some (S\<lparr>srv_closed := srv_closed S @ [nfd]\<rparr>)
          else let raddr = ToIPPort ntop ss
               in if raddr = [] then Some (S\<lparr>srv_closed := srv_closed S @ [nfd]\<rparr>)
                  else if li_new_conn_fn L
                  then TCPServer_HandleNewConn E nfd raddr (le_word (take 4 (drop 4 ss))) S
                  else Some S) }"

definition StopThreadPool :: "loop_env \<Rightarrow> nat list \<Rightarrow> tcp_server \<Rightarrow> tcp_server option" where
  "StopThreadPool E sched S = do {
     assert_that (inLoopThread E);
     assert_that (srv_status S = kStopping);
     let S = S\<lparr>srv_substatus := kStoppingThreadPool\<rparr>;
     P \<leftarrow> srv_pool S;
     (sched, P) \<leftarrow> Pool_Stop True False sched P;
     assert_that (lp_status P = kStopped);
     (sched, P) \<leftarrow> Pool_Join sched P;
     Some (S\<lparr>srv_pool := None, srv_substatus := kSubStatusNull\<rparr>) }"

definition close_connection :: "tcp_server \<Rightarrow> nat \<Rightarrow> tcp_server option" where
  "close_connection S a = do {
     c \<leftarrow> srv_conns S a;
     Some (if conn_IsConnected c then S\<lparr>srv_conns := (srv_conns S)(a \<mapsto> TCPConn_Close c)\<rparr> else S) }"

definition TCPServer_StopInLoop :: "loop_env \<Rightarrow> nat list \<Rightarrow> bool \<Rightarrow> tcp_server \<Rightarrow> tcp_server option" where
  "TCPServer_StopInLoop E sched on_stopped_cb S = do {
     assert_that (inLoopThread E);
     L \<leftarrow> srv_listener S;
     L \<leftarrow> Listener_Stop E L;
     fd \<leftarrow> Listener_delete L;
     let S = S\<lparr>srv_listener := None, srv_closed := srv_closed S @ [fd]\<rparr>;
     if srv_connections S = [] then do {
       S \<leftarrow> StopThreadPool E sched S;
       Some (S\<lparr>srv_done := srv_done S + (if on_stopped_cb then 1 else 0), srv_status := kStopped\<rparr>) }
     else do {
       S \<leftarrow> foldM close_connection S (map snd (srv_connections S));
       Some (S\<lparr>srv_stopped_cb := on_stopped_cb\<rparr>) } }"

definition TCPServer_Stop :: "loop_env \<Rightarrow> nat list \<Rightarrow> bool \<Rightarrow> tcp_server \<Rightarrow> tcp_server option" where
  "TCPServer_Stop E sched on_stopped_cb S = do {
     assert_that (srv_status S = kRunning);
     srv_RunInLoop E (TCPServer_StopInLoop E sched on_stopped_cb) (StopTask on_stopped_cb)
       (S\<lparr>srv_status := kStopping, srv_substatus := kStoppingListener\<rparr>) }"

text \<open>The functor of \<open>RemoveConnection\<close>.\<close>

definition remove_in_loop :: "loop_env \<Rightarrow> nat list \<Rightarrow> nat \<Rightarrow> tcp_server \<Rightarrow> tcp_server option" where
  "remove_in_loop E sched a S = do {
     assert_that (inLoopThread E);
     c \<leftarrow> srv_conns S a;
     let S = S\<lparr>srv_connections := map_erase (srv_connections S) (conn_id c)\<rparr>;
     if srv_status S = kStopping \<and> srv_connections S = [] then do {
       assert_that (srv_substatus S = kStoppingListener);
       S \<leftarrow> StopThreadPool E sched S;
       Some (S\<lparr>srv_done := srv_done S + (if srv_stopped_cb S then 1 else 0), srv_stopped_cb := False,
              srv_status := kStopped\<rparr>) }
     else Some S }"

text \<open>
  The close callback is called in the loop of the connection, which is the listening loop when
  the pool has no threads.
\<close>

definition TCPServer_RemoveConnection :: "loop_env \<Rightarrow> nat list \<Rightarrow> nat \<Rightarrow> tcp_server \<Rightarrow> tcp_server option" where
  "TCPServer_RemoveConnection E sched a S =
     srv_RunInLoop (E\<lparr>inLoopThread := (inLoopThread E \<and> srv_io S a = None)\<rparr>) (remove_in_loop E sched a) (RemoveTask a) S"

section \<open>Steps\<close>

text \<open>An operation of connection \<open>a\<close> in its loop, and the callbacks it makes.\<close>

definition srv_event :: "loop_env \<Rightarrow> nat list \<Rightarrow> nat \<Rightarrow> tcp_server \<Rightarrow> conn_event \<Rightarrow> tcp_server option" where
  "srv_event E sched a S ev =
     (case ev of ConnCallback st \<Rightarrow> Some (log_callbacks a [ev] S)
      | CloseCallback \<Rightarrow> TCPServer_RemoveConnection E sched a S)"

definition on_server_conn :: "loop_env \<Rightarrow> nat list \<Rightarrow> (tcp_conn \<Rightarrow> tcp_conn option) \<Rightarrow> nat \<Rightarrow> tcp_server \<Rightarrow>
    tcp_server option" where
  "on_server_conn E sched f a S = do {
     c \<leftarrow> srv_conns S a;
     c' \<leftarrow> f c;
     foldM (srv_event E sched a) (S\<lparr>srv_conns := (srv_conns S)(a \<mapsto> c')\<rparr>)
       (drop (length (conn_log c)) (conn_log c')) }"

text \<open>The listening loop runs its oldest functor.\<close>

definition srv_run_task :: "loop_env \<Rightarrow> nat list \<Rightarrow> tcp_server \<Rightarrow> tcp_server option" where
  "srv_run_task E sched S =
     (case srv_tasks S of
        [] \<Rightarrow> Some S
      | t # ts \<Rightarrow>
          (let S = S\<lparr>srv_tasks := ts\<rparr>
           in case t of
                AttachListener \<Rightarrow> attach_listener E S
              | StopTask cb \<Rightarrow> TCPServer_StopInLoop E sched cb S
              | RemoveTask a \<Rightarrow> remove_in_loop E sched a S))"

text \<open>A worker loop runs the functor that attaches connection \<open>a\<close>.\<close>

definition srv_run_attach :: "loop_env \<Rightarrow> nat list \<Rightarrow> nat \<Rightarrow> tcp_server \<Rightarrow> tcp_server option" where
  "srv_run_attach E sched a S =
     on_server_conn E sched (OnAttachedToLoop E) a (S\<lparr>srv_attach := remove1 a (srv_attach S)\<rparr>)"


text \<open>The steps of a server that has been started, and when they can happen. The listening loop
  reports only an attached listener and runs its functors once it runs; the kernel's descriptors
  are positive; a closed connection has no further steps. The last condition of a functor or a
  connection excludes the race shown below.\<close>

datatype srv_op =
  SrvLoop | SrvTask | SrvAccept "int + int \<times> bytes \<times> bool" | SrvAttach nat | SrvConn nat conn_op | SrvStop bool

fun srv_do :: "loop_env \<Rightarrow> ksend \<Rightarrow> ntop \<Rightarrow> bool \<Rightarrow> nat list \<Rightarrow> srv_op \<Rightarrow> tcp_server \<Rightarrow> tcp_server option" where
  "srv_do E K ntop cb sched SrvLoop S = Some (S\<lparr>srv_loop_running := True\<rparr>)"
| "srv_do E K ntop cb sched SrvTask S = srv_run_task E sched S"
| "srv_do E K ntop cb sched (SrvAccept r) S = Listener_HandleAccept E ntop r S"
| "srv_do E K ntop cb sched (SrvAttach a) S = srv_run_attach E sched a S"
| "srv_do E K ntop cb sched (SrvConn a op) S = on_server_conn E sched (conn_do E K op) a S"
| "srv_do E K ntop cb sched (SrvStop inloop) S = TCPServer_Stop (E\<lparr>inLoopThread := inloop\<rparr>) sched cb S"

text \<open>Removing the last connection while \<open>StopInLoop\<close> is still queued.\<close>

definition stop_race :: "tcp_server \<Rightarrow> bool" where
  "stop_race S \<longleftrightarrow> srv_status S = kStopping \<and> srv_listener S \<noteq> None \<and> length (srv_connections S) \<le> 1"

fun srv_enabled :: "srv_op \<Rightarrow> tcp_server \<Rightarrow> bool" where
  "srv_enabled SrvLoop S \<longleftrightarrow> True"
| "srv_enabled SrvTask S \<longleftrightarrow> srv_loop_running S \<and>
     (case srv_tasks S of RemoveTask a # ts \<Rightarrow> \<not> stop_race S | _ \<Rightarrow> True)"
| "srv_enabled (SrvAccept r) S \<longleftrightarrow> srv_loop_running S \<and> Suc (Suc (srv_alloc S)) < 2 ^ 64 \<and>
     (case srv_listener S of Some L \<Rightarrow> (case li_chan L of Some ch \<Rightarrow> attached ch | None \<Rightarrow> False) | None \<Rightarrow> False) \<and>
     (case r of Inr (nfd, ss, b) \<Rightarrow> nfd > 0 | Inl e \<Rightarrow> True)"
| "srv_enabled (SrvAttach a) S \<longleftrightarrow> a \<in> set (srv_attach S)"
| "srv_enabled (SrvConn a op) S \<longleftrightarrow> a \<notin> set (srv_attach S) \<and>
     (case srv_conns S a of Some c \<Rightarrow> status c \<noteq> kDisconnected \<and> conn_enabled op c | None \<Rightarrow> False) \<and>
     (srv_io S a = None \<longrightarrow> srv_loop_running S \<and> \<not> stop_race S)"
| "srv_enabled (SrvStop inloop) S \<longleftrightarrow> srv_status S = kRunning \<and> (inloop \<longrightarrow> srv_loop_running S \<and> AttachListener \<notin> set (srv_tasks S))"

text \<open>A schedule in which every worker makes the two steps that end it.\<close>

definition sched_ok :: "nat list \<Rightarrow> tcp_server \<Rightarrow> bool" where
  "sched_ok sched S \<longleftrightarrow>
     (case srv_pool S of None \<Rightarrow> True | Some P \<Rightarrow> \<forall>i<unat (lp_thread_num P). 2 \<le> count_list sched i)"

section \<open>Lemmas\<close>

subsection \<open>The identifier of a connection\<close>

text \<open>No operation changes the identifier.\<close>

lemma on_chan_id: "on_chan f c = Some c' \<Longrightarrow> conn_id c' = conn_id c"
  by (auto simp: on_chan_def split: bind_splits)

lemma queue_id [simp]: "conn_id (queue_task t c) = conn_id c" "conn_id (callback e c) = conn_id c"
  by (simp_all add: queue_task_def callback_def)

lemma HandleClose_id: "HandleClose E c = Some c' \<Longrightarrow> conn_id c' = conn_id c"
  by (auto simp: HandleClose_def Let_def assert_that_def dest!: on_chan_id split: if_splits bind_splits)

lemma HandleError_id: "HandleError E c = Some c' \<Longrightarrow> conn_id c' = conn_id c"
  using HandleClose_id [of E "c\<lparr>status := kDisconnecting\<rparr>" c'] by (simp add: HandleError_def)

lemma DelayClose_id: "DelayClose E c = Some c' \<Longrightarrow> conn_id c' = conn_id c"
  using HandleClose_id [of E "c\<lparr>status := kDisconnecting, delay_close_timer := False\<rparr>" c']
  by (simp add: DelayClose_def split: bind_splits)

lemma kernel_send_id: "kernel_send K c d = (r, c') \<Longrightarrow> conn_id c' = conn_id c"
  by (auto simp: kernel_send_def Let_def split: sum.splits)

lemma try_write_id: "try_write K c d = Some (n, m, e, c') \<Longrightarrow> conn_id c' = conn_id c"
  by (auto simp: try_write_def Let_def dest!: kernel_send_id split: bind_splits if_splits sum.splits prod.splits)

lemma keep_remaining_id: "keep_remaining E c d = Some c' \<Longrightarrow> conn_id c' = conn_id c"
  by (auto simp: keep_remaining_def Let_def dest!: on_chan_id split: bind_splits if_splits)

lemma SendInLoop_id: "SendInLoop E K c d = Some c' \<Longrightarrow> conn_id c' = conn_id c"
  by (auto simp: SendInLoop_def dest!: keep_remaining_id HandleError_id try_write_id split: bind_splits if_splits)

lemma Send_id:
  "Send_slice E K c d = Some c' \<Longrightarrow> conn_id c' = conn_id c"
  "Send_buffer E K c b = Some (c', b') \<Longrightarrow> conn_id c' = conn_id c"
  by (auto simp: Send_slice_def Send_buffer_def dest!: SendInLoop_id split: bind_splits if_splits)

lemma HandleRead_id: "HandleRead E Some c r = Some c' \<Longrightarrow> conn_id c' = conn_id c"
  by (auto simp: HandleRead_def Let_def dest!: on_chan_id HandleClose_id DelayClose_id HandleError_id
      split: bind_splits if_splits option.splits)

lemma HandleWrite_id: "HandleWrite E K e c = Some c' \<Longrightarrow> conn_id c' = conn_id c"
  by (auto simp: HandleWrite_def Let_def dest!: on_chan_id HandleError_id kernel_send_id
      split: bind_splits if_splits sum.splits prod.splits)

lemma run_task_id: "run_task E K c = Some c' \<Longrightarrow> conn_id c' = conn_id c"
  by (auto simp: SendStringInLoop_def Let_def dest!: HandleClose_id SendInLoop_id
      split: list.splits conn_task.splits bind_splits)

lemma conn_do_id: "conn_do E K op c = Some c' \<Longrightarrow> conn_id c' = conn_id c"
  by (cases op) (auto simp: TCPConn_Close_def simp del: run_task.simps
      dest!: Send_id HandleRead_id HandleWrite_id DelayClose_id run_task_id split: bind_splits)

lemma OnAttachedToLoop_id: "OnAttachedToLoop E c = Some c' \<Longrightarrow> conn_id c' = conn_id c"
  by (auto simp: OnAttachedToLoop_def Let_def dest!: on_chan_id split: bind_splits if_splits)


subsection \<open>The invariant\<close>

definition conn_closed :: "tcp_conn \<Rightarrow> bool" where
  "conn_closed c \<longleftrightarrow> CloseCallback \<in> set (conn_log c)"

definition registered :: "tcp_server \<Rightarrow> nat \<Rightarrow> bool" where
  "registered S a \<longleftrightarrow> a \<in> snd ` set (srv_connections S)"

text \<open>A connection that waits for its loop to attach it: attaching it makes it connected.\<close>

definition waiting_conn :: "loop_env \<Rightarrow> tcp_conn \<Rightarrow> bool" where
  "waiting_conn E c \<longleftrightarrow> conn_log c = [] \<and> status c = kDisconnected \<and>
     wp (OnAttachedToLoop E c) (\<lambda>c'. conn_inv c' [] \<and> status c' = kConnected \<and> close_fn c' \<and> conn_fn c' \<and>
        conn_log c' = [ConnCallback kConnected] \<and> conn_tasks c' = conn_tasks c)"

definition conn_kept :: "loop_env \<Rightarrow> tcp_server \<Rightarrow> nat \<Rightarrow> tcp_conn \<Rightarrow> bool" where
  "conn_kept E S a c \<longleftrightarrow> conn_id c = of_nat (Suc a) \<and> close_fn c \<and> conn_fn c \<and>
     (if a \<in> set (srv_attach S) then waiting_conn E c else \<exists>sent. conn_inv c sent)"

definition pool_running :: "loop_pool \<Rightarrow> bool" where
  "pool_running P \<longleftrightarrow> started (unat (lp_thread_num P)) P = P \<and> \<not> lp_stopped_cb P \<and> lp_done P = 0"

text \<open>The connections: every object is registered until its close callback has been handled;
  addresses in \<open>X\<close> are just being handled.\<close>

definition conns_inv :: "loop_env \<Rightarrow> nat set \<Rightarrow> tcp_server \<Rightarrow> bool" where
  "conns_inv E X S \<longleftrightarrow> map_ok (srv_connections S) \<and> srv_next_id S = of_nat (srv_alloc S) \<and>
     Suc (srv_alloc S) < 2 ^ 64 \<and> distinct (srv_attach S) \<and> set (srv_attach S) \<subseteq> {..<srv_alloc S} \<and>
     (\<forall>(i, a) \<in> set (srv_connections S). a < srv_alloc S \<and> i = of_nat (Suc a)) \<and>
     (\<forall>a. srv_conns S a = None \<longleftrightarrow> srv_alloc S \<le> a) \<and>
     (\<forall>a. RemoveTask a \<in> set (srv_tasks S) \<longrightarrow> a < srv_alloc S) \<and>
     (\<forall>a c. srv_conns S a = Some c \<longrightarrow> conn_kept E S a c \<and>
        (\<not> conn_closed c \<longrightarrow> registered S a) \<and>
        count_list (srv_tasks S) (RemoveTask a) = (if registered S a \<and> conn_closed c \<and> a \<notin> X then 1 else 0))"

text \<open>The listener, registered with the loop or about to be.\<close>

definition listener_inv :: "srv_task list \<Rightarrow> listener \<Rightarrow> bool" where
  "listener_inv ts L \<longleftrightarrow> (\<exists>ch. li_chan L = Some ch \<and> event_present ch \<and> events ch = kReadable \<and>
     (if AttachListener \<in> set ts then ts = AttachListener # tl ts \<and> AttachListener \<notin> set (tl ts) \<and> \<not> attached ch
      else attached ch))"

definition phase_inv :: "bool \<Rightarrow> tcp_server \<Rightarrow> bool" where
  "phase_inv cb S \<longleftrightarrow>
     (case srv_status S of
        kRunning \<Rightarrow> (\<exists>L P. srv_listener S = Some L \<and> listener_inv (srv_tasks S) L \<and>
          srv_pool S = Some P \<and> pool_running P) \<and> StopTask cb \<notin> set (srv_tasks S) \<and>
          StopTask (\<not> cb) \<notin> set (srv_tasks S) \<and> srv_done S = 0 \<and> \<not> srv_stopped_cb S
      | kStopping \<Rightarrow> (\<exists>P. srv_pool S = Some P \<and> pool_running P) \<and> srv_substatus S = kStoppingListener \<and>
          srv_done S = 0 \<and> StopTask (\<not> cb) \<notin> set (srv_tasks S) \<and>
          (case srv_listener S of
             Some L \<Rightarrow> listener_inv (srv_tasks S) L \<and> count_list (srv_tasks S) (StopTask cb) = 1
           | None \<Rightarrow> AttachListener \<notin> set (srv_tasks S) \<and> StopTask cb \<notin> set (srv_tasks S) \<and>
               srv_connections S \<noteq> [] \<and> srv_stopped_cb S = cb)
      | kStopped \<Rightarrow> srv_listener S = None \<and> srv_pool S = None \<and> srv_connections S = [] \<and>
          AttachListener \<notin> set (srv_tasks S) \<and> StopTask cb \<notin> set (srv_tasks S) \<and>
          StopTask (\<not> cb) \<notin> set (srv_tasks S) \<and> srv_done S = (if cb then 1 else 0)
      | _ \<Rightarrow> False)"

definition srv_inv :: "loop_env \<Rightarrow> bool \<Rightarrow> tcp_server \<Rightarrow> bool" where
  "srv_inv E cb S \<longleftrightarrow> conns_inv E {} S \<and> phase_inv cb S"

subsection \<open>Stopping the pool\<close>

lemma wp_StopThreadPool:
  assumes "inLoopThread E" and "srv_status S = kStopping" and "srv_pool S = Some P" and "pool_running P"
    and "sched_ok sched S"
  shows "StopThreadPool E sched S = Some (S\<lparr>srv_pool := None, srv_substatus := kSubStatusNull\<rparr>)"
proof -
  let ?n = "unat (lp_thread_num P)"
  have e: "started ?n P = P" using assms(4) by (simp add: pool_running_def)
  have c: "\<forall>i<?n. 2 \<le> count_list sched i" using assms(3,5) by (simp add: sched_ok_def)
  have "\<exists>rest Q R. Pool_Stop True False sched P = Some (rest, Q) \<and> lp_status Q = kStopped \<and>
      Pool_Join rest Q = Some (rest, R)"
  proof (cases "lp_thread_num P = 0")
    case True
    have "lp_created P = []" "lp_pushed P = 0"
      using arg_cong [OF e, of lp_created] arg_cong [OF e, of lp_pushed] True by (simp_all add: started_def)
    then show ?thesis using True by (simp add: Pool_Stop_def Pool_Join_def lp_threads_def)
  next
    case False
    then have "0 < ?n" by (simp add: unat_gt_0)
    from Pool_Stop_ok [OF refl this c, of False] e obtain rest qs where q:
      "Pool_Stop True False sched P = Some (rest, stopping qs False P)" "length qs = ?n" "list_all (\<lambda>p. 2 \<le> p) qs"
      by auto
    let ?Q = "stopping qs False P"
    have "filter (\<lambda>p. 2 \<le> p) qs = qs" using q(3) by (simp add: list_all_iff)
    then have Q: "lp_status ?Q = kStopped" "lp_created ?Q = map stopping_thread qs" "lp_pushed ?Q = length qs"
      using q(2) by (simp_all add: stopping_def Let_def)
    then have "Pool_Join rest ?Q = Some (rest, ?Q\<lparr>lp_created := [], lp_pushed := 0\<rparr>)"
      using q(3) by (intro Pool_Join_ok) (auto simp: list_all_iff)
    with q(1) Q(1) show ?thesis by blast
  qed
  with assms(1-3) show ?thesis by (auto simp: StopThreadPool_def)
qed

subsection \<open>Removing a connection\<close>

lemma set_map_erase_eq: "map_ok m \<Longrightarrow> set (map_erase m k) = {p \<in> set m. fst p \<noteq> k}"
proof (induction m)
  case (Cons p m)
  then show ?case by (cases p) (force simp: map_ok_Cons)
qed simp

lemma conns_inv_other [simp]:
  "conns_inv E X (S\<lparr>srv_listener := l\<rparr>) = conns_inv E X S"
  "conns_inv E X (S\<lparr>srv_pool := p\<rparr>) = conns_inv E X S"
  "conns_inv E X (S\<lparr>srv_stopped_cb := b\<rparr>) = conns_inv E X S"
  "conns_inv E X (S\<lparr>srv_status := st\<rparr>) = conns_inv E X S"
  "conns_inv E X (S\<lparr>srv_substatus := ss\<rparr>) = conns_inv E X S"
  "conns_inv E X (S\<lparr>srv_loop_running := b\<rparr>) = conns_inv E X S"
  "conns_inv E X (S\<lparr>srv_closed := f\<rparr>) = conns_inv E X S"
  "conns_inv E X (S\<lparr>srv_done := n\<rparr>) = conns_inv E X S"
  "conns_inv E X (S\<lparr>srv_log := g\<rparr>) = conns_inv E X S"
  by (simp_all add: conns_inv_def conn_kept_def registered_def)

lemma conns_invD:
  assumes "conns_inv E X S" and "srv_conns S a = Some c"
  shows "a < srv_alloc S" "conn_kept E S a c" "\<not> conn_closed c \<Longrightarrow> registered S a"
    "count_list (srv_tasks S) (RemoveTask a) = (if registered S a \<and> conn_closed c \<and> a \<notin> X then 1 else 0)"
proof -
  have "\<forall>a. srv_conns S a = None \<longleftrightarrow> srv_alloc S \<le> a" using assms(1) by (simp add: conns_inv_def)
  then show "a < srv_alloc S" using assms(2) by (metis not_le option.distinct(1))
  show "conn_kept E S a c" "\<not> conn_closed c \<Longrightarrow> registered S a"
    "count_list (srv_tasks S) (RemoveTask a) = (if registered S a \<and> conn_closed c \<and> a \<notin> X then 1 else 0)"
    using assms unfolding conns_inv_def by blast+
qed

lemma erase_registered:
  assumes "conns_inv E X S" and "a < srv_alloc S"
  shows "snd ` set (map_erase (srv_connections S) (of_nat (Suc a))) = snd ` set (srv_connections S) - {a}"
    and "set (map_erase (srv_connections S) (of_nat (Suc a))) \<subseteq> set (srv_connections S)"
proof -
  let ?m = "srv_connections S" and ?k = "of_nat (Suc a) :: u64"
  have ok: "map_ok ?m" and lim: "Suc (srv_alloc S) < 2 ^ 64"
    and ids: "\<forall>(i, b) \<in> set ?m. b < srv_alloc S \<and> i = of_nat (Suc b)"
    using assms(1) by (simp_all add: conns_inv_def)
  show sub: "set (map_erase ?m ?k) \<subseteq> set ?m" by (rule set_map_erase)
  have inj: "a = b" if "(?k :: u64) = of_nat (Suc b)" "b < srv_alloc S" for b
  proof -
    have "unat (of_nat (Suc b) :: u64) = Suc b" "unat ?k = Suc a"
      using that(2) assms(2) lim by (simp_all only: unat_of_nat take_bit_nat_eq_self_iff) auto
    with that(1) show ?thesis by (metis Suc_inject)
  qed
  have e: "set (map_erase ?m ?k) = {p \<in> set ?m. fst p \<noteq> ?k}" by (rule set_map_erase_eq [OF ok])
  show "snd ` set (map_erase ?m ?k) = snd ` set ?m - {a}"
  proof -
    have "fst p \<noteq> ?k \<longleftrightarrow> snd p \<noteq> a" if "p \<in> set ?m" for p
    proof -
      have "snd p < srv_alloc S" "fst p = of_nat (Suc (snd p))"
        using bspec [OF ids that] by (simp_all only: case_prod_beta)
      with inj show ?thesis by metis
    qed
    then have "{p \<in> set ?m. fst p \<noteq> ?k} = {p \<in> set ?m. snd p \<noteq> a}" by blast
    then show ?thesis unfolding e by auto
  qed
qed


lemma conns_inv_remove:
  assumes i: "conns_inv E {a} S" and a: "srv_conns S a = Some c" "conn_closed c"
  shows "conns_inv E {} (S\<lparr>srv_connections := map_erase (srv_connections S) (conn_id c)\<rparr>)"
    (is "conns_inv E {} ?S")
proof -
  have al: "a < srv_alloc S" and id: "conn_id c = of_nat (Suc a)"
    using conns_invD [OF i a(1)] by (simp_all add: conn_kept_def)
  note e = erase_registered [OF i al, folded id]
  have reg: "registered ?S b \<longleftrightarrow> registered S b \<and> b \<noteq> a" for b
    using e(1) by (auto simp: registered_def)
  have kept: "conn_kept E ?S b d = conn_kept E S b d" for b d by (simp add: conn_kept_def)
  show ?thesis
    using i a e(2) unfolding conns_inv_def reg kept by auto
qed

lemma wp_remove_in_loop:
  assumes i: "conns_inv E {a} S" "phase_inv cb S" and a: "srv_conns S a = Some c" "conn_closed c" "registered S a"
    and nr: "\<not> stop_race S" and E: "inLoopThread E" and sch: "sched_ok sched S"
  shows "wp (remove_in_loop E sched a S) (srv_inv E cb)"
proof -
  let ?S = "S\<lparr>srv_connections := map_erase (srv_connections S) (conn_id c)\<rparr>"
  have inv: "conns_inv E {} ?S" by (rule conns_inv_remove [OF i(1) a(1,2)])
  have ne: "srv_connections S \<noteq> []" using a(3) by (auto simp: registered_def)
  show ?thesis
  proof (cases "srv_status S = kStopping \<and> srv_connections ?S = []")
    case True
    have "length (srv_connections S) \<le> 1"
    proof -
      have "length m \<le> Suc (length (map_erase m k))" for m :: "(u64, nat) stdmap" and k
        by (induction m) auto
      from this [of "srv_connections S" "conn_id c"] True show ?thesis by simp
    qed
    then have l: "srv_listener S = None" using nr True by (simp add: stop_race_def)
    obtain P where P: "srv_pool S = Some P" "pool_running P"
      using i(2) True by (auto simp: phase_inv_def)
    have "StopThreadPool E sched ?S = Some (?S\<lparr>srv_pool := None, srv_substatus := kSubStatusNull\<rparr>)"
      by (rule wp_StopThreadPool) (use E True P sch in \<open>simp_all add: sched_ok_def\<close>)
    moreover have "srv_substatus S = kStoppingListener" "srv_done S = 0" "srv_stopped_cb S = cb"
      "AttachListener \<notin> set (srv_tasks S)" "StopTask cb \<notin> set (srv_tasks S)" "StopTask (\<not> cb) \<notin> set (srv_tasks S)"
      using i(2) True l by (simp_all add: phase_inv_def)
    ultimately show ?thesis
      using True E a(1) inv l by (simp add: remove_in_loop_def srv_inv_def phase_inv_def [of cb])
  next
    case False
    then have "phase_inv cb ?S"
      using i(2) ne by (cases "srv_status S"; cases "srv_listener S") (simp_all add: phase_inv_def)
    with False E a(1) inv show ?thesis by (auto simp: remove_in_loop_def srv_inv_def)
  qed
qed


lemma phase_inv_snoc:
  assumes "phase_inv cb S"
  shows "phase_inv cb (S\<lparr>srv_tasks := srv_tasks S @ [RemoveTask a]\<rparr>)"
proof -
  have l: "listener_inv ts L \<Longrightarrow> listener_inv (ts @ [RemoveTask a]) L" for ts L
    by (cases ts) (auto simp: listener_inv_def)
  show ?thesis
    using assms l
    by (cases "srv_status S"; cases "srv_listener S") (auto simp: phase_inv_def)
qed

lemma conns_inv_tasks:
  assumes i: "conns_inv E X S" and "\<And>a. RemoveTask a \<in> set ts \<Longrightarrow> a < srv_alloc S"
    and "\<And>a c. srv_conns S a = Some c \<Longrightarrow>
      count_list ts (RemoveTask a) = (if registered S a \<and> conn_closed c \<and> a \<notin> Y then 1 else 0)"
  shows "conns_inv E Y (S\<lparr>srv_tasks := ts\<rparr>)"
proof -
  have "registered (S\<lparr>srv_tasks := ts\<rparr>) = registered S" "conn_kept E (S\<lparr>srv_tasks := ts\<rparr>) = conn_kept E S"
    by (simp_all add: registered_def conn_kept_def fun_eq_iff)
  with assms show ?thesis unfolding conns_inv_def by simp
qed

lemma conns_inv_queue:
  assumes i: "conns_inv E {a} S" and a: "srv_conns S a = Some c" "conn_closed c" "registered S a"
  shows "conns_inv E {} (S\<lparr>srv_tasks := srv_tasks S @ [RemoveTask a]\<rparr>)"
proof (rule conns_inv_tasks [OF i])
  show "b < srv_alloc S" if "RemoveTask b \<in> set (srv_tasks S @ [RemoveTask a])" for b
    using that conns_invD(1) [OF i a(1)] i unfolding conns_inv_def by auto
  show "count_list (srv_tasks S @ [RemoveTask a]) (RemoveTask b) =
      (if registered S b \<and> conn_closed d \<and> b \<notin> {} then 1 else 0)" if "srv_conns S b = Some d" for b d
    using conns_invD(4) [OF i that] that a by (cases "b = a") auto
qed

lemma conns_inv_pop:
  assumes i: "conns_inv E {} S" and t: "srv_tasks S = t # ts"
  shows "conns_inv E {a. t = RemoveTask a} (S\<lparr>srv_tasks := ts\<rparr>)"
proof (rule conns_inv_tasks [OF i])
  show "b < srv_alloc S" if "RemoveTask b \<in> set ts" for b
    using that i t unfolding conns_inv_def by simp
  show "count_list ts (RemoveTask b) = (if registered S b \<and> conn_closed d \<and> b \<notin> {a. t = RemoveTask a} then 1 else 0)"
    if "srv_conns S b = Some d" for b d
    using conns_invD(4) [OF i that] t by (auto split: if_splits)
qed

lemma wp_RemoveConnection:
  assumes i: "conns_inv E {a} S" "phase_inv cb S" and a: "srv_conns S a = Some c" "conn_closed c" "registered S a"
    and nr: "srv_io S a = None \<longrightarrow> srv_loop_running S \<and> \<not> stop_race S" and E: "inLoopThread E"
    and sch: "sched_ok sched S"
  shows "wp (TCPServer_RemoveConnection E sched a S) (srv_inv E cb)"
proof (cases "srv_io S a = None")
  case True
  then show ?thesis
    using wp_remove_in_loop [OF i a _ E sch] nr E
    by (simp add: TCPServer_RemoveConnection_def srv_RunInLoop_def)
next
  case False
  then obtain l where "srv_io S a = Some l" by blast
  then show ?thesis
    using conns_inv_queue [OF i(1) a] phase_inv_snoc [OF i(2)]
    by (simp add: TCPServer_RemoveConnection_def srv_RunInLoop_def srv_inv_def)
qed

text \<open>Changing one connection that is still open.\<close>

lemma conns_inv_update:
  assumes i: "conns_inv E {} S" and a: "srv_conns S a = Some c" "\<not> conn_closed c" and k: "conn_kept E S a c'"
  shows "conns_inv E (if conn_closed c' then {a} else {}) (S\<lparr>srv_conns := (srv_conns S)(a \<mapsto> c')\<rparr>)"
proof -
  have "registered S a" "a < srv_alloc S" "count_list (srv_tasks S) (RemoveTask a) = 0"
    using conns_invD [OF i a(1)] a(2) by simp_all
  then show ?thesis
    using i k unfolding conns_inv_def conn_kept_def registered_def by auto
qed

lemma conn_open:
  assumes "conn_inv c sent" and "close_fn c" and "status c \<noteq> kDisconnected"
  shows "\<not> conn_closed c"
proof -
  have "count_list (conn_log c) CloseCallback = 0" using assms by (simp add: conn_inv_def)
  then show ?thesis by (simp add: conn_closed_def count_list_0_iff)
qed

lemma log_callbacks_inv [simp]:
  "conns_inv E X (log_callbacks a evs S) = conns_inv E X S"
  "phase_inv cb (log_callbacks a evs S) = phase_inv cb S"
  "srv_conns (log_callbacks a evs S) = srv_conns S"
  "registered (log_callbacks a evs S) b = registered S b"
  "srv_io (log_callbacks a evs S) = srv_io S"
  "srv_loop_running (log_callbacks a evs S) = srv_loop_running S"
  "stop_race (log_callbacks a evs S) = stop_race S"
  "sched_ok sched (log_callbacks a evs S) = sched_ok sched S"
  by (simp_all add: log_callbacks_def phase_inv_def registered_def stop_race_def sched_ok_def
      cong: server_status.case_cong option.case_cong)

lemma conns_field [simp]:
  "phase_inv cb (S\<lparr>srv_conns := f\<rparr>) = phase_inv cb S"
  "registered (S\<lparr>srv_conns := f\<rparr>) b = registered S b"
  "stop_race (S\<lparr>srv_conns := f\<rparr>) = stop_race S"
  "sched_ok sched (S\<lparr>srv_conns := f\<rparr>) = sched_ok sched S"
  by (simp_all add: phase_inv_def registered_def stop_race_def sched_ok_def
      cong: server_status.case_cong option.case_cong)

lemma wp_SrvConn:
  assumes E: "env_ok E" and K: "kernel_ok K" and i: "srv_inv E cb S"
    and e: "srv_enabled (SrvConn a op) S" and sch: "sched_ok sched S"
  shows "wp (on_server_conn E sched (conn_do E K op) a S) (srv_inv E cb)"
proof -
  obtain c where c: "srv_conns S a = Some c" "status c \<noteq> kDisconnected" "conn_enabled op c" "a \<notin> set (srv_attach S)"
    using e by (auto split: option.splits)
  have ci: "conns_inv E {} S" "phase_inv cb S" using i by (simp_all add: srv_inv_def)
  obtain sent where cv: "conn_inv c sent" and fns: "close_fn c" "conn_fn c" and id: "conn_id c = of_nat (Suc a)"
    using conns_invD(2) [OF ci(1) c(1)] c(4) by (auto simp: conn_kept_def)
  have open_c: "\<not> conn_closed c" by (rule conn_open [OF cv fns(1) c(2)])
  obtain c' where d: "conn_do E K op c = Some c'" "conn_inv c' (sent @ handed_over op c)" "logged c c'"
    using wp_conj [OF wp_conn_do [OF E K cv c(3)] wp_conn_do_logged [OF E K cv c(3,2)]]
    by (auto simp: wp_def)
  have "conn_kept E S a c'"
    using d c(4) fns id conn_do_id [OF d(1)] by (auto simp: conn_kept_def logged_def)
  note u = conns_inv_update [OF ci(1) c(1) open_c this]
  let ?S = "S\<lparr>srv_conns := (srv_conns S)(a \<mapsto> c')\<rparr>"
  have reg: "registered ?S a" using conns_invD(3) [OF ci(1) c(1) open_c] by simp
  show ?thesis
  proof (cases "status c' = kDisconnected")
    case False
    then have "conn_log c' = conn_log c" "\<not> conn_closed c'"
      using d(3) open_c by (auto simp: logged_def conn_closed_def)
    with u c(1) d(1) ci(2) show ?thesis by (simp add: on_server_conn_def srv_inv_def)
  next
    case True
    then have log: "conn_log c' = conn_log c @ [ConnCallback kDisconnecting, CloseCallback]" and cl: "conn_closed c'"
      using d(3) fns by (auto simp: logged_def conn_closed_def close_events_def)
    have u': "conns_inv E {a} ?S" using u cl by simp
    have "wp (TCPServer_RemoveConnection E sched a (log_callbacks a [ConnCallback kDisconnecting] ?S)) (srv_inv E cb)"
      by (rule wp_RemoveConnection) (use u' ci(2) cl reg e E sch in \<open>simp_all add: env_ok_def\<close>)
    with c(1) d(1) log show ?thesis by (simp add: on_server_conn_def srv_event_def)
  qed
qed


subsection \<open>Accepting and attaching connections\<close>

lemma OnAttachedToLoop_frame:
  assumes "OnAttachedToLoop E c = Some c'"
  shows "conn_log c' = conn_log c @ (if conn_fn c then [ConnCallback kConnected] else [])"
    "conn_tasks c' = conn_tasks c" "conn_fn c' = conn_fn c" "close_fn c' = close_fn c"
  using assms by (auto simp: OnAttachedToLoop_def on_chan_def callback_def Let_def split: bind_splits if_splits)

lemma wp_SrvAttach:
  assumes i: "srv_inv E cb S" and a: "a \<in> set (srv_attach S)"
  shows "wp (srv_run_attach E sched a S) (srv_inv E cb)"
proof -
  have ci: "conns_inv E {} S" "phase_inv cb S" using i by (simp_all add: srv_inv_def)
  have "a < srv_alloc S" "distinct (srv_attach S)" using ci(1) a unfolding conns_inv_def by auto
  then obtain c where c: "srv_conns S a = Some c"
    using ci(1) unfolding conns_inv_def by (metis not_le option.exhaust)
  have k: "waiting_conn E c" "conn_id c = of_nat (Suc a)"
    using conns_invD(2) [OF ci(1) c] a by (simp_all add: conn_kept_def)
  then obtain c' where d: "OnAttachedToLoop E c = Some c'" "conn_inv c' []" "close_fn c'" "conn_fn c'"
    "conn_log c = []" "conn_log c' = [ConnCallback kConnected]"
    by (auto simp: waiting_conn_def wp_def)
  have nc: "\<not> conn_closed c" "\<not> conn_closed c'" using d by (simp_all add: conn_closed_def)
  let ?S = "S\<lparr>srv_attach := remove1 a (srv_attach S), srv_conns := (srv_conns S)(a \<mapsto> c')\<rparr>"
  have mem: "b \<in> set (remove1 a (srv_attach S)) \<longleftrightarrow> b \<in> set (srv_attach S) \<and> b \<noteq> a" for b
    using \<open>distinct (srv_attach S)\<close> by (simp add: set_remove1_eq)
  have reg: "registered S a" by (rule conns_invD(3) [OF ci(1) c nc(1)])
  have "count_list (srv_tasks S) (RemoveTask a) = 0" using conns_invD(4) [OF ci(1) c] nc by simp
  then have "conns_inv E {} ?S"
    using ci(1) d(2-4) nc reg k(2) OnAttachedToLoop_id [OF d(1)] \<open>a < srv_alloc S\<close>
    unfolding conns_inv_def conn_kept_def registered_def by (auto simp: mem)
  moreover have "phase_inv cb ?S"
    using ci(2) by (simp add: phase_inv_def cong: server_status.case_cong option.case_cong)
  ultimately show ?thesis
    using c d by (simp add: srv_run_attach_def on_server_conn_def srv_event_def srv_inv_def)
qed

lemma set_map_set_new: "k \<notin> fst ` set m \<Longrightarrow> set (map_set m k v) = insert (k, v) (set m)"
  by (induction m) (auto split: if_splits)

lemma conns_inv_cong:
  assumes "srv_connections S' = srv_connections S" "srv_next_id S' = srv_next_id S" "srv_alloc S' = srv_alloc S"
    "srv_attach S' = srv_attach S" "srv_conns S' = srv_conns S" "srv_tasks S' = srv_tasks S"
  shows "conns_inv E X S' = conns_inv E X S"
  using assms by (simp add: conns_inv_def conn_kept_def registered_def)

text \<open>Registering a new connection.\<close>

lemma conns_inv_new:
  assumes i: "conns_inv E {} S" and lim: "Suc (Suc (srv_alloc S)) < 2 ^ 64"
    and c: "conn_id c = of_nat (Suc (srv_alloc S))" "close_fn c" "conn_fn c" "\<not> conn_closed c"
    and att: "if w then waiting_conn E c else conn_inv c []"
  shows "conns_inv E {} (S\<lparr>srv_next_id := of_nat (Suc (srv_alloc S)), srv_alloc := Suc (srv_alloc S),
      srv_conns := (srv_conns S)(srv_alloc S \<mapsto> c),
      srv_attach := (if w then srv_attach S @ [srv_alloc S] else srv_attach S),
      srv_connections := map_set (srv_connections S) (of_nat (Suc (srv_alloc S))) (srv_alloc S)\<rparr>)"
    (is "conns_inv E {} ?S")
proof -
  let ?a = "srv_alloc S" and ?k = "of_nat (Suc (srv_alloc S)) :: u64"
  have ids: "\<forall>(i, b) \<in> set (srv_connections S). b < ?a \<and> i = of_nat (Suc b)"
    and att_old: "set (srv_attach S) \<subseteq> {..<?a}" and rt: "\<forall>a. RemoveTask a \<in> set (srv_tasks S) \<longrightarrow> a < ?a"
    and dom: "\<forall>a. srv_conns S a = None \<longleftrightarrow> ?a \<le> a"
    using i by (simp_all add: conns_inv_def)
  have inj: "(of_nat (Suc b) :: u64) \<noteq> ?k" if "b < ?a" for b
  proof -
    have "unat (of_nat (Suc b) :: u64) = Suc b" "unat ?k = Suc ?a"
      using that lim by (simp_all only: unat_of_nat take_bit_nat_eq_self_iff) auto
    with that show ?thesis by (metis Suc_inject nat_neq_iff)
  qed
  then have new: "?k \<notin> fst ` set (srv_connections S)" using ids by force
  note s = set_map_set_new [OF new]
  have reg: "registered ?S b \<longleftrightarrow> registered S b \<or> b = ?a" for b
    by (auto simp: registered_def s simp del: of_nat_Suc)
  have no: "?a \<notin> set (srv_attach S)" "RemoveTask ?a \<notin> set (srv_tasks S)" using att_old rt by auto
  have kept: "conn_kept E ?S b d" if "conn_kept E S b d" "b \<noteq> ?a" for b d
    using that by (auto simp: conn_kept_def)
  have kept_new: "conn_kept E ?S ?a c" using c att no by (cases w) (auto simp: conn_kept_def)
  have cnt: "count_list (srv_tasks S) (RemoveTask ?a) = 0" using no by simp
  have conns: "conn_kept E ?S b d \<and> (\<not> conn_closed d \<longrightarrow> registered ?S b) \<and>
      count_list (srv_tasks ?S) (RemoveTask b) = (if registered ?S b \<and> conn_closed d \<and> b \<notin> {} then 1 else 0)"
    if "srv_conns ?S b = Some d" for b d
  proof (cases "b = ?a")
    case True
    then have "d = c" using that by simp
    then show ?thesis using True kept_new cnt reg c(4) by simp
  next
    case False
    then have "srv_conns S b = Some d" using that by simp
    note D = conns_invD [OF i this]
    show ?thesis using D kept [OF D(2) False] reg False by auto
  qed
  have "srv_conns ?S b = None \<longleftrightarrow> Suc ?a \<le> b" for b
    using spec [OF dom, of b] by (cases "b = ?a") (simp, simp, presburger)
  then have "\<forall>b. srv_conns ?S b = None \<longleftrightarrow> Suc ?a \<le> b" by blast
  moreover have "map_ok (srv_connections ?S)" using i by (simp add: conns_inv_def)
  moreover have "distinct (srv_attach ?S)" "set (srv_attach ?S) \<subseteq> {..<Suc ?a}"
    using i no(1) by (auto simp: conns_inv_def)
  moreover have "\<forall>(i, b) \<in> set (srv_connections ?S). b < Suc ?a \<and> i = of_nat (Suc b)"
    using ids by (auto simp: s simp del: of_nat_Suc)
  moreover have "\<forall>a. RemoveTask a \<in> set (srv_tasks S) \<longrightarrow> a < Suc ?a" using rt by auto
  ultimately show ?thesis
    using conns lim unfolding conns_inv_def by simp
qed


lemma wp_new_connection:
  assumes E: "env_ok E" and fd: "0 < fd"
  shows "wp (TCPConn_new n fd l r i) (\<lambda>c. type_of_conn c = kIncoming \<and> conn_id c = i \<and> conn_tasks c = [] \<and>
    \<not> conn_closed (c\<lparr>conn_fn := True, close_fn := True\<rparr>) \<and> waiting_conn E (c\<lparr>conn_fn := True, close_fn := True\<rparr>))"
proof -
  obtain c where c: "TCPConn_new n fd l r i = Some c"
    "wp (OnAttachedToLoop E (c\<lparr>type_of_conn := kIncoming, close_delay := 0, conn_fn := True, close_fn := True,
      write_complete_fn := False, high_water_mark_fn := False, high_water_mark := 128 * 1024 * 1024\<rparr>))
      (\<lambda>c'. conn_inv c' [] \<and> status c' = kConnected \<and> close_fn c' = True)"
    using attach_inv [OF E fd, where n = n and l = l and r = r and i = i and t = kIncoming and d = 0
        and cf = True and xf = True and wc = False and hf = False and m = "128 * 1024 * 1024"]
    unfolding wp_def by blast
  note d = TCPConn_new_defaults [OF c(1)]
  have t: "type_of_conn c = kIncoming" "conn_id c = i" "status c = kDisconnected" "conn_tasks c = []"
    using c(1) by (auto simp: TCPConn_new_def bind_eq_Some_conv)
  have e: "c\<lparr>type_of_conn := kIncoming, close_delay := 0, conn_fn := True, close_fn := True,
      write_complete_fn := False, high_water_mark_fn := False, high_water_mark := 128 * 1024 * 1024\<rparr> =
      c\<lparr>conn_fn := True, close_fn := True\<rparr>"
    using d t by (cases c) simp
  have "waiting_conn E (c\<lparr>conn_fn := True, close_fn := True\<rparr>)"
    unfolding waiting_conn_def
    using c(2) [unfolded e] d(5) t OnAttachedToLoop_frame [of E "c\<lparr>conn_fn := True, close_fn := True\<rparr>"]
    by (auto simp: wp_def)
  with c(1) t d(5) show ?thesis by (simp add: conn_closed_def)
qed

text \<open>Choosing the loop keeps the pool running.\<close>

lemma pool_running_next: "pool_running P \<Longrightarrow> pool_running (P\<lparr>lp_next := x\<rparr>)"
proof -
  assume r: "pool_running P"
  have "started n (P\<lparr>lp_next := x\<rparr>) = (started n P)\<lparr>lp_next := x\<rparr>" for n by (simp add: started_def)
  with r show ?thesis by (simp add: pool_running_def)
qed

lemma wp_GetNextLoop:
  assumes "srv_pool S = Some P" and "pool_running P"
  shows "wp (TCPServer_GetNextLoop s_addr S) (\<lambda>(l, S'). \<exists>P'. S' = S\<lparr>srv_pool := Some P'\<rparr> \<and> pool_running P')"
proof -
  have "S = S\<lparr>srv_pool := Some P\<rparr>" using assms(1) by (cases S) simp
  then show ?thesis
    using assms pool_running_next [OF assms(2)]
    by (auto simp: TCPServer_GetNextLoop_def Pool_GetNextLoop_def Let_def intro: exI [of _ P])
qed

lemma phase_inv_frame:
  assumes "srv_status S' = srv_status S" "srv_listener S' = srv_listener S" "srv_tasks S' = srv_tasks S"
    "srv_substatus S' = srv_substatus S" "srv_done S' = srv_done S" "srv_stopped_cb S' = srv_stopped_cb S"
    "srv_status S = kRunning" "srv_pool S' = Some P" "pool_running P" "phase_inv cb S"
  shows "phase_inv cb S'"
  using assms by (auto simp: phase_inv_def)

lemma wp_HandleNewConn:
  assumes E: "env_ok E" and i: "srv_inv E cb S" and st: "srv_status S = kRunning"
    and lim: "Suc (Suc (srv_alloc S)) < 2 ^ 64" and fd: "0 < fd"
  shows "wp (TCPServer_HandleNewConn E fd peer s_addr S) (srv_inv E cb)"
proof -
  have ci: "conns_inv E {} S" "phase_inv cb S" using i by (simp_all add: srv_inv_def)
  obtain P where "srv_pool S = Some P" "pool_running P" using ci(2) st by (auto simp: phase_inv_def)
  from wp_GetNextLoop [OF this, of s_addr] obtain l P' where
    g: "TCPServer_GetNextLoop s_addr S = Some (l, S\<lparr>srv_pool := Some P'\<rparr>)" "pool_running P'"
    by (auto simp: wp_def)
  let ?k = "of_nat (Suc (srv_alloc S)) :: u64"
  have k: "srv_next_id S + 1 = ?k" using ci(1) by (simp add: conns_inv_def add.commute)
  obtain c where c: "TCPConn_new peer fd (srv_listen_addr S) peer ?k = Some c" "type_of_conn c = kIncoming"
    "conn_id c = ?k" "conn_tasks c = []" "\<not> conn_closed (c\<lparr>conn_fn := True, close_fn := True\<rparr>)"
    "waiting_conn E (c\<lparr>conn_fn := True, close_fn := True\<rparr>)"
    using wp_new_connection [OF E fd, of peer "srv_listen_addr S" peer ?k] by (auto simp: wp_def)
  let ?c = "c\<lparr>conn_fn := True, close_fn := True\<rparr>"
  have T: "inLoopThread E" using E by (simp add: env_ok_def)
  note new = conns_inv_new [OF ci(1) lim]
  show ?thesis
  proof (cases "l = None \<and> srv_loop_running S")
    case True
    obtain c' where d: "OnAttachedToLoop E ?c = Some c'" "conn_inv c' []" "close_fn c'" "conn_fn c'"
      "conn_log c' = [ConnCallback kConnected]"
      using c(6) by (auto simp: waiting_conn_def wp_def)
    have "conns_inv E {} (S\<lparr>srv_next_id := ?k, srv_alloc := Suc (srv_alloc S),
        srv_conns := (srv_conns S)(srv_alloc S \<mapsto> c'), srv_attach := srv_attach S,
        srv_connections := map_set (srv_connections S) ?k (srv_alloc S)\<rparr>)"
      (is "conns_inv E {} ?N")
      using new [of c' False] d OnAttachedToLoop_id [OF d(1)] c(3) by (simp add: conn_closed_def del: of_nat_Suc)
    note N = this
    have "srv_inv E cb (log_callbacks (srv_alloc S) (conn_log c') (S\<lparr>srv_pool := Some P', srv_next_id := ?k,
        srv_alloc := Suc (srv_alloc S), srv_io := (srv_io S)(srv_alloc S := l),
        srv_conns := (srv_conns S)(srv_alloc S \<mapsto> c')\<rparr>)
        \<lparr>srv_connections := map_set (srv_connections S) ?k (srv_alloc S)\<rparr>)"
      (is "srv_inv E cb ?S")
      unfolding srv_inv_def
    proof
      show "conns_inv E {} ?S"
        by (rule conns_inv_cong [of _ ?N, THEN iffD2]) (use N in \<open>simp_all add: log_callbacks_def del: of_nat_Suc\<close>)
      show "phase_inv cb ?S"
        by (rule phase_inv_frame [OF _ _ _ _ _ _ st _ g(2) ci(2)]) (simp_all add: log_callbacks_def)
    qed
    then show ?thesis
      using True T st g(1) c d(1) k
      by (simp add: TCPServer_HandleNewConn_def log_callbacks_def Let_def del: of_nat_Suc)
  next
    case False
    have "conns_inv E {} (S\<lparr>srv_next_id := ?k, srv_alloc := Suc (srv_alloc S),
        srv_conns := (srv_conns S)(srv_alloc S \<mapsto> ?c), srv_attach := srv_attach S @ [srv_alloc S],
        srv_connections := map_set (srv_connections S) ?k (srv_alloc S)\<rparr>)"
      (is "conns_inv E {} ?N")
      using new [of ?c True] c by (simp del: of_nat_Suc)
    note N = this
    have "srv_inv E cb (S\<lparr>srv_pool := Some P', srv_next_id := ?k, srv_alloc := Suc (srv_alloc S),
        srv_io := (srv_io S)(srv_alloc S := l), srv_conns := (srv_conns S)(srv_alloc S \<mapsto> ?c),
        srv_attach := srv_attach S @ [srv_alloc S],
        srv_connections := map_set (srv_connections S) ?k (srv_alloc S)\<rparr>)"
      (is "srv_inv E cb ?S")
      unfolding srv_inv_def
    proof
      show "conns_inv E {} ?S"
        by (rule conns_inv_cong [of _ ?N, THEN iffD2]) (use N in \<open>simp_all del: of_nat_Suc\<close>)
      show "phase_inv cb ?S"
        by (rule phase_inv_frame [OF _ _ _ _ _ _ st _ g(2) ci(2)]) simp_all
    qed
    then show ?thesis
      using False T st g(1) c(1,2) k
      by (cases l) (simp_all add: TCPServer_HandleNewConn_def Let_def del: of_nat_Suc)
  qed
qed

lemma wp_SrvAccept:
  assumes E: "env_ok E" and i: "srv_inv E cb S" and e: "srv_enabled (SrvAccept r) S"
  shows "wp (Listener_HandleAccept E ntop r S) (srv_inv E cb)"
proof -
  obtain L where L: "srv_listener S = Some L" using e by (auto split: option.splits)
  have T: "inLoopThread E" using E by (simp add: env_ok_def)
  have cl: "srv_inv E cb (S\<lparr>srv_closed := f\<rparr>)" for f
    using i by (simp add: srv_inv_def phase_inv_def cong: server_status.case_cong option.case_cong)
  have st: "srv_status S = kRunning \<or> srv_status S = kStopping"
    using i L by (cases "srv_status S") (auto simp: srv_inv_def phase_inv_def)
  have "wp (TCPServer_HandleNewConn E nfd peer s_addr S) (srv_inv E cb)" if "0 < nfd" for nfd peer s_addr
  proof (cases "srv_status S = kRunning")
    case True
    then show ?thesis using wp_HandleNewConn [OF E i True _ that] e by simp
  next
    case False
    then show ?thesis using st T cl by (simp add: TCPServer_HandleNewConn_def)
  qed
  then show ?thesis
    using L T i cl e by (auto simp: Listener_HandleAccept_def Let_def split: sum.splits)
qed


subsection \<open>Stopping\<close>

lemma wp_Listener_Stop:
  assumes E: "env_ok E" and L: "li_chan L = Some ch" "event_present ch" "events ch = kReadable" "attached ch"
  shows "wp (Listener_Stop E L) (\<lambda>L'. Listener_delete L' = Some (li_fd L))"
proof -
  have ok: "chan_ok ch" using L by (simp add: chan_ok_def mask_ok_def kReadable_def)
  show ?thesis
    using L(1) E wp_event_ops(5) [OF E ok]
    by (auto simp: Listener_Stop_def listener_chan_def env_ok_def Listener_delete_def FdChannel_delete_def wp_def
        FdChannel_Close_def chan_ok_def)
qed

lemma conn_inv_Close:
  assumes "env_ok E" and "conn_inv c sent" and "status c \<noteq> kDisconnected"
  shows "conn_inv (TCPConn_Close c) sent"
  using assms by (auto simp: conn_inv_def conn_ok_def TCPConn_Close_def queue_task_def)

lemma wp_close_connection:
  assumes E: "env_ok E" and i: "conns_inv E {} S" and a: "a < srv_alloc S"
  shows "wp (close_connection S a) (\<lambda>S'. conns_inv E {} S' \<and> (\<exists>f. S' = S\<lparr>srv_conns := f\<rparr>))"
proof -
  obtain c where c: "srv_conns S a = Some c" using i a unfolding conns_inv_def by (metis not_le option.exhaust)
  show ?thesis
  proof (cases "conn_IsConnected c")
    case False
    then show ?thesis using c i by (auto simp: close_connection_def intro!: exI [of _ "srv_conns S"])
  next
    case True
    note k = conns_invD(2) [OF i c]
    have na: "a \<notin> set (srv_attach S)" using k True by (auto simp: conn_kept_def waiting_conn_def conn_IsConnected_def)
    then obtain sent where cv: "conn_inv c sent" "close_fn c" using k by (auto simp: conn_kept_def)
    have st: "status c \<noteq> kDisconnected" using True by (simp add: conn_IsConnected_def)
    have "conn_kept E S a (TCPConn_Close c)"
      using k na conn_inv_Close [OF E cv(1) st] by (auto simp: conn_kept_def TCPConn_Close_def queue_task_def)
    from conns_inv_update [OF i c conn_open [OF cv st] this] conn_open [OF cv st]
    show ?thesis using c True by (auto simp: close_connection_def conn_closed_def TCPConn_Close_def queue_task_def)
  qed
qed

lemma wp_StopInLoop:
  assumes E: "env_ok E" and i: "conns_inv E {} S" and st: "srv_status S = kStopping" "srv_substatus S = kStoppingListener"
    "srv_done S = 0" and L: "srv_listener S = Some L" "listener_inv (srv_tasks S) L"
    and ts: "AttachListener \<notin> set (srv_tasks S)" "StopTask cb \<notin> set (srv_tasks S)" "StopTask (\<not> cb) \<notin> set (srv_tasks S)"
    and P: "srv_pool S = Some P" "pool_running P" and sch: "sched_ok sched S"
  shows "wp (TCPServer_StopInLoop E sched cb S) (srv_inv E cb)"
proof -
  have T: "inLoopThread E" using E by (simp add: env_ok_def)
  obtain ch where ch: "li_chan L = Some ch" "event_present ch" "events ch = kReadable" "attached ch"
    using L(2) ts(1) by (auto simp: listener_inv_def)
  obtain L' where L': "Listener_Stop E L = Some L'" "Listener_delete L' = Some (li_fd L)"
    using wp_Listener_Stop [OF E ch] by (auto simp: wp_def)
  let ?S = "S\<lparr>srv_listener := None, srv_closed := srv_closed S @ [li_fd L]\<rparr>"
  have inv: "conns_inv E {} ?S" using i by simp
  show ?thesis
  proof (cases "srv_connections S = []")
    case True
    have "StopThreadPool E sched ?S = Some (?S\<lparr>srv_pool := None, srv_substatus := kSubStatusNull\<rparr>)"
      by (rule wp_StopThreadPool) (use T st P sch in \<open>simp_all add: sched_ok_def\<close>)
    with True T L(1) L' inv ts st(3) show ?thesis
      by (simp add: TCPServer_StopInLoop_def srv_inv_def phase_inv_def)
  next
    case False
    have al: "a < srv_alloc S" if "a \<in> set (map snd (srv_connections S))" for a
      using that i unfolding conns_inv_def by fastforce
    have "wp (foldM close_connection ?S (map snd (srv_connections ?S)))
        (\<lambda>S'. conns_inv E {} S' \<and> (\<exists>f. S' = ?S\<lparr>srv_conns := f\<rparr>))"
    proof (rule wp_foldM_inv)
      have "?S = ?S\<lparr>srv_conns := srv_conns ?S\<rparr>" by simp
      then show "conns_inv E {} ?S \<and> (\<exists>f. ?S = ?S\<lparr>srv_conns := f\<rparr>)" using inv by blast
    next
      fix S' a assume "a \<in> set (map snd (srv_connections ?S))" "conns_inv E {} S' \<and> (\<exists>f. S' = ?S\<lparr>srv_conns := f\<rparr>)"
      then show "wp (close_connection S' a) (\<lambda>S'. conns_inv E {} S' \<and> (\<exists>f. S' = ?S\<lparr>srv_conns := f\<rparr>))"
        using wp_close_connection [OF E, of S' a] al by (fastforce elim!: wp_mono)
    qed
    then obtain f where f: "foldM close_connection ?S (map snd (srv_connections ?S)) = Some (?S\<lparr>srv_conns := f\<rparr>)"
      "conns_inv E {} (?S\<lparr>srv_conns := f\<rparr>)"
      by (auto simp: wp_def)
    have "phase_inv cb (?S\<lparr>srv_conns := f, srv_stopped_cb := cb\<rparr>)"
      using st ts P False by (simp add: phase_inv_def)
    with f False T L(1) L' show ?thesis by (simp add: TCPServer_StopInLoop_def srv_inv_def)
  qed
qed

lemma env_ok_thread: "env_ok E \<Longrightarrow> E\<lparr>inLoopThread := True\<rparr> = E"
  by (cases E) (simp add: env_ok_def)

lemma wp_SrvStop:
  assumes E: "env_ok E" and i: "srv_inv E cb S" and e: "srv_enabled (SrvStop inloop) S" and sch: "sched_ok sched S"
  shows "wp (TCPServer_Stop (E\<lparr>inLoopThread := inloop\<rparr>) sched cb S) (srv_inv E cb)"
proof -
  have st: "srv_status S = kRunning" using e by simp
  have ci: "conns_inv E {} S" "phase_inv cb S" using i by (simp_all add: srv_inv_def)
  obtain L P where o: "srv_listener S = Some L" "listener_inv (srv_tasks S) L" "srv_pool S = Some P" "pool_running P"
    "StopTask cb \<notin> set (srv_tasks S)" "StopTask (\<not> cb) \<notin> set (srv_tasks S)" "srv_done S = 0"
    using ci(2) st by (auto simp: phase_inv_def)
  let ?S = "S\<lparr>srv_status := kStopping, srv_substatus := kStoppingListener\<rparr>"
  show ?thesis
  proof (cases "srv_loop_running S \<and> inloop")
    case True
    have "wp (TCPServer_StopInLoop (E\<lparr>inLoopThread := True\<rparr>) sched cb ?S) (srv_inv E cb)"
      unfolding env_ok_thread [OF E]
      by (rule wp_StopInLoop [OF E]) (use ci o e sch True in \<open>simp_all add: sched_ok_def\<close>)
    then show ?thesis using True st by (simp add: TCPServer_Stop_def srv_RunInLoop_def)
  next
    case False
    have "listener_inv (srv_tasks S @ [StopTask cb]) L"
      using o(2) by (cases "srv_tasks S") (auto simp: listener_inv_def)
    then have "phase_inv cb (?S\<lparr>srv_tasks := srv_tasks S @ [StopTask cb]\<rparr>)"
      using o by (auto simp: phase_inv_def)
    moreover have "conns_inv E {} (?S\<lparr>srv_tasks := srv_tasks S @ [StopTask cb]\<rparr>)"
      using ci(1) by (simp add: conns_inv_def conn_kept_def registered_def)
    ultimately show ?thesis
      using False st by (auto simp: TCPServer_Stop_def srv_RunInLoop_def srv_inv_def)
  qed
qed

lemma wp_SrvTask:
  assumes E: "env_ok E" and i: "srv_inv E cb S" and e: "srv_enabled SrvTask S" and sch: "sched_ok sched S"
  shows "wp (srv_run_task E sched S) (srv_inv E cb)"
proof (cases "srv_tasks S")
  case Nil
  then show ?thesis using i by (simp add: srv_run_task_def)
next
  case (Cons t ts)
  let ?S = "S\<lparr>srv_tasks := ts\<rparr>"
  have T: "inLoopThread E" using E by (simp add: env_ok_def)
  have ci: "conns_inv E {} S" "phase_inv cb S" using i by (simp_all add: srv_inv_def)
  have sch': "sched_ok sched ?S" using sch by (simp add: sched_ok_def)
  have cinv: "conns_inv E {} ?S" if "\<And>a. t \<noteq> RemoveTask a"
    using conns_inv_pop [OF ci(1) Cons] that by simp
  show ?thesis
  proof (cases t)
    case AttachListener
    obtain L where L: "srv_listener S = Some L" "listener_inv (AttachListener # ts) L"
      using ci(2) Cons AttachListener by (cases "srv_status S"; cases "srv_listener S") (auto simp: phase_inv_def)
    then obtain ch where ch: "li_chan L = Some ch" "event_present ch" "events ch = kReadable" "\<not> attached ch"
      "AttachListener \<notin> set ts" by (auto simp: listener_inv_def)
    have at: "AttachToLoop E ch = Some (ch\<lparr>attached := True\<rparr>)"
      using ch E by (simp add: AttachToLoop_def IsNoneEvent_def env_ok_def event_consts)
    have "listener_inv ts (L\<lparr>li_chan := Some (ch\<lparr>attached := True\<rparr>)\<rparr>)" using ch by (simp add: listener_inv_def)
    then have "phase_inv cb (?S\<lparr>srv_listener := Some (L\<lparr>li_chan := Some (ch\<lparr>attached := True\<rparr>)\<rparr>)\<rparr>)"
      using ci(2) L Cons AttachListener by (cases "srv_status S") (auto simp: phase_inv_def)
    with L(1) ch(1) at cinv AttachListener Cons show ?thesis
      by (simp add: srv_run_task_def attach_listener_def listener_chan_def srv_inv_def)
  next
    case (StopTask b)
    have b: "b = cb" "srv_status S = kStopping"
      using ci(2) Cons StopTask by (cases "srv_status S"; cases "srv_listener S"; cases b; cases cb; auto simp: phase_inv_def)+
    obtain L P where o: "srv_listener S = Some L" "listener_inv (StopTask cb # ts) L" "srv_pool S = Some P" "pool_running P"
      "StopTask cb \<notin> set ts" "StopTask (\<not> cb) \<notin> set ts" "srv_done S = 0" "srv_substatus S = kStoppingListener"
      using ci(2) Cons StopTask b
      by (cases "srv_listener S") (auto simp: phase_inv_def count_list_0_iff)
    have na: "AttachListener \<notin> set ts" "listener_inv ts L" using o(2) by (auto simp: listener_inv_def split: if_splits)
    have "wp (TCPServer_StopInLoop E sched cb ?S) (srv_inv E cb)"
      by (rule wp_StopInLoop [OF E]) (use cinv StopTask b o na sch' in simp_all)
    with StopTask b Cons show ?thesis by (simp add: srv_run_task_def)
  next
    case (RemoveTask a)
    have "RemoveTask a \<in> set (srv_tasks S)" using Cons RemoveTask by simp
    then have "a < srv_alloc S" using ci(1) unfolding conns_inv_def by blast
    then obtain c where c: "srv_conns S a = Some c" using ci(1) unfolding conns_inv_def by (metis not_le option.exhaust)
    have "count_list (srv_tasks S) (RemoveTask a) \<noteq> 0" using Cons RemoveTask by simp
    then have rc: "registered S a" "conn_closed c" using conns_invD(4) [OF ci(1) c] by (auto split: if_splits)
    have "conns_inv E {a} ?S"
      using conns_inv_pop [OF ci(1) Cons] RemoveTask by (simp add: Collect_conv_if)
    moreover have "phase_inv cb ?S"
      using ci(2) Cons RemoveTask
      by (cases "srv_status S"; cases "srv_listener S") (auto simp: phase_inv_def listener_inv_def split: if_splits)
    moreover have "registered ?S a" "\<not> stop_race ?S"
      using rc(1) e Cons RemoveTask by (simp_all add: registered_def stop_race_def)
    ultimately have "wp (remove_in_loop E sched a ?S) (srv_inv E cb)"
      using wp_remove_in_loop [of E a ?S cb c sched] c rc(2) T sch' by simp
    with RemoveTask Cons show ?thesis by (simp add: srv_run_task_def)
  qed
qed

lemma wp_srv_do:
  assumes "env_ok E" and "kernel_ok K" and "srv_inv E cb S" and "srv_enabled op S" and "sched_ok sched S"
  shows "wp (srv_do E K ntop cb sched op S) (srv_inv E cb)"
proof (cases op)
  case SrvLoop
  then show ?thesis
    using assms(3) by (simp add: srv_inv_def phase_inv_def cong: server_status.case_cong option.case_cong)
next
  case SrvTask
  then show ?thesis using wp_SrvTask [OF assms(1,3) _ assms(5)] assms(4) by simp
next
  case (SrvAccept r)
  then show ?thesis using wp_SrvAccept [OF assms(1,3)] assms(4) by simp
next
  case (SrvAttach a)
  then show ?thesis using wp_SrvAttach [OF assms(3)] assms(4) by simp
next
  case (SrvConn a cop)
  then show ?thesis using wp_SrvConn [OF assms(1-3) _ assms(5), of a cop] assms(4) by simp
next
  case (SrvStop inloop)
  then show ?thesis using wp_SrvStop [OF assms(1,3) _ assms(5)] assms(4) by simp
qed


subsection \<open>Reachable states\<close>

inductive srv_reach :: "loop_env \<Rightarrow> ksend \<Rightarrow> ntop \<Rightarrow> bool \<Rightarrow> tcp_server \<Rightarrow> bool"
  for E K ntop cb where
  start: "TCPServer_Init pton G (SetThreadDispatchPolicy v (TCPServer_new running laddr n)) = Some (True, S0) \<Longrightarrow>
    subseq (concat (map (\<lambda>i. [i, i]) [0..<unat n])) sched \<Longrightarrow> (inloop \<Longrightarrow> running) \<Longrightarrow>
    TCPServer_Start (E\<lparr>inLoopThread := inloop\<rparr>) sched S0 = Some (True, S) \<Longrightarrow> srv_reach E K ntop cb S"
| step: "srv_reach E K ntop cb S \<Longrightarrow> srv_enabled op S \<Longrightarrow> sched_ok sched S \<Longrightarrow>
    srv_do E K ntop cb sched op S = Some S' \<Longrightarrow> srv_reach E K ntop cb S'"

text \<open>A run of steps, each of them enabled.\<close>

fun srv_run :: "loop_env \<Rightarrow> ksend \<Rightarrow> ntop \<Rightarrow> bool \<Rightarrow> nat list \<Rightarrow> srv_op list \<Rightarrow> tcp_server \<Rightarrow> tcp_server option" where
  "srv_run E K ntop cb sched [] S = Some S"
| "srv_run E K ntop cb sched (op # ops) S = do {
     assert_that (srv_enabled op S \<and> sched_ok sched S);
     S \<leftarrow> srv_do E K ntop cb sched op S;
     srv_run E K ntop cb sched ops S }"

lemma srv_run_reach:
  "srv_run E K ntop cb sched ops S = Some S' \<Longrightarrow> srv_reach E K ntop cb S \<Longrightarrow> srv_reach E K ntop cb S'"
  by (induction ops arbitrary: S) (auto simp: assert_that_def split: bind_splits if_splits intro: srv_reach.step)

lemma Init_state:
  assumes "TCPServer_Init pton G (SetThreadDispatchPolicy v (TCPServer_new running laddr n)) = Some (True, S0)"
  obtains fd where "S0 = SetThreadDispatchPolicy v (TCPServer_new running laddr n)
    \<lparr>srv_listener := Some (Listener_new laddr\<lparr>li_fd := fd\<rparr>), srv_status := kInitialized\<rparr>"
  using assms
  by (auto simp: TCPServer_Init_def Listener_Listen_def Let_def assert_that_def Listener_new_def
      SetThreadDispatchPolicy_def TCPServer_new_def split: bind_splits if_splits)

lemma pool_running_new:
  "pool_running (if n = 0 then EventLoopThreadPool_new n\<lparr>lp_status := kRunning\<rparr>
     else started (unat n) (EventLoopThreadPool_new n))"
  by (simp add: pool_running_def started_def EventLoopThreadPool_new_def)

lemma Start_inv:
  assumes E: "env_ok E"
    and init: "TCPServer_Init pton G (SetThreadDispatchPolicy v (TCPServer_new running laddr n)) = Some (True, S0)"
    and sub: "subseq (concat (map (\<lambda>i. [i, i]) [0..<unat n])) sched" and io: "inloop \<Longrightarrow> running"
    and st: "TCPServer_Start (E\<lparr>inLoopThread := inloop\<rparr>) sched S0 = Some (True, S)"
  shows "srv_inv E cb S"
proof -
  obtain fd where S0: "S0 = SetThreadDispatchPolicy v (TCPServer_new running laddr n)
    \<lparr>srv_listener := Some (Listener_new laddr\<lparr>li_fd := fd\<rparr>), srv_status := kInitialized\<rparr>" by (rule Init_state [OF init])
  let ?P = "if n = 0 then EventLoopThreadPool_new n\<lparr>lp_status := kRunning\<rparr> else started (unat n) (EventLoopThreadPool_new n)"
  obtain rest where P: "Pool_Start True sched (EventLoopThreadPool_new n) = Some (True, rest, ?P)"
    using Pool_Start_ok [of "EventLoopThreadPool_new n" sched "[]"] sub by (auto simp: EventLoopThreadPool_new_def)
  define ch where "ch a = \<lparr>read_fn = True, write_fn = False, attached = a, event_present = True, events = kReadable, chan_fd = fd\<rparr>" for a
  define L where "L a = Listener_new laddr\<lparr>li_fd := fd, li_chan := Some (ch a), li_new_conn_fn := True\<rparr>" for a
  have S: "S = S0\<lparr>srv_pool := Some ?P, srv_status := kRunning, srv_listener := Some (L inloop),
      srv_tasks := (if inloop then [] else [AttachListener])\<rparr>"
    using st P io E unfolding S0
    by (cases inloop) (auto simp: TCPServer_Start_def Let_def SetThreadDispatchPolicy_def TCPServer_new_def
        Listener_Accept_def SetNewConnectionCallback_def FdChannel_new_def SetReadCallback_def Listener_new_def
        srv_RunInLoop_def attach_listener_def listener_chan_def AttachToLoop_def IsNoneEvent_def event_consts env_ok_def
        L_def ch_def assert_that_def split: bind_splits if_splits)
  have l: "listener_inv (srv_tasks S) (L inloop)" by (simp add: S listener_inv_def L_def ch_def)
  have "phase_inv cb S"
    using l pool_running_new [of n] by (simp add: S phase_inv_def) (simp add: S0 SetThreadDispatchPolicy_def TCPServer_new_def)
  moreover have "conns_inv E {} S"
    by (simp add: S S0 conns_inv_def SetThreadDispatchPolicy_def TCPServer_new_def map_ok_def)
  ultimately show ?thesis by (simp add: srv_inv_def)
qed

lemma reach_inv:
  assumes "srv_reach E K ntop cb S" and "env_ok E" and "kernel_ok K"
  shows "srv_inv E cb S"
  using assms
proof (induction rule: srv_reach.induct)
  case (start pton G v running laddr n S0 sched inloop S)
  then show ?case by (intro Start_inv)
next
  case (step S op sched S')
  then show ?case using wp_srv_do [of E K cb S op sched ntop] by (simp add: wp_def)
qed


subsection \<open>Draining the queue of the listening loop\<close>

fun srv_drain :: "loop_env \<Rightarrow> nat list \<Rightarrow> nat \<Rightarrow> tcp_server \<Rightarrow> tcp_server option" where
  "srv_drain E sched 0 S = Some S"
| "srv_drain E sched (Suc n) S = do { S \<leftarrow> srv_run_task E sched S; srv_drain E sched n S }"

text \<open>Stopping after \<open>StopInLoop\<close> has run, or stopped, with every connection closed.\<close>

definition winding_down :: "tcp_server \<Rightarrow> bool" where
  "winding_down S \<longleftrightarrow> srv_status S \<in> {kStopping, kStopped} \<and> srv_listener S = None \<and> srv_loop_running S \<and>
     (\<forall>a c. srv_conns S a = Some c \<longrightarrow> conn_closed c)"

lemma winding_down_tasks:
  assumes "winding_down S" and "srv_inv E cb S" and "t \<in> set (srv_tasks S)"
  shows "\<exists>a. t = RemoveTask a"
proof (cases t)
  case (StopTask b)
  then show ?thesis
    using assms by (cases b; cases cb) (auto simp: winding_down_def srv_inv_def phase_inv_def)
qed (use assms in \<open>auto simp: winding_down_def srv_inv_def phase_inv_def\<close>)

lemma StopThreadPool_frame:
  "StopThreadPool E sched S = Some S' \<Longrightarrow> S' = S\<lparr>srv_pool := None, srv_substatus := kSubStatusNull\<rparr>"
  by (auto simp: StopThreadPool_def Let_def split: bind_splits)

lemma remove_in_loop_frame:
  assumes "remove_in_loop E sched a S = Some S'"
  shows "srv_tasks S' = srv_tasks S" "winding_down S \<Longrightarrow> winding_down S'" "sched_ok sched S \<Longrightarrow> sched_ok sched S'"
  using assms
  by (auto simp: remove_in_loop_def Let_def winding_down_def sched_ok_def dest!: StopThreadPool_frame
      split: bind_splits if_splits)

lemma winding_down_step:
  assumes E: "env_ok E" and w: "winding_down S" and i: "srv_inv E cb S" and s: "sched_ok sched S" and "srv_tasks S = t # ts"
  obtains S' where "srv_run_task E sched S = Some S'" "srv_inv E cb S'" "winding_down S'" "sched_ok sched S'" "srv_tasks S' = ts"
proof -
  obtain a where t: "t = RemoveTask a" using winding_down_tasks [OF w i, of t] assms(5) by auto
  have "srv_enabled SrvTask S" using w t assms(5) by (simp add: winding_down_def stop_race_def)
  from wp_SrvTask [OF E i this s] obtain S' where S': "srv_run_task E sched S = Some S'" "srv_inv E cb S'"
    by (auto simp: wp_def)
  then have "remove_in_loop E sched a (S\<lparr>srv_tasks := ts\<rparr>) = Some S'" using t assms(5) by (simp add: srv_run_task_def)
  note f = remove_in_loop_frame [OF this]
  have "winding_down (S\<lparr>srv_tasks := ts\<rparr>)" "sched_ok sched (S\<lparr>srv_tasks := ts\<rparr>)"
    using w s by (simp_all add: winding_down_def sched_ok_def)
  with f S' show thesis by (intro that) simp_all
qed

lemma winding_down_drain:
  assumes "env_ok E" and "winding_down S" and "srv_inv E cb S" and "sched_ok sched S"
  shows "wp (srv_drain E sched (length (srv_tasks S)) S) (\<lambda>S'. srv_inv E cb S' \<and> winding_down S' \<and> srv_tasks S' = [])"
  using assms(2-)
proof (induction "length (srv_tasks S)" arbitrary: S)
  case 0
  then show ?case by simp
next
  case (Suc n)
  then obtain t ts where ts: "srv_tasks S = t # ts" by (cases "srv_tasks S") auto
  obtain S' where S': "srv_run_task E sched S = Some S'" "srv_inv E cb S'" "winding_down S'" "sched_ok sched S'" "srv_tasks S' = ts"
    by (rule winding_down_step [OF assms(1) Suc(3-5) ts])
  with Suc(1) [of S'] Suc(2) ts show ?case by simp
qed

lemma winding_down_done:
  assumes "winding_down S" and "srv_inv E cb S" and "srv_tasks S = []"
  shows "srv_status S = kStopped"
proof (rule ccontr)
  assume "srv_status S \<noteq> kStopped"
  then have "srv_connections S \<noteq> []" using assms by (auto simp: winding_down_def srv_inv_def phase_inv_def)
  then obtain i a where a: "(i, a) \<in> set (srv_connections S)" by (cases "srv_connections S") auto
  have ci: "conns_inv E {} S" using assms(2) by (simp add: srv_inv_def)
  then obtain c where c: "srv_conns S a = Some c"
    using a unfolding conns_inv_def by (metis (mono_tags, lifting) case_prodD not_le option.exhaust)
  have "registered S a" using a by (force simp: registered_def)
  then show False using conns_invD(4) [OF ci c] c assms(1,3) by (auto simp: winding_down_def)
qed

section \<open>Properties\<close>


text \<open>
  C11. Stopping completes: once \<open>StopInLoop\<close> has run and every connection has called its close
  callback, running the functors queued in the listening loop stops the server, calls the
  completion callback exactly once if one was given, and leaves the server ready to be destroyed.
\<close>

theorem TCPServer_Stop_completes:
  assumes "srv_reach E K ntop cb S" and "env_ok E" and "kernel_ok K" and "sched_ok sched S"
    and "srv_status S = kStopping" and "srv_listener S = None" and "srv_loop_running S"
    and "\<And>a c. srv_conns S a = Some c \<Longrightarrow> conn_closed c"
  shows "wp (srv_drain E sched (length (srv_tasks S)) S)
    (\<lambda>S'. srv_status S' = kStopped \<and> srv_done S' = (if cb then 1 else 0) \<and> srv_tasks S' = [] \<and>
       TCPServer_delete S' = Some ())"
proof -
  have i: "srv_inv E cb S" by (rule reach_inv [OF assms(1-3)])
  have w: "winding_down S" using assms(5-8) by (simp add: winding_down_def)
  have end_state: "srv_status S' = kStopped \<and> srv_done S' = (if cb then 1 else 0) \<and> srv_tasks S' = [] \<and>
      TCPServer_delete S' = Some ()"
    if "srv_inv E cb S' \<and> winding_down S' \<and> srv_tasks S' = []" for S'
    using winding_down_done [of S' E cb] that by (simp add: srv_inv_def phase_inv_def TCPServer_delete_def)
  show ?thesis by (rule wp_mono [OF winding_down_drain [OF assms(2) w i assms(4)] end_state])
qed


lemma StopThreadPool_not_stopping: "srv_status S \<noteq> kStopping \<Longrightarrow> StopThreadPool E sched S = None"
  by (simp add: StopThreadPool_def assert_that_def)

lemma StopInLoop_not_stopping:
  "srv_status S \<noteq> kStopping \<Longrightarrow> srv_connections S = [] \<Longrightarrow> TCPServer_StopInLoop E sched cb S = None"
  by (auto simp: TCPServer_StopInLoop_def Let_def StopThreadPool_not_stopping split: bind_splits)

text \<open>
  C33. The race of \<open>Stop\<close> with \<open>RemoveConnection\<close>: \<open>Stop\<close>, called from another thread, stores
  \<open>kStopping\<close> at once and queues \<open>StopInLoop\<close>. If the removal of the last connection is queued
  before it, that removal stops the pool and declares the server stopped without calling the
  completion callback, and \<open>StopInLoop\<close> then aborts.
\<close>

theorem TCPServer_Stop_race:
  assumes "srv_reach E K ntop cb S" and "env_ok E" and "kernel_ok K" and "sched_ok sched S"
    and "srv_status S = kRunning" and "srv_connections S = [(i, a)]" and "srv_tasks S = [RemoveTask a]"
  shows "wp (do { S \<leftarrow> TCPServer_Stop (E\<lparr>inLoopThread := False\<rparr>) sched cb S; srv_run_task E sched S })
    (\<lambda>S'. srv_status S' = kStopped \<and> srv_done S' = 0 \<and> srv_run_task E sched S' = None)"
proof -
  have inv: "srv_inv E cb S" by (rule reach_inv [OF assms(1-3)])
  then have ci: "conns_inv E {} S" by (simp add: srv_inv_def)
  have T: "inLoopThread E" using assms(2) by (simp add: env_ok_def)
  obtain P where P: "srv_pool S = Some P" "pool_running P" "srv_done S = 0" "\<not> srv_stopped_cb S"
    using inv assms(5) by (auto simp: srv_inv_def phase_inv_def)
  have a: "a < srv_alloc S" "i = of_nat (Suc a)" using ci assms(6) by (auto simp: conns_inv_def)
  then obtain c where c: "srv_conns S a = Some c" using ci unfolding conns_inv_def by (metis not_le option.exhaust)
  have id: "conn_id c = i" using conns_invD(2) [OF ci c] a by (simp add: conn_kept_def)
  let ?S = "S\<lparr>srv_status := kStopping, srv_substatus := kStoppingListener, srv_tasks := [StopTask cb], srv_connections := []\<rparr>"
  have st: "StopThreadPool E sched ?S = Some (?S\<lparr>srv_pool := None, srv_substatus := kSubStatusNull\<rparr>)"
    by (rule wp_StopThreadPool) (use T P assms(4) in \<open>simp_all add: sched_ok_def\<close>)
  let ?S' = "?S\<lparr>srv_pool := None, srv_substatus := kSubStatusNull, srv_done := 0, srv_stopped_cb := False, srv_status := kStopped\<rparr>"
  have "do { S \<leftarrow> TCPServer_Stop (E\<lparr>inLoopThread := False\<rparr>) sched cb S; srv_run_task E sched S } = Some ?S'"
    using assms(5-7) T c id P(3,4) st
    by (simp add: TCPServer_Stop_def srv_RunInLoop_def srv_run_task_def remove_in_loop_def)
  moreover have "srv_run_task E sched ?S' = None"
    by (simp add: srv_run_task_def StopInLoop_not_stopping)
  ultimately show ?thesis by simp
qed


text \<open>
  \<open>Stop\<close> misses a connection that its worker loop has not attached yet: \<open>StopInLoop\<close> closes only
  connected ones, so when the worker attaches it, it becomes an ordinary connection with nothing
  queued that would close it, and the server keeps stopping for as long as the peer likes.
\<close>

lemma close_connection_keeps:
  assumes "srv_conns S a = Some c" and "\<not> conn_IsConnected c" and "close_connection S b = Some S'"
  shows "srv_conns S' a = Some c" "srv_attach S' = srv_attach S" "srv_status S' = srv_status S"
  using assms by (auto simp: close_connection_def split: bind_splits if_splits)

lemma foldM_close_keeps:
  assumes "foldM close_connection S bs = Some S'" and "srv_conns S a = Some c" and "\<not> conn_IsConnected c"
  shows "srv_conns S' a = Some c \<and> srv_attach S' = srv_attach S \<and> srv_status S' = srv_status S"
  using assms
proof (induction bs arbitrary: S)
  case (Cons b bs)
  then obtain S1 where S1: "close_connection S b = Some S1" "foldM close_connection S1 bs = Some S'"
    by (auto split: bind_splits)
  note k = close_connection_keeps [OF Cons(3,4) S1(1)]
  show ?case using Cons(1) [OF S1(2) k(1) Cons(4)] k(2,3) by simp
qed simp

lemma TCPServer_Stop_misses_unattached:
  assumes "srv_reach E K ntop cb S" and "env_ok E" and "kernel_ok K" and "sched_ok sched S"
    and "srv_enabled (SrvStop True) S" and "a \<in> set (srv_attach S)" and "srv_conns S a = Some c"
  shows "wp (do { S \<leftarrow> TCPServer_Stop (E\<lparr>inLoopThread := True\<rparr>) sched cb S; srv_run_attach E sched a S })
    (\<lambda>S'. srv_status S' = kStopping \<and> (\<exists>c'. srv_conns S' a = Some c' \<and> status c' = kConnected \<and>
       conn_tasks c' = conn_tasks c))"
proof -
  have inv: "srv_inv E cb S" by (rule reach_inv [OF assms(1-3)])
  then have ci: "conns_inv E {} S" by (simp add: srv_inv_def)
  have w: "waiting_conn E c" "conn_fn c" using conns_invD(2) [OF ci assms(7)] assms(6) by (simp_all add: conn_kept_def)
  then have nc: "\<not> conn_IsConnected c" "\<not> conn_closed c" by (auto simp: waiting_conn_def conn_IsConnected_def conn_closed_def)
  have ne: "srv_connections S \<noteq> []" using conns_invD(3) [OF ci assms(7) nc(2)] by (auto simp: registered_def)
  obtain S' where S': "TCPServer_Stop (E\<lparr>inLoopThread := True\<rparr>) sched cb S = Some S'"
    using wp_SrvStop [OF assms(2) inv assms(5,4)] by (auto simp: wp_def)
  have "srv_conns S' a = Some c \<and> srv_attach S' = srv_attach S \<and> srv_status S' = kStopping"
    using S' assms(5) ne nc assms(7)
    by (auto simp: TCPServer_Stop_def srv_RunInLoop_def TCPServer_StopInLoop_def Let_def dest!: foldM_close_keeps [of _ _ _ a c]
        split: bind_splits if_splits)
  moreover obtain c' where "OnAttachedToLoop E c = Some c'" "status c' = kConnected" "conn_log c' = [ConnCallback kConnected]"
    "conn_tasks c' = conn_tasks c" "conn_log c = []"
    using w(1) by (auto simp: waiting_conn_def wp_def)
  ultimately show ?thesis
    using S' by (simp add: srv_run_attach_def on_server_conn_def srv_event_def log_callbacks_def)
qed


section \<open>A server run\<close>

text \<open>One worker, one connection, which is attached and closes.\<close>

definition run_env :: loop_env where
  "run_env = \<lparr>inLoopThread = True, event_add_ok = True, event_del_ok = True\<rparr>"

definition run_kernel :: ksend where
  "run_kernel i d = Inr (length d)"

definition run_ntop :: ntop where
  "run_ntop f b = Some ''10.0.0.2''"

definition run_pton :: pton where
  "run_pton f s = Some [0, 0, 0, 0]"

definition run_listen :: listen_env where
  "run_listen = \<lparr>k_socket = 5, k_bind = (\<lambda>_. 0), k_listen = 0\<rparr>"

definition run_peer :: bytes where
  "run_peer = [2, 0, 0, 80, 10, 0, 0, 2] @ replicate 8 0"

definition run_ops :: "srv_op list" where
  "run_ops = [SrvLoop, SrvTask, SrvAccept (Inr (7, run_peer, True)), SrvAttach 0, SrvConn 0 OpClose, SrvConn 0 OpTask]"

definition run_started :: tcp_server where
  "run_started = (TCPServer_new False ''0.0.0.0:80'' 1)
     \<lparr>srv_listener := Some \<lparr>li_fd = 5, li_addr = ''0.0.0.0:80'', li_chan = Some \<lparr>read_fn = True, write_fn = False,
        attached = False, event_present = True, events = kReadable, chan_fd = 5\<rparr>, li_new_conn_fn = True\<rparr>,
      srv_status := kRunning, srv_pool := Some (started 1 (EventLoopThreadPool_new 1)), srv_tasks := [AttachListener]\<rparr>"

lemma run_ok: "env_ok run_env" "kernel_ok run_kernel"
  by (simp_all add: run_env_def env_ok_def run_kernel_def kernel_ok_def)

lemma run_reach: "srv_reach run_env run_kernel run_ntop cb run_started"
proof -
  let ?new = "SetThreadDispatchPolicy kRoundRobin (TCPServer_new False ''0.0.0.0:80'' 1)"
  let ?S = "?new\<lparr>srv_listener := Some (Listener_new ''0.0.0.0:80''\<lparr>li_fd := 5\<rparr>), srv_status := kInitialized\<rparr>"
  have "ParseFromIPPort_value run_pton ''0.0.0.0:80'' \<noteq> None" by code_simp
  then have init: "TCPServer_Init run_pton run_listen ?new = Some (True, ?S)"
    by (auto simp: TCPServer_Init_def Listener_Listen_def run_listen_def SetThreadDispatchPolicy_def TCPServer_new_def
        Listener_new_def Let_def)
  obtain rest where "Pool_Start True [0, 0] (EventLoopThreadPool_new 1) = Some (True, rest, started 1 (EventLoopThreadPool_new 1))"
    using Pool_Start_ok [of "EventLoopThreadPool_new 1" "[0, 0]" "[]"] by (auto simp: EventLoopThreadPool_new_def)
  then have "TCPServer_Start (run_env\<lparr>inLoopThread := False\<rparr>) [0, 0] ?S = Some (True, run_started)"
    by (simp add: TCPServer_Start_def Let_def SetThreadDispatchPolicy_def TCPServer_new_def run_started_def
        Listener_Accept_def SetNewConnectionCallback_def FdChannel_new_def SetReadCallback_def Listener_new_def
        srv_RunInLoop_def started_def EventLoopThreadPool_new_def)
  then show ?thesis by (intro srv_reach.start [OF init]) simp_all
qed

lemma run_sched: "sched_ok [0, 0] S \<longleftrightarrow> (case srv_pool S of None \<Rightarrow> True | Some P \<Rightarrow> unat (lp_thread_num P) \<le> 1)"
proof -
  have "(\<forall>i<n. 2 \<le> count_list [0, 0] i) \<longleftrightarrow> n \<le> 1" for n :: nat
    by (cases n) auto
  then show ?thesis by (simp add: sched_ok_def split: option.splits)
qed

lemmas run_defs = run_started_def TCPServer_new_def started_def EventLoopThreadPool_new_def run_env_def run_sched
  srv_run_task_def attach_listener_def listener_chan_def AttachToLoop_def IsNoneEvent_def event_consts
  Listener_HandleAccept_def Let_def TCPServer_HandleNewConn_def TCPServer_GetNextLoop_def Pool_GetNextLoop_def
  TCPConn_new_def FdChannel_new_def SetWriteCallback_def SetReadCallback_def srv_run_attach_def on_server_conn_def
  OnAttachedToLoop_def on_chan_def EnableReadEvent_def FdChannel_Update_def callback_def srv_event_def log_callbacks_def
  lp_threads_def set_events_def TCPConn_Close_def queue_task_def HandleClose_def DisableAllEvent_def DetachFromLoop_def
  FdChannel_Close_def TCPServer_RemoveConnection_def srv_RunInLoop_def stop_race_def conn_closed_def

lemma run_closed:
  "wp (srv_run run_env run_kernel run_ntop cb [0, 0] run_ops run_started)
    (\<lambda>S. srv_status S = kRunning \<and> srv_tasks S = [RemoveTask 0] \<and> srv_connections S = [(1, 0)] \<and>
       srv_loop_running S \<and> sched_ok [0, 0] S \<and> (\<forall>a c. srv_conns S a = Some c \<longrightarrow> conn_closed c))"
proof -
  obtain b where b: "Buffer_new kInitialSize kCheapPrependSize = Some b"
    using wp_Buffer_new [of kInitialSize kCheapPrependSize] by (auto simp: wp_def)
  have p: "ToIPPort run_ntop run_peer \<noteq> []" by code_simp
  show ?thesis by (simp add: run_ops_def b p run_defs)
qed

lemma run_stopping:
  "wp (srv_run run_env run_kernel run_ntop cb [0, 0] (run_ops @ [SrvStop True]) run_started)
    (\<lambda>S. srv_status S = kStopping \<and> srv_listener S = None \<and> srv_tasks S = [RemoveTask 0] \<and>
       srv_loop_running S \<and> sched_ok [0, 0] S \<and> (\<forall>a c. srv_conns S a = Some c \<longrightarrow> conn_closed c))"
proof -
  obtain b where b: "Buffer_new kInitialSize kCheapPrependSize = Some b"
    using wp_Buffer_new [of kInitialSize kCheapPrependSize] by (auto simp: wp_def)
  have p: "ToIPPort run_ntop run_peer \<noteq> []" by code_simp
  show ?thesis
    by (simp add: run_ops_def b p run_defs TCPServer_Stop_def TCPServer_StopInLoop_def Listener_Stop_def
        Listener_delete_def FdChannel_delete_def close_connection_def conn_IsConnected_def)
qed

lemma run_wp_reach:
  "wp (srv_run run_env run_kernel run_ntop cb sched ops run_started) Q \<Longrightarrow>
   \<exists>S. srv_reach run_env run_kernel run_ntop cb S \<and> Q S"
  unfolding wp_def using srv_run_reach [OF _ run_reach] by blast

lemma run_closed_state:
  obtains S where "srv_reach run_env run_kernel run_ntop cb S" "srv_status S = kRunning" "srv_tasks S = [RemoveTask 0]"
    "srv_connections S = [(1, 0)]" "sched_ok [0, 0] S"
  using run_wp_reach [OF run_closed] by blast


theorem TCPServer_Stop_completes_witness:
  "\<exists>S. srv_reach run_env run_kernel run_ntop True S \<and> srv_tasks S = [RemoveTask 0] \<and>
     wp (srv_drain run_env [0, 0] (length (srv_tasks S)) S)
       (\<lambda>S'. srv_status S' = kStopped \<and> srv_done S' = (if True then 1 else 0) \<and> srv_tasks S' = [] \<and>
          TCPServer_delete S' = Some ())"
proof -
  obtain S where r: "srv_reach run_env run_kernel run_ntop True S" "srv_status S = kStopping" "srv_listener S = None"
      "srv_tasks S = [RemoveTask 0]" "srv_loop_running S" "sched_ok [0, 0] S"
      "\<And>a c. srv_conns S a = Some c \<Longrightarrow> conn_closed c"
    using run_wp_reach [OF run_stopping] by blast
  have "wp (srv_drain run_env [0, 0] (length (srv_tasks S)) S)
       (\<lambda>S'. srv_status S' = kStopped \<and> srv_done S' = (if True then 1 else 0) \<and> srv_tasks S' = [] \<and>
          TCPServer_delete S' = Some ())"
    by (rule TCPServer_Stop_completes [OF r(1) run_ok r(6,2,3,5)]) (rule r(7))
  with r(1,4) show ?thesis by blast
qed

theorem TCPServer_Stop_race_witness:
  "\<exists>S. srv_reach run_env run_kernel run_ntop True S \<and>
     wp (do { S \<leftarrow> TCPServer_Stop (run_env\<lparr>inLoopThread := False\<rparr>) [0, 0] True S; srv_run_task run_env [0, 0] S })
       (\<lambda>S'. srv_status S' = kStopped \<and> srv_done S' = 0 \<and> srv_run_task run_env [0, 0] S' = None)"
proof -
  obtain S where r: "srv_reach run_env run_kernel run_ntop True S" "srv_status S = kRunning" "srv_tasks S = [RemoveTask 0]"
    "srv_connections S = [(1, 0)]" "sched_ok [0, 0] S"
    by (rule run_closed_state)
  from TCPServer_Stop_race [OF r(1) run_ok r(5,2,4,3)] r(1) show ?thesis by blast
qed

end
