(* ===== verification/Packet.thy ===== *)
theory Packet
  imports Buffer
begin

text \<open>
  Packets (\<open>common/net/packet.h\<close>, \<open>packet.cc\<close>), control packets (\<open>controlpacket.h\<close>,
  \<open>controlpacket.cc\<close>), the packet factory and the packet handler interfaces.

  A packet object is a record of its \<open>Packet\<close> part and of \<open>'b\<close>, the part its derived class
  adds. The virtual functions of derived classes are the user's code: they come as the record
  \<open>packet_class\<close>, an argument of every operation that calls them. Packets live in a heap of
  type \<open>'b pheap\<close>; an address without an object is unallocated or deleted.
\<close>

unbundle bit_operations_syntax

section \<open>Packets\<close>

type_synonym pptr = nat
type_synonym chptr = nat

definition QYNET_PACKET_FLAG :: u32 where
  "QYNET_PACKET_FLAG = 0x51594b4a"

record packet_header =
  chid :: u32
  pcode :: u32
  dataLen :: u32

record 'b packet =
  packetHeader :: packet_header
  packet_expireTime :: u64
  packet_channel :: "chptr option"
  packet_next :: "pptr option"
  body :: 'b

type_synonym 'b pheap = "pptr \<Rightarrow> 'b packet option"

definition header_zero :: packet_header where
  "header_zero = \<lparr> chid = 0, pcode = 0, dataLen = 0 \<rparr>"

definition Packet_new :: "'b \<Rightarrow> 'b packet" where
  "Packet_new x = \<lparr> packetHeader = header_zero, packet_expireTime = 0, packet_channel = None,
                    packet_next = None, body = x \<rparr>"

definition Packet_SetChannelId :: "'b packet \<Rightarrow> u32 \<Rightarrow> 'b packet" where
  "Packet_SetChannelId p c = p\<lparr> packetHeader := (packetHeader p)\<lparr> chid := c \<rparr> \<rparr>"

definition Packet_GetChannelId :: "'b packet \<Rightarrow> u32" where
  "Packet_GetChannelId p = chid (packetHeader p)"

definition Packet_SetPCode :: "'b packet \<Rightarrow> u32 \<Rightarrow> 'b packet" where
  "Packet_SetPCode p c = p\<lparr> packetHeader := (packetHeader p)\<lparr> pcode := c \<rparr> \<rparr>"

definition Packet_GetPCode :: "'b packet \<Rightarrow> u32" where
  "Packet_GetPCode p = pcode (packetHeader p)"

definition Packet_GetPacketHeader :: "'b packet \<Rightarrow> packet_header" where
  "Packet_GetPacketHeader p = packetHeader p"

definition Packet_SetPacketHeader :: "'b packet \<Rightarrow> packet_header option \<Rightarrow> 'b packet" where
  "Packet_SetPacketHeader p header =
     (case header of Some h \<Rightarrow> p\<lparr> packetHeader := h \<rparr> | None \<Rightarrow> p)"

definition Packet_GetExpireTime :: "'b packet \<Rightarrow> u64" where
  "Packet_GetExpireTime p = packet_expireTime p"

text \<open>\<open>gettimeofday\<close> is read by the caller of the definition: \<open>tv_sec\<close> and \<open>tv_usec\<close>.\<close>

definition Packet_SetExpireTime :: "u64 \<Rightarrow> u64 \<Rightarrow> 'b packet \<Rightarrow> u32 \<Rightarrow> 'b packet" where
  "Packet_SetExpireTime tv_sec tv_usec p milliseconds =
     (let ms = (if milliseconds = 0 then 1000 * 86400 else milliseconds)
      in p\<lparr> packet_expireTime := tv_sec * 1000000 + tv_usec + scast ms * 1000 \<rparr>)"

text \<open>A channel pointer comes with the identifier \<open>channel->GetId()\<close> reads from it.\<close>

definition Packet_SetChannel :: "'b packet \<Rightarrow> (chptr \<times> u32) option \<Rightarrow> 'b packet" where
  "Packet_SetChannel p channel =
     (case channel of
        Some (c, i) \<Rightarrow> p\<lparr> packet_channel := Some c,
                          packetHeader := (packetHeader p)\<lparr> chid := i \<rparr> \<rparr>
      | None \<Rightarrow> p)"

definition Packet_GetChannel :: "'b packet \<Rightarrow> chptr option" where
  "Packet_GetChannel p = packet_channel p"

definition Packet_GetNext :: "'b packet \<Rightarrow> pptr option" where
  "Packet_GetNext p = packet_next p"

section \<open>Virtual functions of derived packet classes\<close>

text \<open>
  \<open>Encode\<close> and \<open>Decode\<close> return whether they succeeded, the derived part and the buffer
  afterwards, or fault; \<open>free_deletes\<close> says whether \<open>Free\<close> is the inherited \<open>delete this\<close> or
  an override that does nothing; \<open>CreatePacket\<close> is the packet factory, which may return a null
  pointer.
\<close>

record 'b packet_class =
  vEncode :: "'b \<Rightarrow> buffer \<Rightarrow> (bool \<times> 'b \<times> buffer) option"
  vDecode :: "'b \<Rightarrow> buffer \<Rightarrow> packet_header \<Rightarrow> (bool \<times> 'b \<times> buffer) option"
  free_deletes :: bool
  CreatePacket :: "u32 \<Rightarrow> 'b option"

definition Packet_Free :: "'b packet_class \<Rightarrow> 'b pheap \<Rightarrow> pptr \<Rightarrow> 'b pheap" where
  "Packet_Free cls h p = (if free_deletes cls then h(p := None) else h)"

section \<open>Control packets and what a handler receives\<close>

datatype command = CMD_BAD_PACKET | CMD_TIMEOUT_PACKET | CMD_DISCONN_PACKET

text \<open>
  A handler gets a pointer to a regular packet or one of the three static control packets.
\<close>

datatype packet_arg = Regular pptr | Control command

definition BadPacket :: packet_arg where
  "BadPacket = Control CMD_BAD_PACKET"

definition TimeoutPacket :: packet_arg where
  "TimeoutPacket = Control CMD_TIMEOUT_PACKET"

definition DisconnPacket :: packet_arg where
  "DisconnPacket = Control CMD_DISCONN_PACKET"

fun IsRegularPacket :: "packet_arg \<Rightarrow> bool" where
  "IsRegularPacket (Regular p) = True"
| "IsRegularPacket (Control c) = False"

fun command_code :: "command \<Rightarrow> u32" where
  "command_code CMD_BAD_PACKET = 1"
| "command_code CMD_TIMEOUT_PACKET = 2"
| "command_code CMD_DISCONN_PACKET = 3"

fun GetCommand :: "packet_arg \<Rightarrow> u32 option" where
  "GetCommand (Control c) = Some (command_code c)"
| "GetCommand (Regular p) = None"

definition ControlPacket_Encode :: "buffer \<Rightarrow> bool \<times> buffer" where
  "ControlPacket_Encode output = (False, output)"

definition ControlPacket_Decode :: "buffer \<Rightarrow> packet_header \<Rightarrow> bool \<times> buffer" where
  "ControlPacket_Decode input header = (False, input)"

datatype HPRetCode = KEEP_CHANNEL | CLOSE_CHANNEL | FREE_CHANNEL

section \<open>Lemmas\<close>

text \<open>
  The expiry time of a packet is the wall-clock time plus the time-out, in microseconds,
  computed without overflow for every clock value of the next thousands of years; a time-out
  of 0 stands for 24 hours.
\<close>

theorem Packet_SetExpireTime_value:
  assumes "0 \<le> sint tv_sec" and "sint tv_sec < 2 ^ 42" and "0 \<le> sint tv_usec" and "sint tv_usec < 1000000"
  shows "sint (packet_expireTime (Packet_SetExpireTime tv_sec tv_usec p ms)) =
           sint tv_sec * 1000000 + sint tv_usec +
           (if ms = 0 then 86400000 else sint ms) * 1000"
proof -
  define m where "m = (if ms = 0 then 86400000 else ms)"
  have m: "sint m = (if ms = 0 then 86400000 else sint ms)" by (simp add: m_def)
  define i where "i = sint tv_sec * 1000000 + sint tv_usec + sint m * 1000"
  have w: "tv_sec = word_of_int (sint tv_sec)" "tv_usec = word_of_int (sint tv_usec)" by simp_all
  have "packet_expireTime (Packet_SetExpireTime tv_sec tv_usec p ms) =
          tv_sec * 1000000 + tv_usec + scast m * 1000"
    by (simp add: Packet_SetExpireTime_def Let_def m_def)
  also have "\<dots> = word_of_int i"
    by (subst w(1), subst w(2), simp only: scast_word_of_int i_def wi_hom_syms)
      (simp add: wi_hom_syms)
  finally have e: "packet_expireTime (Packet_SetExpireTime tv_sec tv_usec p ms) = word_of_int i" .
  have "- (2 ^ 63) \<le> i" "i < 2 ^ 63"
    using assms sint32_lower [of m] sint32_upper [of m] by (simp_all add: i_def)
  then show ?thesis unfolding e by (simp only: sint64_of_int i_def m)
qed

theorem Packet_SetExpireTime_value_witness:
  "sint (packet_expireTime (Packet_SetExpireTime 1500000000 7 (Packet_new ()) 0)) =
     sint (1500000000 :: u64) * 1000000 + sint (7 :: u64) +
     (if (0 :: u32) = 0 then 86400000 else sint (0 :: u32)) * 1000"
  by (rule Packet_SetExpireTime_value) simp_all

end
