(* ===== verification/PacketQueue.thy ===== *)
theory PacketQueue
  imports Packet
begin

text \<open>
  The packet queue (\<open>common/net/packetqueue.h\<close>, \<open>packetqueue.cc\<close>): packets chained through
  their \<open>next_\<close> pointers between \<open>head_\<close> and \<open>tail_\<close>. The definitions work on the packet heap,
  pointer by pointer; \<open>pq_rel h q ps\<close> says that the queue \<open>q\<close> represents the list \<open>ps\<close> of packet
  addresses, and each operation refines the list operation it is meant to be. Loops are
  \<open>partial_function\<close>s, so that a loop over a cyclic chain has no value; the lemmas show that
  on a represented queue every loop ends.
\<close>

section \<open>Operations\<close>

record pqueue =
  q_head :: "pptr option"
  q_tail :: "pptr option"
  q_size :: u32

definition PacketQueue_new :: pqueue where
  "PacketQueue_new = \<lparr> q_head = None, q_tail = None, q_size = 0 \<rparr>"

text \<open>A write through a pointer: \<open>p->next_ = n\<close>.\<close>

definition set_next :: "'b pheap \<Rightarrow> pptr \<Rightarrow> pptr option \<Rightarrow> 'b pheap option" where
  "set_next h p n = do { pk \<leftarrow> h p; Some (h(p \<mapsto> pk\<lparr> packet_next := n \<rparr>)) }"

definition PacketQueue_Pop :: "'b pheap \<Rightarrow> pqueue \<Rightarrow> (pptr option \<times> pqueue) option" where
  "PacketQueue_Pop h q =
     (case q_head q of
        None \<Rightarrow> Some (None, q)
      | Some packet \<Rightarrow> do {
          pk \<leftarrow> h packet;
          let q = q\<lparr> q_head := packet_next pk \<rparr>;
          let q = (if q_head q = None then q\<lparr> q_tail := None \<rparr> else q);
          Some (Some packet, q\<lparr> q_size := q_size q - 1 \<rparr>) })"

partial_function (option) PacketQueue_Clear_loop ::
    "'b packet_class \<Rightarrow> 'b pheap \<Rightarrow> pqueue \<Rightarrow> ('b pheap \<times> pqueue) option" where
  "PacketQueue_Clear_loop cls h q =
     (case q_head q of
        None \<Rightarrow> Some (h, q)
      | Some packet \<Rightarrow> do {
          pk \<leftarrow> h packet;
          PacketQueue_Clear_loop cls (Packet_Free cls h packet) (q\<lparr> q_head := packet_next pk \<rparr>) })"

definition PacketQueue_Clear ::
    "'b packet_class \<Rightarrow> 'b pheap \<Rightarrow> pqueue \<Rightarrow> ('b pheap \<times> pqueue) option" where
  "PacketQueue_Clear cls h q =
     (if q_head q = None then Some (h, q)
      else do {
        (h, q) \<leftarrow> PacketQueue_Clear_loop cls h q;
        Some (h, q\<lparr> q_head := None, q_tail := None, q_size := 0 \<rparr>) })"

definition PacketQueue_Push ::
    "'b pheap \<Rightarrow> pqueue \<Rightarrow> pptr option \<Rightarrow> ('b pheap \<times> pqueue) option" where
  "PacketQueue_Push h q packet =
     (case packet of
        None \<Rightarrow> Some (h, q)
      | Some p \<Rightarrow> do {
          h \<leftarrow> set_next h p None;
          (h, q) \<leftarrow> (case q_tail q of
             None \<Rightarrow> Some (h, q\<lparr> q_head := Some p \<rparr>)
           | Some t \<Rightarrow> do { h \<leftarrow> set_next h t (Some p); Some (h, q) });
          Some (h, q\<lparr> q_tail := Some p, q_size := q_size q + 1 \<rparr>) })"

definition PacketQueue_Size :: "pqueue \<Rightarrow> u32" where
  "PacketQueue_Size q = q_size q"

definition PacketQueue_Empty :: "pqueue \<Rightarrow> bool" where
  "PacketQueue_Empty q \<longleftrightarrow> q_size q = 0"

definition PacketQueue_MoveTo ::
    "'b pheap \<Rightarrow> pqueue \<Rightarrow> pqueue \<Rightarrow> ('b pheap \<times> pqueue \<times> pqueue) option" where
  "PacketQueue_MoveTo h q dest =
     (if q_head q = None then Some (h, q, dest)
      else do {
        (h, dest) \<leftarrow> (case q_tail dest of
           None \<Rightarrow> Some (h, dest\<lparr> q_head := q_head q \<rparr>)
         | Some t \<Rightarrow> do { h \<leftarrow> set_next h t (q_head q); Some (h, dest) });
        Some (h, q\<lparr> q_head := None, q_tail := None, q_size := 0 \<rparr>,
              dest\<lparr> q_tail := q_tail q, q_size := q_size dest + q_size q \<rparr>) })"

partial_function (option) PacketQueue_timeout_loop ::
    "u64 \<Rightarrow> 'b pheap \<Rightarrow> pqueue \<Rightarrow> pptr option \<Rightarrow> pptr option \<Rightarrow>
     ('b pheap \<times> pqueue \<times> pptr option \<times> pptr option) option" where
  "PacketQueue_timeout_loop now h q list tail =
     (case q_head q of
        None \<Rightarrow> Some (h, q, list, tail)
      | Some p \<Rightarrow> do {
          pk \<leftarrow> h p;
          let t = Packet_GetExpireTime pk;
          if t = 0 \<or> sint now \<le> sint t then Some (h, q, list, tail)
          else do {
            (h, list) \<leftarrow> (case tail of
               None \<Rightarrow> Some (h, q_head q)
             | Some t' \<Rightarrow> do { h \<leftarrow> set_next h t' (q_head q); Some (h, list) });
            let tail = q_head q;
            pk \<leftarrow> h p;
            let q = q\<lparr> q_head := packet_next pk \<rparr>;
            let q = (if q_head q = None then q\<lparr> q_tail := None \<rparr> else q);
            PacketQueue_timeout_loop now h (q\<lparr> q_size := q_size q - 1 \<rparr>) list tail } })"

definition PacketQueue_GetTimeoutList ::
    "'b pheap \<Rightarrow> pqueue \<Rightarrow> u64 \<Rightarrow> (pptr option \<times> 'b pheap \<times> pqueue) option" where
  "PacketQueue_GetTimeoutList h q now = do {
     (h, q, list, tail) \<leftarrow> PacketQueue_timeout_loop now h q None None;
     (case tail of
        None \<Rightarrow> Some (list, h, q)
      | Some t' \<Rightarrow> do { h \<leftarrow> set_next h t' None; Some (list, h, q) }) }"

definition PacketQueue_GetPacketList :: "pqueue \<Rightarrow> pptr option" where
  "PacketQueue_GetPacketList q = q_head q"

definition PacketQueue_Head :: "pqueue \<Rightarrow> pptr option" where
  "PacketQueue_Head q = q_head q"

definition PacketQueue_Tail :: "pqueue \<Rightarrow> pptr option" where
  "PacketQueue_Tail q = q_tail q"

section \<open>Chains of packets\<close>

fun plseg :: "'b pheap \<Rightarrow> pptr option \<Rightarrow> pptr list \<Rightarrow> pptr option \<Rightarrow> bool" where
  "plseg h p [] r \<longleftrightarrow> p = r"
| "plseg h p (a # as) r \<longleftrightarrow> p = Some a \<and>
     (case h a of None \<Rightarrow> False | Some pk \<Rightarrow> plseg h (packet_next pk) as r)"

definition pq_rel :: "'b pheap \<Rightarrow> pqueue \<Rightarrow> pptr list \<Rightarrow> bool" where
  "pq_rel h q ps \<longleftrightarrow> plseg h (q_head q) ps None \<and> distinct ps \<and>
     q_tail q = (if ps = [] then None else Some (last ps)) \<and> q_size q = of_nat (length ps)"

lemma plseg_append: "plseg h p (as @ bs) r \<longleftrightarrow> (\<exists>m. plseg h p as m \<and> plseg h m bs r)"
  by (induction as arbitrary: p) (auto split: option.splits)

lemma plseg_frame [simp]: "a \<notin> set as \<Longrightarrow> plseg (h(a := x)) p as r = plseg h p as r"
  by (induction as arbitrary: p) (auto split: option.splits)

lemma plseg_alloc: "plseg h p as r \<Longrightarrow> a \<in> set as \<Longrightarrow> h a \<noteq> None"
  by (induction as arbitrary: p) (auto split: option.splits)

lemma plseg_None [simp]: "plseg h None as None \<longleftrightarrow> as = []"
  by (cases as) auto

lemma plseg_Some:
  "plseg h (Some a) as None \<longleftrightarrow>
     (\<exists>as' pk. as = a # as' \<and> h a = Some pk \<and> plseg h (packet_next pk) as' None)"
  by (cases as) (auto split: option.splits)

text \<open>Redirecting the last \<open>next_\<close> of a chain.\<close>

lemma plseg_set_next:
  assumes "plseg h p (as @ [t]) r" and "distinct (as @ [t])"
  shows "wp (set_next h t n) (\<lambda>h'. plseg h' p (as @ [t]) n \<and>
           (\<forall>ps p r. t \<notin> set ps \<longrightarrow> plseg h' p ps r = plseg h p ps r) \<and>
           (\<forall>a. h' a = None \<longleftrightarrow> h a = None))"
  using assms by (auto simp: set_next_def plseg_append split: option.splits)

section \<open>Each operation refines its list operation\<close>

lemma pq_rel_Nil: "pq_rel h q [] \<longleftrightarrow> q = PacketQueue_new"
  by (auto simp: pq_rel_def PacketQueue_new_def)

lemma pq_rel_Cons:
  "pq_rel h q (a # as) \<longleftrightarrow> q_head q = Some a \<and> a \<notin> set as \<and> h a \<noteq> None \<and>
     q_tail q = Some (last (a # as)) \<and> q_size q = of_nat (Suc (length as)) \<and> distinct as \<and>
     (\<forall>pk. h a = Some pk \<longrightarrow> plseg h (packet_next pk) as None)"
  by (auto simp: pq_rel_def split: option.splits)

lemma pq_rel_snoc:
  "pq_rel h q (as @ [t]) \<longleftrightarrow> plseg h (q_head q) (as @ [t]) None \<and> distinct (as @ [t]) \<and>
     q_tail q = Some t \<and> q_size q = of_nat (Suc (length as))"
  by (simp add: pq_rel_def)

lemma pq_rel_head: "pq_rel h q ps \<Longrightarrow> q_head q = None \<longleftrightarrow> ps = []"
  by (cases ps) (auto simp: pq_rel_def)

lemma pq_rel_tail: "pq_rel h q ps \<Longrightarrow> q_tail q = None \<longleftrightarrow> ps = []"
  by (auto simp: pq_rel_def)

lemma pq_rel_alloc: "pq_rel h q ps \<Longrightarrow> a \<in> set ps \<Longrightarrow> h a \<noteq> None"
  by (auto simp: pq_rel_def dest: plseg_alloc)

lemma pq_rel_frame [simp]: "a \<notin> set ps \<Longrightarrow> pq_rel (h(a := x)) q ps = pq_rel h q ps"
  by (simp add: pq_rel_def)

lemma wp_Pop [wp_rules]:
  assumes "pq_rel h q ps"
  shows "wp (PacketQueue_Pop h q) (\<lambda>(r, q').
           (case ps of [] \<Rightarrow> r = None \<and> q' = q | a # as \<Rightarrow> r = Some a \<and> pq_rel h q' as))"
proof (cases ps)
  case Nil
  with assms show ?thesis by (simp add: pq_rel_Nil PacketQueue_Pop_def PacketQueue_new_def)
next
  case (Cons a as)
  with assms show ?thesis
    by (cases as) (auto simp: pq_rel_Cons PacketQueue_Pop_def Let_def pq_rel_Nil PacketQueue_new_def
        split: option.splits)
qed

lemma wp_Push [wp_rules]:
  assumes rel: "pq_rel h q ps" and p: "h p \<noteq> None" "p \<notin> set ps"
  shows "wp (PacketQueue_Push h q (Some p)) (\<lambda>(h', q'). pq_rel h' q' (ps @ [p]) \<and>
           (\<forall>a. h' a = None \<longleftrightarrow> h a = None))"
proof (cases ps rule: rev_cases)
  case Nil
  with assms show ?thesis
    by (auto simp: PacketQueue_Push_def set_next_def pq_rel_Nil PacketQueue_new_def pq_rel_def)
next
  case (snoc as t)
  then have t: "q_tail q = Some t" "h t \<noteq> None" "t \<noteq> p" "p \<notin> set as" using rel p
    by (auto simp: pq_rel_snoc dest: plseg_alloc)
  with p snoc rel show ?thesis
    by (auto simp: PacketQueue_Push_def set_next_def pq_rel_def plseg_append)
qed

lemma Push_contents:
  assumes "PacketQueue_Push h q (Some p) = Some (h', q')"
  shows "map_option (packet_next_update (\<lambda>_. None)) (h' a) = map_option (packet_next_update (\<lambda>_. None)) (h a)"
  using assms by (auto simp: PacketQueue_Push_def set_next_def bind_eq_Some_conv split: option.splits if_splits)

lemma wp_MoveTo [wp_rules]:
  assumes q: "pq_rel h q ps" and d: "pq_rel h dest ds" and "set ps \<inter> set ds = {}"
  shows "wp (PacketQueue_MoveTo h q dest) (\<lambda>(h', q', dest').
           pq_rel h' q' [] \<and> pq_rel h' dest' (ds @ ps) \<and> (\<forall>a. h' a = None \<longleftrightarrow> h a = None))"
proof (cases ds rule: rev_cases)
  case Nil
  with assms pq_rel_head [OF q] show ?thesis
    by (cases "ps = []")
      (auto simp: PacketQueue_MoveTo_def pq_rel_Nil PacketQueue_new_def pq_rel_def)
next
  case (snoc as t)
  then have t: "q_tail dest = Some t" "h t \<noteq> None" "t \<notin> set ps" using assms
    by (auto simp: pq_rel_snoc dest: plseg_alloc)
  with snoc assms show ?thesis
    by (cases "ps = []") (auto simp: PacketQueue_MoveTo_def pq_rel_head set_next_def pq_rel_def
        plseg_append last_append)
qed

lemma wp_Clear_loop:
  assumes "pq_rel h q ps \<or> (plseg h (q_head q) ps None \<and> distinct ps)"
  shows "wp (PacketQueue_Clear_loop cls h q) (\<lambda>(h', q').
           h' = (\<lambda>a. if free_deletes cls \<and> a \<in> set ps then None else h a))"
  using assms
proof (induction ps arbitrary: h q)
  case Nil
  then show ?case by (auto simp: PacketQueue_Clear_loop.simps pq_rel_def)
next
  case (Cons a as)
  then obtain pk where a: "q_head q = Some a" "h a = Some pk" "plseg h (packet_next pk) as None"
      "a \<notin> set as" "distinct as"
    by (auto simp: pq_rel_def split: option.splits)
  let ?h = "Packet_Free cls h a" and ?q = "q\<lparr> q_head := packet_next pk \<rparr>"
  have "plseg ?h (q_head ?q) as None" using a by (simp add: Packet_Free_def)
  with Cons.IH [of ?h ?q] a(5)
  have "wp (PacketQueue_Clear_loop cls ?h ?q) (\<lambda>(h', q').
          h' = (\<lambda>x. if free_deletes cls \<and> x \<in> set as then None else ?h x))" by blast
  with a show ?case
    by (subst PacketQueue_Clear_loop.simps) (auto simp: Packet_Free_def fun_eq_iff elim!: wp_mono)
qed

lemma wp_Clear [wp_rules]:
  assumes "pq_rel h q ps"
  shows "wp (PacketQueue_Clear cls h q) (\<lambda>(h', q'). pq_rel h' q' [] \<and>
           h' = (\<lambda>a. if free_deletes cls \<and> a \<in> set ps then None else h a))"
proof (cases "ps = []")
  case False
  with assms show ?thesis
    by (auto simp: PacketQueue_Clear_def pq_rel_head pq_rel_Nil PacketQueue_new_def
        intro!: wp_mono [OF wp_Clear_loop])
qed (use assms in \<open>auto simp: PacketQueue_Clear_def pq_rel_Nil PacketQueue_new_def\<close>)


text \<open>Packets that have expired at \<open>now\<close>; an expiry time of 0 never expires.\<close>

definition expired :: "'b pheap \<Rightarrow> u64 \<Rightarrow> pptr \<Rightarrow> bool" where
  "expired h now a = (case h a of None \<Rightarrow> False | Some pk \<Rightarrow>
     packet_expireTime pk \<noteq> 0 \<and> sint (packet_expireTime pk) < sint now)"

lemma set_next_same:
  "h t = Some pk \<Longrightarrow> packet_next pk = n \<Longrightarrow> set_next h t n = Some h"
  by (auto simp: set_next_def)

lemma wp_timeout_loop:
  assumes "pq_rel h q ps" and "ds \<noteq> [] \<Longrightarrow> plseg h list ds (q_head q)" and "distinct (ds @ ps)"
    and "tail = (if ds = [] then None else Some (last ds))" and "ds = [] \<Longrightarrow> list = None"
  shows "wp (PacketQueue_timeout_loop now h q list tail) (\<lambda>(h', q', list', tail').
           \<exists>ds'. ds' = ds @ takeWhile (expired h now) ps \<and> h' = h \<and>
             pq_rel h q' (dropWhile (expired h now) ps) \<and>
             (if ds' = [] then list' = None \<and> tail' = None
              else plseg h list' ds' (q_head q') \<and> tail' = Some (last ds')))"
  using assms
proof (induction ps arbitrary: q list ds tail)
  case Nil
  then show ?case by (auto simp: PacketQueue_timeout_loop.simps pq_rel_Nil PacketQueue_new_def)
next
  case (Cons a as)
  then obtain pk where a: "q_head q = Some a" "h a = Some pk" "plseg h (packet_next pk) as None"
      "a \<notin> set as" "distinct as" "pq_rel h q (a # as)"
    by (auto simp: pq_rel_Cons)
  show ?case
  proof (cases "expired h now a")
    case False
    with a Cons.prems show ?thesis
      by (subst PacketQueue_timeout_loop.simps)
        (auto simp: expired_def Packet_GetExpireTime_def Let_def)
  next
    case True
    let ?list = "if ds = [] then Some a else list"
    let ?q = "(if packet_next pk = None then q\<lparr> q_head := packet_next pk, q_tail := None \<rparr>
               else q\<lparr> q_head := packet_next pk \<rparr>)\<lparr> q_size := q_size q - 1 \<rparr>"
    have link: "(case tail of None \<Rightarrow> Some (h, q_head q)
         | Some t' \<Rightarrow> do { h \<leftarrow> set_next h t' (q_head q); Some (h, list) }) = Some (h, ?list)"
    proof (cases ds rule: rev_cases)
      case (snoc es e)
      then obtain pe where "h e = Some pe" "packet_next pe = q_head q"
        using Cons.prems(2) by (auto simp: plseg_append split: option.splits)
      with snoc Cons.prems(4) show ?thesis by (simp add: set_next_same)
    qed (use Cons.prems(4) a in simp)
    have "pq_rel h ?q as"
      using a(3,6) by (cases as) (auto simp: pq_rel_Cons pq_rel_Nil PacketQueue_new_def a(1,2)
          split: option.splits)
    moreover have "plseg h ?list (ds @ [a]) (q_head ?q)"
      using Cons.prems(2) a(1,2) by (cases "ds = []") (auto simp: plseg_append)
    ultimately have "wp (PacketQueue_timeout_loop now h ?q ?list (Some a)) (\<lambda>(h', q', list', tail').
           \<exists>ds'. ds' = (ds @ [a]) @ takeWhile (expired h now) as \<and> h' = h \<and>
             pq_rel h q' (dropWhile (expired h now) as) \<and>
             (if ds' = [] then list' = None \<and> tail' = None
              else plseg h list' ds' (q_head q') \<and> tail' = Some (last ds')))"
      by (intro Cons.IH) (use Cons.prems(3) in auto)
    with True a link show ?thesis
      by (subst PacketQueue_timeout_loop.simps)
        (auto simp: expired_def Packet_GetExpireTime_def Let_def elim!: wp_mono)
  qed
qed

lemma wp_GetTimeoutList [wp_rules]:
  fixes now :: u64
  assumes "pq_rel h q ps"
  defines "es \<equiv> takeWhile (expired h now) ps" and "rs \<equiv> dropWhile (expired h now) ps"
  shows "wp (PacketQueue_GetTimeoutList h q now) (\<lambda>(list, h', q').
           plseg h' list es None \<and> pq_rel h' q' rs \<and>
           (\<forall>a. map_option (packet_next_update (\<lambda>_. None)) (h' a) =
                map_option (packet_next_update (\<lambda>_. None)) (h a)))"
proof -
  have d: "distinct (es @ rs)" using assms(1) by (simp add: es_def rs_def pq_rel_def)
  have "wp (PacketQueue_timeout_loop now h q None None) (\<lambda>(h', q', list', tail').
          h' = h \<and> pq_rel h q' rs \<and> (if es = [] then list' = None \<and> tail' = None
              else plseg h list' es (q_head q') \<and> tail' = Some (last es)))"
    using d by (intro wp_mono [OF wp_timeout_loop [where ds = "[]", OF assms(1)]])
      (auto simp: es_def rs_def)
  moreover have "wp (set_next h (last es) None) (\<lambda>h'. plseg h' list es None \<and> pq_rel h' q' rs \<and>
           (\<forall>a. map_option (packet_next_update (\<lambda>_. None)) (h' a) =
                map_option (packet_next_update (\<lambda>_. None)) (h a)))"
    if "es \<noteq> []" and "plseg h list es (q_head q')" and "pq_rel h q' rs" for list q'
  proof (cases es rule: rev_cases)
    case (snoc xs e)
    with that d show ?thesis
      by (auto simp: set_next_def plseg_append split: option.splits)
  qed (use that in simp)
  ultimately show ?thesis
    unfolding PacketQueue_GetTimeoutList_def wp_bind
    by (elim wp_mono) (auto split: if_splits elim!: wp_mono)
qed

section \<open>The queue interface\<close>

text \<open>
  What the sessions rely on: \<open>push\<close> adds a live packet that is not queued yet at the end,
  \<open>pop\<close> takes from the front, and neither creates or deletes packets.
\<close>

locale packet_fifo =
  fixes rel :: "'s \<Rightarrow> 'a list \<Rightarrow> bool"
    and live :: "'s \<Rightarrow> 'a \<Rightarrow> bool"
    and push :: "'s \<Rightarrow> 'a \<Rightarrow> 's option"
    and pop :: "'s \<Rightarrow> ('a option \<times> 's) option"
  assumes push_law: "rel s xs \<Longrightarrow> live s a \<Longrightarrow> a \<notin> set xs \<Longrightarrow>
                       wp (push s a) (\<lambda>s'. rel s' (xs @ [a]) \<and> live s' = live s)"
    and pop_empty: "rel s [] \<Longrightarrow> wp (pop s) (\<lambda>(r, s'). r = None \<and> rel s' [])"
    and pop_law: "rel s (a # xs) \<Longrightarrow> wp (pop s) (\<lambda>(r, s'). r = Some a \<and> rel s' xs)"
begin

lemma push_all:
  assumes "rel s xs" and "\<forall>a \<in> set as. live s a" and "distinct (xs @ as)"
  shows "wp (foldM push s as) (\<lambda>s'. rel s' (xs @ as) \<and> live s' = live s)"
  using assms
proof (induction as arbitrary: s xs)
  case (Cons a as)
  have "wp (push s a) (\<lambda>s'. rel s' (xs @ [a]) \<and> live s' = live s)"
    using Cons.prems by (intro push_law) auto
  moreover have "wp (foldM push s' as) (\<lambda>s''. rel s'' (xs @ a # as) \<and> live s'' = live s)"
    if "rel s' (xs @ [a])" "live s' = live s" for s'
    using Cons.IH [of s' "xs @ [a]"] Cons.prems that by simp
  ultimately show ?case by (auto elim!: wp_mono)
qed simp

lemma pop_all:
  assumes "rel s xs"
  shows "wp (collectM (\<lambda>s _. pop s) s (xs @ [a])) (\<lambda>(rs, s'). rs = map Some xs @ [None] \<and> rel s' [])"
  using assms
proof (induction xs arbitrary: s)
  case Nil
  then show ?case by (auto intro!: wp_mono [OF pop_empty])
next
  case (Cons x xs)
  then show ?case by (auto intro!: wp_mono [OF pop_law] wp_mono [OF Cons.IH])
qed

lemma fifo:
  assumes "rel s []" and "\<forall>a \<in> set as. live s a" and "distinct as"
  shows "wp (foldM push s as) (\<lambda>s'. wp (collectM (\<lambda>s _. pop s) s' (as @ [x]))
           (\<lambda>(rs, s''). rs = map Some as @ [None] \<and> rel s'' []))"
  using push_all [of s "[]" as] assms by (auto elim!: wp_mono intro: pop_all)

end

definition queue_push :: "'b pheap \<times> pqueue \<Rightarrow> pptr \<Rightarrow> ('b pheap \<times> pqueue) option" where
  "queue_push s p = PacketQueue_Push (fst s) (snd s) (Some p)"

definition queue_pop :: "'b pheap \<times> pqueue \<Rightarrow> (pptr option \<times> 'b pheap \<times> pqueue) option" where
  "queue_pop s = do { (r, q) \<leftarrow> PacketQueue_Pop (fst s) (snd s); Some (r, fst s, q) }"

interpretation pq: packet_fifo "\<lambda>s. pq_rel (fst s) (snd s)" "\<lambda>s a. fst s a \<noteq> None"
  queue_push queue_pop
proof
  show "wp (queue_push s a) (\<lambda>s'. pq_rel (fst s') (snd s') (xs @ [a]) \<and>
          (\<lambda>b. fst s' b \<noteq> None) = (\<lambda>b. fst s b \<noteq> None))"
    if "pq_rel (fst s) (snd s) xs" "fst s a \<noteq> None" "a \<notin> set xs" for s :: "'b pheap \<times> pqueue" and xs a
    unfolding queue_push_def using wp_Push [OF that] by (auto simp del: not_None_eq elim!: wp_mono)
  show "wp (queue_pop s) (\<lambda>(r, s'). r = None \<and> pq_rel (fst s') (snd s') [])"
    if "pq_rel (fst s) (snd s) []" for s :: "'b pheap \<times> pqueue"
    unfolding queue_pop_def using wp_Pop [OF that] that by (auto elim!: wp_mono)
  show "wp (queue_pop s) (\<lambda>(r, s'). r = Some a \<and> pq_rel (fst s') (snd s') xs)"
    if "pq_rel (fst s) (snd s) (a # xs)" for s :: "'b pheap \<times> pqueue" and a xs
    unfolding queue_pop_def using wp_Pop [OF that] by (auto elim!: wp_mono)
qed

section \<open>Properties\<close>

text \<open>
  C27. The packet queue is first-in first-out: pushing any distinct live packets on an empty
  queue and popping until it is empty returns them in the order they were pushed, then a null
  pointer; no null or dangling pointer is followed on the way.
\<close>

theorem PacketQueue_fifo:
  assumes "\<forall>a \<in> set as. h a \<noteq> None" and "distinct as"
  shows "wp (foldM queue_push (h, PacketQueue_new) as) (\<lambda>s'.
           wp (collectM (\<lambda>s _. queue_pop s) s' (as @ [x]))
             (\<lambda>(rs, s''). rs = map Some as @ [None] \<and> snd s'' = PacketQueue_new))"
proof -
  have "pq_rel (fst (h, PacketQueue_new)) (snd (h, PacketQueue_new)) []" by (simp add: pq_rel_Nil)
  from pq.fifo [OF this, of as x] assms show ?thesis by (simp add: pq_rel_Nil)
qed

definition sample_heap :: "unit pheap" where
  "sample_heap = [1 \<mapsto> (Packet_new ())\<lparr> packet_expireTime := 3 \<rparr>, 2 \<mapsto> Packet_new (), 3 \<mapsto> Packet_new ()]"

theorem PacketQueue_fifo_witness:
  "wp (foldM queue_push (sample_heap, PacketQueue_new) [3, 1, 2]) (\<lambda>s'.
     wp (collectM (\<lambda>s _. queue_pop s) s' ([3, 1, 2] @ [0 :: nat]))
       (\<lambda>(rs, s''). rs = map Some [3, 1, 2] @ [None] \<and> snd s'' = PacketQueue_new))"
  by (rule PacketQueue_fifo) (simp_all add: sample_heap_def)

text \<open>
  \<open>MoveTo\<close> appends the whole source queue to the destination and leaves the source empty,
  in constant time by relinking two pointers; sizes add up, and \<open>Clear\<close> then releases exactly
  the packets of the destination (when their class's \<open>Free\<close> deletes).
\<close>

theorem PacketQueue_MoveTo_Clear:
  assumes "pq_rel h q ps" and "pq_rel h dest ds" and "set ps \<inter> set ds = {}"
  shows "wp (PacketQueue_MoveTo h q dest) (\<lambda>(h', q', dest').
           q' = PacketQueue_new \<and> pq_rel h' dest' (ds @ ps) \<and>
           wp (PacketQueue_Clear cls h' dest') (\<lambda>(h'', dest''). dest'' = PacketQueue_new \<and>
             (\<forall>a. h'' a = None \<longleftrightarrow> h a = None \<or> free_deletes cls \<and> a \<in> set ps \<union> set ds)))"
  using wp_MoveTo [OF assms]
  by (auto elim!: wp_mono intro!: wp_mono [OF wp_Clear] simp: pq_rel_Nil
      split: if_splits)

definition sample_class :: "unit packet_class" where
  "sample_class = \<lparr> vEncode = \<lambda>x b. Some (True, x, b), vDecode = \<lambda>x b h. Some (True, x, b),
                    free_deletes = True, CreatePacket = \<lambda>c. Some () \<rparr>"

definition sample_queue :: "pptr \<Rightarrow> pqueue" where
  "sample_queue p = \<lparr> q_head = Some p, q_tail = Some p, q_size = 1 \<rparr>"

theorem PacketQueue_MoveTo_Clear_witness:
  "wp (PacketQueue_MoveTo sample_heap (sample_queue 1) (sample_queue 2)) (\<lambda>(h', q', dest').
     q' = PacketQueue_new \<and> pq_rel h' dest' ([2] @ [1]) \<and>
     wp (PacketQueue_Clear sample_class h' dest') (\<lambda>(h'', dest''). dest'' = PacketQueue_new \<and>
       (\<forall>a. h'' a = None \<longleftrightarrow> sample_heap a = None \<or> free_deletes sample_class \<and> a \<in> set [1] \<union> set [2])))"
  by (rule PacketQueue_MoveTo_Clear)
    (simp_all add: pq_rel_def sample_heap_def sample_queue_def Packet_new_def)

text \<open>
  \<open>GetTimeoutList\<close> ends, returns as a null-terminated chain the longest prefix of the queue
  whose packets have expired, keeps the rest queued in order, and changes nothing of any packet
  but its link.
\<close>

theorem PacketQueue_GetTimeoutList_splits:
  assumes "pq_rel h q ps"
  shows "wp (PacketQueue_GetTimeoutList h q now) (\<lambda>(list, h', q').
           plseg h' list (takeWhile (expired h now) ps) None \<and>
           pq_rel h' q' (dropWhile (expired h now) ps) \<and>
           (\<forall>a. map_option (packet_next_update (\<lambda>_. None)) (h' a) =
                map_option (packet_next_update (\<lambda>_. None)) (h a)))"
  using assms by (rule wp_GetTimeoutList)

theorem PacketQueue_GetTimeoutList_splits_witness:
  "wp (PacketQueue_GetTimeoutList sample_heap (sample_queue 1) 5) (\<lambda>(list, h', q').
     plseg h' list (takeWhile (expired sample_heap 5) [1]) None \<and>
     pq_rel h' q' (dropWhile (expired sample_heap 5) [1]) \<and>
     (\<forall>a. map_option (packet_next_update (\<lambda>_. None)) (h' a) =
          map_option (packet_next_update (\<lambda>_. None)) (sample_heap a)))"
  by (rule PacketQueue_GetTimeoutList_splits)
    (simp add: pq_rel_def sample_heap_def sample_queue_def Packet_new_def)

end
