(* ===== verification/Streamer.thy ===== *)
theory Streamer
  imports Packet
begin

text \<open>
  The packet streamer (\<open>common/net/ipacketstreamer.h\<close>, \<open>defaultpacketstreamer.h\<close> and
  \<open>defaultpacketstreamer.cc\<close>): a packet travels as a 16 byte header (flag, channel identifier,
  packet code, body length, all in network byte order) followed by its body.

  Packet objects are allocated in \<open>'b pmem\<close>, the packet heap with its next free address. The
  static \<open>nPacketFlag_\<close> is a field of the streamer. A body is encoded and decoded by the packet
  class, the user's code; the locale \<open>packet_codec\<close> states what the framing relies on.
\<close>

section \<open>Packet memory\<close>

record 'b pmem =
  objs :: "'b pheap"
  next_addr :: pptr

definition pmem_ok :: "'b pmem \<Rightarrow> bool" where
  "pmem_ok M \<longleftrightarrow> (\<forall>a \<ge> next_addr M. objs M a = None)"

definition new_packet :: "'b pmem \<Rightarrow> 'b packet \<Rightarrow> pptr \<times> 'b pmem" where
  "new_packet M pk = (next_addr M, M\<lparr> objs := (objs M)(next_addr M \<mapsto> pk), next_addr := Suc (next_addr M) \<rparr>)"

section \<open>The default streamer\<close>

record streamer =
  has_factory :: bool
  existPacketHeader :: bool
  nPacketFlag :: u32

definition DefaultPacketStreamer_new :: "bool \<Rightarrow> streamer" where
  "DefaultPacketStreamer_new factory =
     \<lparr> has_factory = factory, existPacketHeader = True, nPacketFlag = QYNET_PACKET_FLAG \<rparr>"

definition SetPacketFactory :: "streamer \<Rightarrow> bool \<Rightarrow> streamer" where
  "SetPacketFactory S factory = S\<lparr> has_factory := factory \<rparr>"

definition SetPacketFlag :: "streamer \<Rightarrow> u32 \<Rightarrow> streamer" where
  "SetPacketFlag S flag = S\<lparr> nPacketFlag := flag \<rparr>"

definition ExistPacketHeader :: "streamer \<Rightarrow> bool" where
  "ExistPacketHeader S = existPacketHeader S"

text \<open>Returns the result, the buffer, the header and \<open>*broken\<close>.\<close>

definition GetPacketInfo :: "streamer \<Rightarrow> buffer \<Rightarrow> packet_header \<Rightarrow> bool \<Rightarrow>
    (bool \<times> buffer \<times> packet_header \<times> bool) option" where
  "GetPacketInfo S input header broken =
     (if existPacketHeader S then do {
        n \<leftarrow> Buffer_length input;
        if n < 16 then Some (False, input, header, broken)
        else do {
          (flag, input) \<leftarrow> ReadInt32 input;
          (c, input) \<leftarrow> ReadInt32 input;
          let header = header\<lparr> chid := c \<rparr>;
          (p, input) \<leftarrow> ReadInt32 input;
          let header = header\<lparr> pcode := p \<rparr>;
          (d, input) \<leftarrow> ReadInt32 input;
          let header = header\<lparr> dataLen := d \<rparr>;
          let broken = (if flag \<noteq> nPacketFlag S \<or> sint (dataLen header) < 0 \<or>
                           sint (dataLen header) > 0x4000000 then True else broken);
          Some (True, input, header, broken) } }
      else do {
        n \<leftarrow> Buffer_length input;
        if n = 0 then Some (False, input, header, broken)
        else Some (True, input, header, broken) })"

definition Streamer_Decode :: "'b packet_class \<Rightarrow> streamer \<Rightarrow> 'b pmem \<Rightarrow> buffer \<Rightarrow> packet_header \<Rightarrow>
    (pptr option \<times> 'b pmem \<times> buffer) option" where
  "Streamer_Decode cls S M input header = do {
     assert_that (has_factory S);
     (case CreatePacket cls (pcode header) of
        Some x \<Rightarrow> do {
          let (p, M) = new_packet M (Packet_new x);
          (ok, x, input) \<leftarrow> vDecode cls x input header;
          let M = M\<lparr> objs := (objs M)(p \<mapsto> Packet_new x) \<rparr>;
          if \<not> ok then Some (None, M\<lparr> objs := Packet_Free cls (objs M) p \<rparr>, input)
          else Some (Some p, M, input) }
      | None \<Rightarrow> do {
          input \<leftarrow> Skip input (size_of_int (dataLen header));
          Some (None, M, input) }) }"

text \<open>\<open>memcpy(output->data() + off, &x, 4)\<close>.\<close>

definition patch32 :: "buffer \<Rightarrow> nat \<Rightarrow> u32 \<Rightarrow> buffer option" where
  "patch32 b off x = do {
     m \<leftarrow> memwrite (mem b) (read_index b + off) (mem32 x);
     Some (b\<lparr> mem := m \<rparr>) }"

text \<open>Writing the header, with 0 for the length; returns \<open>dataLenOffset\<close> and \<open>headerSize\<close>.\<close>

definition put_header :: "streamer \<Rightarrow> packet_header \<Rightarrow> buffer \<Rightarrow> (u32 \<times> u32 \<times> buffer) option" where
  "put_header S header output =
     (if existPacketHeader S then do {
        output \<leftarrow> AppendInt32 output (nPacketFlag S);
        output \<leftarrow> AppendInt32 output (chid header);
        output \<leftarrow> AppendInt32 output (pcode header);
        n \<leftarrow> Buffer_length output;
        output \<leftarrow> AppendInt32 output 0;
        Some (of_nat n, 16, output) }
      else Some (-1, 0, output))"

definition Streamer_Encode :: "'b packet_class \<Rightarrow> streamer \<Rightarrow> 'b pheap \<Rightarrow> pptr \<Rightarrow> buffer \<Rightarrow>
    (bool \<times> 'b pheap \<times> buffer) option" where
  "Streamer_Encode cls S h p output = do {
     pk \<leftarrow> h p;
     n \<leftarrow> Buffer_length output;
     let oldLen = (of_nat n :: u32);
     (dataLenOffset, headerSize, output) \<leftarrow> put_header S (packetHeader pk) output;
     (ok, x, output) \<leftarrow> vEncode cls (body pk) output;
     let pk = pk\<lparr> body := x \<rparr>;
     if \<not> ok then Some (False, h(p \<mapsto> pk), Truncate output (size_of_int oldLen))
     else do {
       n \<leftarrow> Buffer_length output;
       let len = of_nat n - oldLen - headerSize;
       let pk = pk\<lparr> packetHeader := (packetHeader pk)\<lparr> dataLen := len \<rparr> \<rparr>;
       output \<leftarrow> (if 0 \<le> sint dataLenOffset
                    then patch32 output (nat (sint dataLenOffset)) (htonl len)
                    else Some output);
       Some (True, h(p \<mapsto> pk), output) } }"

section \<open>Frames\<close>

definition be32 :: "u32 \<Rightarrow> bytes" where
  "be32 x = rev (mem32 x)"

lemma length_be32 [simp]: "length (be32 x) = 4"
  by (simp add: be32_def)

lemma be32_le_word: "length l = 4 \<Longrightarrow> be32 (le_word (rev l)) = l"
  by (simp add: be32_def)

text \<open>The bytes of a packet with header \<open>hd\<close> and encoded body \<open>d\<close> on the wire.\<close>

definition frame :: "streamer \<Rightarrow> packet_header \<Rightarrow> bytes \<Rightarrow> bytes" where
  "frame S hdr d =
     be32 (nPacketFlag S) @ be32 (chid hdr) @ be32 (pcode hdr) @ be32 (of_nat (length d)) @ d"

lemma length_frame [simp]: "length (frame S hdr d) = 16 + length d"
  by (simp add: frame_def)

definition bad_header :: "streamer \<Rightarrow> u32 \<Rightarrow> u32 \<Rightarrow> bool" where
  "bad_header S flag d \<longleftrightarrow> flag \<noteq> nPacketFlag S \<or> sint d < 0 \<or> sint d > 0x4000000"

lemma GetPacketInfo_short:
  assumes "buf_ok b" and "existPacketHeader S" and "length (unread b) < 16"
  shows "GetPacketInfo S b hdr br = Some (False, b, hdr, br)"
  using assms by (simp add: GetPacketInfo_def)

lemma wp_GetPacketInfo [wp_rules]:
  assumes ok: "buf_ok b" and S: "existPacketHeader S"
    and u: "unread b = be32 f @ be32 c @ be32 p @ be32 d @ r"
  shows "wp (GetPacketInfo S b hdr br) (\<lambda>(got, b', hdr', br'). got \<and> buf_ok b' \<and> unread b' = r \<and>
           hdr' = \<lparr> chid = c, pcode = p, dataLen = d \<rparr> \<and> br' = (bad_header S f d \<or> br))"
proof -
  have rd: "wp (ReadInt32 b) (\<lambda>(x, b'). x = v \<and> buf_ok b' \<and> unread b' = r)"
    if "buf_ok b" "unread b = be32 v @ r" for b v r
    using wp_ReadInt(2) [OF that(1), of v r] that(2) by (simp add: be32_def)
  have n: "\<not> length (unread b) < 16" by (simp add: u)
  show ?thesis
    unfolding GetPacketInfo_def using S
    apply (simp add: ok n Let_def)
    apply (rule wp_mono [OF rd [OF ok u]], clarsimp)
    apply (rule wp_mono [OF rd], assumption+, clarsimp)
    apply (rule wp_mono [OF rd], assumption+, clarsimp)
    apply (rule wp_mono [OF rd], assumption+, clarsimp simp: bad_header_def)
    done
qed

lemma dataLen_frame:
  assumes "length d \<le> 0x4000000"
  shows "sint (of_nat (length d) :: u32) = int (length d)"
    and "\<not> bad_header S (nPacketFlag S) (of_nat (length d))"
proof -
  show s: "sint (of_nat (length d) :: u32) = int (length d)"
    by (rule sint32_of_nat) (use assms in simp)
  show "\<not> bad_header S (nPacketFlag S) (of_nat (length d))"
    using s assms by (simp add: bad_header_def)
qed

lemma wp_GetPacketInfo_frame [wp_rules]:
  assumes ok: "buf_ok b" and S: "existPacketHeader S" and u: "unread b = frame S hdr d @ r"
    and len: "length d \<le> 0x4000000"
  shows "wp (GetPacketInfo S b hdr0 br) (\<lambda>(got, b', hdr', br'). got \<and> buf_ok b' \<and>
           unread b' = d @ r \<and> hdr' = hdr\<lparr> dataLen := of_nat (length d) \<rparr> \<and> br' = br)"
proof -
  have "unread b = be32 (nPacketFlag S) @ be32 (chid hdr) @ be32 (pcode hdr) @
      be32 (of_nat (length d)) @ d @ r" using u by (simp add: frame_def)
  from wp_GetPacketInfo [OF ok S this, of hdr0 br] show ?thesis
    using dataLen_frame(2) [OF len, of S] by (auto elim!: wp_mono)
qed

lemma split_header:
  assumes "16 \<le> length l"
  obtains f c p d r where "l = be32 f @ be32 c @ be32 p @ be32 d @ r"
proof -
  define q where "q i = take 4 (drop (4 * i) l)" for i
  have l: "length (q i) = 4" if "i < 4" for i using assms that by (simp add: q_def)
  have "l = q 0 @ q 1 @ q 2 @ q 3 @ drop 16 l"
    unfolding q_def using append_take_drop_id [of 4 l] append_take_drop_id [of 4 "drop 4 l"]
      append_take_drop_id [of 4 "drop 8 l"] append_take_drop_id [of 4 "drop 12 l"] by simp
  then show ?thesis
    by (intro that [of "le_word (rev (q 0))" "le_word (rev (q 1))" "le_word (rev (q 2))"
          "le_word (rev (q 3))" "drop 16 l"]) (simp add: be32_le_word l)
qed

lemma wp_patch32 [wp_rules]:
  assumes "buf_ok b" and "unread b = xs @ ys @ zs" and "length ys = 4" and "off = length xs"
  shows "wp (patch32 b off x) (\<lambda>b'. buf_ok b' \<and> unread b' = xs @ mem32 x @ zs \<and>
           reserved_prepend_size b' = reserved_prepend_size b)"
proof -
  obtain P Q where m: "mem b = P @ unread b @ Q" "length P = read_index b"
    "write_index b = read_index b + length (unread b)" using unread_split [OF assms(1)] by blast
  have l: "length (mem b) = capacity b" using assms(1) by (simp add: buf_ok_def)
  have m': "mem b = (P @ xs) @ ys @ zs @ Q" "length (P @ xs) = read_index b + off"
    using m assms by simp_all
  have t: "take (read_index b + off) (mem b) = P @ xs" 
    "drop (read_index b + off + 4) (mem b) = zs @ Q"
    unfolding m'(1) using m'(2) assms(3) by (auto simp: take_append drop_append)
  have w: "read_index b + off + 4 \<le> length (mem b)" "write_index b - read_index b = off + 4 + length zs"
      "length (mem b) = length (P @ xs @ mem32 x @ zs @ Q)"
    using m(3) m' assms(2-4) by simp_all
  have "patch32 b off x = Some (b\<lparr> mem := P @ xs @ mem32 x @ zs @ Q \<rparr>)"
    using w(1) by (simp add: patch32_def memwrite_def t)
  moreover have "buf_ok (b\<lparr> mem := P @ xs @ mem32 x @ zs @ Q \<rparr>)"
    using assms(1) w(3) by (simp add: buf_ok_def)
  moreover have "unread (b\<lparr> mem := P @ xs @ mem32 x @ zs @ Q \<rparr>) = xs @ mem32 x @ zs"
    unfolding unread_def using m(2) assms(4) by (simp add: w(2))
  ultimately show ?thesis by simp
qed

text \<open>
  What the framing asks of a packet class: \<open>Encode\<close> of a valid body appends \<open>enc\<close> of it, at most
  64 MB; the factory makes a packet for every code; and \<open>Decode\<close> on the encoding of a body, told
  its length, consumes exactly it and yields a body that means the \<open>same\<close>.
\<close>

locale packet_codec =
  fixes cls :: "'b packet_class"
    and valid :: "'b \<Rightarrow> bool"
    and enc :: "'b \<Rightarrow> bytes"
    and same :: "'b \<Rightarrow> 'b \<Rightarrow> bool"
  assumes encode_law: "valid x \<Longrightarrow> buf_ok b \<Longrightarrow> wp (vEncode cls x b) (\<lambda>(ok, x', b').
      ok \<and> x' = x \<and> buf_ok b' \<and> unread b' = unread b @ enc x)"
    and enc_len: "valid x \<Longrightarrow> length (enc x) \<le> 0x4000000"
    and create_law: "CreatePacket cls c \<noteq> None"
    and decode_law: "CreatePacket cls (pcode hdr) = Some x0 \<Longrightarrow> valid x \<Longrightarrow> buf_ok b \<Longrightarrow>
      unread b = enc x @ r \<Longrightarrow> dataLen hdr = of_nat (length (enc x)) \<Longrightarrow>
      wp (vDecode cls x0 b hdr) (\<lambda>(ok, x', b'). ok \<and> buf_ok b' \<and> unread b' = r \<and> same x x')"
begin

lemma wp_Streamer_Encode:
  assumes p: "h p = Some pk" and v: "valid (body pk)" and ok: "buf_ok out" and S: "existPacketHeader S"
    and l: "length (unread out) < 2 ^ 30"
  shows "wp (Streamer_Encode cls S h p out) (\<lambda>(r, h', out'). r \<and> buf_ok out' \<and>
           unread out' = unread out @ frame S (packetHeader pk) (enc (body pk)) \<and>
           h' = h(p \<mapsto> pk\<lparr> packetHeader := (packetHeader pk)\<lparr> dataLen := of_nat (length (enc (body pk))) \<rparr> \<rparr>))"
proof -
  define n where "n = length (unread out)"
  let ?h3 = "be32 (nPacketFlag S) @ be32 (chid (packetHeader pk)) @ be32 (pcode (packetHeader pk))"
  let ?x = "body pk" and ?len = "of_nat (length (enc (body pk))) :: u32"
  have ap: "wp (AppendInt32 b x) (\<lambda>b'. buf_ok b' \<and> unread b' = unread b @ be32 x)"
    if "buf_ok b" for b x using wp_AppendInt(2) [OF that] by (simp add: be32_def)
  have off: "sint (of_nat (n + 12) :: u32) = int (n + 12)"
    using l by (intro sint32_of_nat) (simp add: n_def)
  have nn: "nat (int n + 12) = n + 12" by simp
  have hdr: "wp (put_header S (packetHeader pk) out)
        (\<lambda>(o', s', b). o' = of_nat (n + 12) \<and> s' = 16 \<and> buf_ok b \<and> unread b = unread out @ ?h3 @ be32 0)"
    using ok S by (auto simp: put_header_def n_def ac_simps intro!: wp_mono [OF ap])
  have bd: "wp (vEncode cls ?x b) (\<lambda>(ok, x', b'). ok \<and> x' = ?x \<and> buf_ok b' \<and>
        unread b' = unread out @ ?h3 @ be32 0 @ enc ?x)"
    if "buf_ok b" "unread b = unread out @ ?h3 @ be32 0" for b
    using encode_law [OF v that(1)] that(2) by simp
  have pt: "wp (patch32 b (n + 12) (htonl ?len)) (\<lambda>b'. buf_ok b' \<and>
        unread b' = unread out @ frame S (packetHeader pk) (enc ?x))"
    if "buf_ok b" "unread b = unread out @ ?h3 @ be32 0 @ enc ?x" for b
    using that by (intro wp_mono [OF wp_patch32 [of b "unread out @ ?h3" "be32 0" "enc ?x"]])
      (auto simp: n_def frame_def be32_def)
  show ?thesis
    apply (simp add: Streamer_Encode_def p ok n_def [symmetric] Let_def)
    apply (rule wp_mono [OF hdr], clarsimp)
    apply (rule wp_mono [OF bd], assumption+, clarsimp)
    by (use pt off nn in \<open>auto simp: algebra_simps Let_def n_def [symmetric] elim!: wp_mono\<close>)
qed

lemma wp_Streamer_Decode:
  assumes "valid x" and "buf_ok b" and "unread b = enc x @ r" and "has_factory S"
    and "dataLen hdr = of_nat (length (enc x))" and "pmem_ok M"
  shows "wp (Streamer_Decode cls S M b hdr) (\<lambda>(p, M', b'). \<exists>x'. p = Some (next_addr M) \<and> buf_ok b' \<and>
           unread b' = r \<and> same x x' \<and> objs M' = (objs M)(next_addr M \<mapsto> Packet_new x') \<and>
           next_addr M' = Suc (next_addr M) \<and> pmem_ok M')"
proof -
  obtain x0 where x0: "CreatePacket cls (pcode hdr) = Some x0" using create_law by blast
  show ?thesis
    using decode_law [OF x0 assms(1-3,5)] assms(4,6) x0
    by (auto simp: Streamer_Decode_def new_packet_def pmem_ok_def elim!: wp_mono)
qed

lemma frame_roundtrip:
  assumes p: "h p = Some pk" and v: "valid (body pk)" and out: "buf_ok out" "unread out = []"
    and S: "existPacketHeader S" "has_factory S" and M: "pmem_ok M"
  shows "wp (Streamer_Encode cls S h p out) (\<lambda>(r, h', out'). r \<and>
           wp (GetPacketInfo S out' hdr False) (\<lambda>(got, b, hdr', broken). got \<and> \<not> broken \<and>
             hdr' = (packetHeader pk)\<lparr> dataLen := of_nat (length (enc (body pk))) \<rparr> \<and>
             wp (Streamer_Decode cls S M b hdr') (\<lambda>(q, M', b'). \<exists>a x'. q = Some a \<and> objs M a = None \<and>
               objs M' a = Some (Packet_new x') \<and> same (body pk) x' \<and> unread b' = [])))"
proof -
  let ?x = "body pk" and ?hdr = "packetHeader pk"
  have len: "length (enc ?x) \<le> 0x4000000" by (rule enc_len [OF v])
  have get: "wp (GetPacketInfo S b hdr False) (\<lambda>(got, b', hdr', broken). got \<and> \<not> broken \<and>
       hdr' = ?hdr\<lparr> dataLen := of_nat (length (enc ?x)) \<rparr> \<and> buf_ok b' \<and> unread b' = enc ?x)"
    if "buf_ok b" "unread b = frame S ?hdr (enc ?x)" for b
    by (rule wp_mono [OF wp_GetPacketInfo_frame [OF that(1) S(1), of ?hdr "enc ?x" "[]"]])
      (use that(2) len in auto)
  have dec: "wp (Streamer_Decode cls S M b hdr') (\<lambda>(q, M', b'). \<exists>a x'. q = Some a \<and> objs M a = None \<and>
               objs M' a = Some (Packet_new x') \<and> same ?x x' \<and> unread b' = [])"
    if "buf_ok b" "unread b = enc ?x" "dataLen hdr' = of_nat (length (enc ?x))" for b hdr'
    using wp_Streamer_Decode [OF v that(1) _ S(2) that(3) M, of "[]"] that(2) M
    by (auto simp: pmem_ok_def elim!: wp_mono)
  show ?thesis
    using wp_Streamer_Encode [of h p pk, OF p v out(1) S(1)] out(2)
    by (auto elim!: wp_mono intro!: wp_mono [OF get] wp_mono [OF dec])
qed

end

lemma wp_Streamer_Encode_fails:
  assumes p: "h p = Some pk" and out: "buf_ok out" "length (unread out) < 2 ^ 30"
    and S: "existPacketHeader S"
    and fail: "\<And>b. buf_ok b \<Longrightarrow> \<exists>x d b'. vEncode cls (body pk) b = Some (False, x, b') \<and> buf_ok b' \<and>
                 unread b' = unread b @ d"
  shows "wp (Streamer_Encode cls S h p out) (\<lambda>(r, h', out'). \<not> r \<and> buf_ok out' \<and>
           unread out' = unread out)"
proof -
  have ap: "wp (AppendInt32 b x) (\<lambda>b'. buf_ok b' \<and> unread b' = unread b @ be32 x)"
    if "buf_ok b" for b x using wp_AppendInt(2) [OF that] by (simp add: be32_def)
  have hdr: "wp (put_header S (packetHeader pk) out) (\<lambda>(o', s', b). buf_ok b \<and>
      (\<exists>d. unread b = unread out @ d))"
    using out(1) S by (auto simp: put_header_def intro!: wp_mono [OF ap])
  have bd: "wp (vEncode cls (body pk) b) (\<lambda>(ok, x', b'). \<not> ok \<and> buf_ok b' \<and>
      (\<exists>d. unread b' = unread out @ d))"
    if "buf_ok b" "\<exists>d. unread b = unread out @ d" for b
    using fail [OF that(1)] that(2) by (auto simp: wp_def)
  have s: "size_of_int (of_nat (length (unread out))) = length (unread out)"
    using out(2) by (subst size_of_int_nonneg) (simp_all add: sint32_of_nat)
  show ?thesis
    apply (simp add: Streamer_Encode_def p out(1) Let_def)
    apply (rule wp_mono [OF hdr], clarsimp)
    apply (rule wp_mono [OF bd], assumption, blast, clarsimp simp: s)
    done
qed

text \<open>
  A packet whose body cannot be encoded leaves no trace in the output: when the class's
  \<open>Encode\<close> fails after having appended any bytes, the streamer reports it and the output buffer
  holds exactly what it held before, header included.
\<close>

theorem Streamer_Encode_failure:
  assumes p: "h p = Some pk" and out: "buf_ok out" "length (unread out) < 2 ^ 30"
    and S: "existPacketHeader S"
    and fail: "\<And>b. buf_ok b \<Longrightarrow> \<exists>x d b'. vEncode cls (body pk) b = Some (False, x, b') \<and> buf_ok b' \<and>
                 unread b' = unread b @ d"
  shows "wp (Streamer_Encode cls S h p out) (\<lambda>(r, h', out'). \<not> r \<and> buf_ok out' \<and>
           unread out' = unread out)"
  using wp_Streamer_Encode_fails [where h = h and p = p and pk = pk, OF assms] .

definition failing_class :: "unit packet_class" where
  "failing_class = \<lparr> vEncode = \<lambda>x b. do { b \<leftarrow> Buffer_Append b [7]; Some (False, x, b) },
                     vDecode = \<lambda>x b hdr. Some (False, x, b), free_deletes = True,
                     CreatePacket = \<lambda>c. Some () \<rparr>"

lemma failing_class_fails:
  "buf_ok b \<Longrightarrow> \<exists>x d b'. vEncode failing_class (body (Packet_new ())) b = Some (False, x, b') \<and>
     buf_ok b' \<and> unread b' = unread b @ d"
  using wp_Buffer_Append [of b "[7]"] by (auto simp: failing_class_def wp_def)

theorem Streamer_Encode_failure_witness:
  "wp (Streamer_Encode failing_class (DefaultPacketStreamer_new True) [1 \<mapsto> Packet_new ()] 1 sample_buffer)
     (\<lambda>(r, h', out'). \<not> r \<and> buf_ok out' \<and> unread out' = unread sample_buffer)"
  by (rule Streamer_Encode_failure [OF _ _ _ _ failing_class_fails])
    (simp_all add: DefaultPacketStreamer_new_def)

end
