(* ===== verification/MessageLoop.thy ===== *)
theory MessageLoop
  imports Streamer
begin

text \<open>
  The receiving loop. \<open>ClientSession::OnMessage\<close> and \<open>ServerConnection::OnMessage\<close>
  (\<open>common/net/clientsession.cc\<close>, \<open>serverconn.cc\<close>) have the same body, over the \<open>HandlePacket\<close> of
  their class: a header is read as soon as its 16 bytes are there and remembered in
  \<open>gotHeader_\<close> and \<open>packetHeader_\<close> until the body is complete. The loop is defined once, with
  \<open>HandlePacket\<close> as an argument over the state \<open>'s\<close> of the rest of the object, and the theorem
  that the boundaries at which TCP delivers the bytes do not matter is proved once, in the
  locale \<open>message_handler\<close>, for every \<open>HandlePacket\<close> that consumes the body it is given.
\<close>

section \<open>What user code sees of a packet\<close>

datatype 'b seen = SeenPacket packet_header 'b | SeenControl command

definition seen_arg :: "'b pmem \<Rightarrow> packet_arg \<Rightarrow> 'b seen option" where
  "seen_arg M a =
     (case a of
        Regular p \<Rightarrow> (case objs M p of None \<Rightarrow> None | Some pk \<Rightarrow> Some (SeenPacket (packetHeader pk) (body pk)))
      | Control c \<Rightarrow> Some (SeenControl c))"

section \<open>The loop\<close>

partial_function (option) on_message_loop ::
    "streamer \<Rightarrow> (buffer \<Rightarrow> packet_header \<Rightarrow> 's \<Rightarrow> (buffer \<times> 's) option) \<Rightarrow>
     buffer \<Rightarrow> bool \<Rightarrow> packet_header \<Rightarrow> 's \<Rightarrow> (buffer \<times> bool \<times> packet_header \<times> bool \<times> 's) option" where
  "on_message_loop S handle input gotHeader header s = do {
     n \<leftarrow> Buffer_length input;
     if n = 0 then Some (input, gotHeader, header, False, s)
     else do {
       (gotHeader, input, header, broken) \<leftarrow>
         (if gotHeader then Some (gotHeader, input, header, False)
          else GetPacketInfo S input header False);
       if broken then Some (input, gotHeader, header, True, s)
       else do {
         n \<leftarrow> Buffer_length input;
         if gotHeader \<and> sint (dataLen header) \<le> sint (of_nat n :: u32) then do {
           (input, s) \<leftarrow> handle input header s;
           on_message_loop S handle input False (header\<lparr> dataLen := 0 \<rparr>) s }
         else Some (input, gotHeader, header, False, s) } } }"

definition on_message ::
    "streamer \<Rightarrow> (buffer \<Rightarrow> packet_header \<Rightarrow> 's \<Rightarrow> (buffer \<times> 's) option) \<Rightarrow>
     buffer \<Rightarrow> bool \<Rightarrow> packet_header \<Rightarrow> 's \<Rightarrow> (buffer \<times> bool \<times> packet_header \<times> 's) option" where
  "on_message S handle input gotHeader header s = do {
     (input, gotHeader, header, broken, s) \<leftarrow> on_message_loop S handle input gotHeader header s;
     Some (input, if broken then False else gotHeader, header, s) }"

text \<open>
  A connection receiving chunks: each is read from the socket into the input buffer, then
  \<open>OnMessage\<close> is called (\<open>TCPConn::HandleRead\<close>).
\<close>

fun feed ::
    "streamer \<Rightarrow> (buffer \<Rightarrow> packet_header \<Rightarrow> 's \<Rightarrow> (buffer \<times> 's) option) \<Rightarrow>
     buffer \<times> bool \<times> packet_header \<times> 's \<Rightarrow> bytes list \<Rightarrow>
     (buffer \<times> bool \<times> packet_header \<times> 's) option" where
  "feed S handle st [] = Some st"
| "feed S handle (input, gotHeader, header, s) (c # cs) = do {
     (n, e, input) \<leftarrow> ReadFromFD input (Inr c);
     st \<leftarrow> on_message S handle input gotHeader header s;
     feed S handle st cs }"

section \<open>Packets in a stream\<close>

type_synonym packets = "(packet_header \<times> bytes) list"

text \<open>The bytes of a sequence of packets, and the header each is handled with.\<close>

definition frames :: "streamer \<Rightarrow> packets \<Rightarrow> bytes" where
  "frames S fs = concat (map (\<lambda>(hdr, d). frame S hdr d) fs)"

definition received_header :: "packet_header \<Rightarrow> bytes \<Rightarrow> packet_header" where
  "received_header hdr d = hdr\<lparr> dataLen := of_nat (length d) \<rparr>"

lemma frames_simps [simp]:
  "frames S [] = []" "frames S ((hdr, d) # fs) = frame S hdr d @ frames S fs"
  by (simp_all add: frames_def)

text \<open>
  The state between two calls of \<open>OnMessage\<close>, when the bytes \<open>fut\<close> are still to come and \<open>fs\<close> are
  the packets not handled yet.
\<close>

fun at_rest :: "streamer \<Rightarrow> bool \<Rightarrow> packet_header \<Rightarrow> bytes \<Rightarrow> bytes \<Rightarrow> packets \<Rightarrow> bool" where
  "at_rest S False header u fut fs \<longleftrightarrow> u @ fut = frames S fs \<and> length u < 16"
| "at_rest S True header u fut [] \<longleftrightarrow> False"
| "at_rest S True header u fut ((hdr, d) # fs) \<longleftrightarrow>
     header = received_header hdr d \<and> u @ fut = d @ frames S fs \<and> length u < length d"

lemma append_eq_prefix:
  assumes "u @ v = x @ y" and "length x \<le> length u"
  obtains w where "u = x @ w" and "w @ v = y"
  using assms by (auto simp: append_eq_append_conv2)

locale message_handler =
  fixes S :: streamer
    and handle :: "buffer \<Rightarrow> packet_header \<Rightarrow> 's \<Rightarrow> (buffer \<times> 's) option"
    and inv :: "'s \<Rightarrow> bool"
    and good :: "packet_header \<Rightarrow> bytes \<Rightarrow> bool"
    and act :: "packet_header \<Rightarrow> bytes \<Rightarrow> 's \<Rightarrow> 's \<Rightarrow> bool"
  assumes with_header: "existPacketHeader S"
    and good_length: "good hdr d \<Longrightarrow> length d \<le> 0x4000000"
    and handle_law: "inv s \<Longrightarrow> good hdr d \<Longrightarrow> buf_ok b \<Longrightarrow> unread b = d @ r \<Longrightarrow>
      wp (handle b (received_header hdr d) s) (\<lambda>(b', s'). buf_ok b' \<and> unread b' = r \<and>
        act (received_header hdr d) d s s' \<and> inv s')"
begin

fun acts :: "packets \<Rightarrow> 's \<Rightarrow> 's \<Rightarrow> bool" where
  "acts [] s s' \<longleftrightarrow> s' = s"
| "acts ((hdr, d) # fs) s s' \<longleftrightarrow> (\<exists>s1. act (received_header hdr d) d s s1 \<and> acts fs s1 s')"

lemma acts_append: "acts (fs @ gs) s s' \<longleftrightarrow> (\<exists>s1. acts fs s s1 \<and> acts gs s1 s')"
proof (induction fs arbitrary: s)
  case (Cons f fs)
  then show ?case by (cases f) (simp, blast)
qed simp

text \<open>When every packet adds one entry to a log, the packets of a run add one each, in order.\<close>

lemma acts_log:
  assumes "\<And>hdr d s s'. act hdr d s s' \<Longrightarrow> \<exists>z. P hdr d z \<and> L s' = L s @ [z]" and "acts fs s s'"
  shows "\<exists>zs. L s' = L s @ zs \<and> list_all2 (\<lambda>(hdr, d) z. P (received_header hdr d) d z) fs zs"
  using assms(2)
proof (induction fs arbitrary: s)
  case (Cons f fs)
  obtain hdr d where f: "f = (hdr, d)" by force
  with Cons.prems obtain s1 where 1: "act (received_header hdr d) d s s1" "acts fs s1 s'" by auto
  obtain z where z: "P (received_header hdr d) d z" "L s1 = L s @ [z]" using assms(1) [OF 1(1)] by blast
  from Cons.IH [OF 1(2)] obtain zs where "L s' = L s1 @ zs"
      "list_all2 (\<lambda>(hdr, d) z. P (received_header hdr d) d z) fs zs" by blast
  with z f show ?case by (intro exI [of _ "z # zs"]) simp
qed simp

definition progress :: "bytes \<Rightarrow> packets \<Rightarrow> 's \<Rightarrow> buffer \<times> bool \<times> packet_header \<times> bool \<times> 's \<Rightarrow> bool" where
  "progress fut fs s = (\<lambda>(b', got', header', broken', s'). \<not> broken' \<and> buf_ok b' \<and> inv s' \<and>
     (\<exists>gs rs. fs = gs @ rs \<and> acts gs s s' \<and> at_rest S got' header' (unread b') fut rs))"

lemma progress_Cons:
  assumes "progress fut fs s1 st" and "act (received_header hdr d) d s s1"
  shows "progress fut ((hdr, d) # fs) s st"
proof -
  obtain b' got' header' broken' s' where st: "st = (b', got', header', broken', s')"
    by (cases st)
  with assms(1) obtain gs rs where "fs = gs @ rs" "acts gs s1 s'"
      "at_rest S got' header' (unread b') fut rs"
    by (auto simp: progress_def)
  then have "(hdr, d) # fs = ((hdr, d) # gs) @ rs" "acts ((hdr, d) # gs) s s'"
      "at_rest S got' header' (unread b') fut rs"
    using assms(2) by auto
  with assms(1) st show ?thesis unfolding progress_def by blast
qed

lemma progress_stop:
  "buf_ok b \<Longrightarrow> inv s \<Longrightarrow> at_rest S got header (unread b) fut fs \<Longrightarrow>
     progress fut fs s (b, got, header, False, s)"
  unfolding progress_def by (auto intro: exI [of _ "[]"])

lemma body_step:
  assumes IH: "\<And>b header s. inv s \<Longrightarrow> buf_ok b \<Longrightarrow> length (unread b) < 2 ^ 31 \<Longrightarrow>
      unread b @ fut = frames S fs \<Longrightarrow> wp (on_message_loop S handle b False header s) (progress fut fs s)"
    and inv: "inv s" and good: "good hdr d" and b: "buf_ok b" "length (unread b) < 2 ^ 31"
    and u: "unread b @ fut = d @ frames S fs" and header: "header = received_header hdr d"
  shows "wp (do { n \<leftarrow> Buffer_length b;
                  if sint (dataLen header) \<le> sint (of_nat n :: u32) then do {
                    (input, s) \<leftarrow> handle b header s;
                    on_message_loop S handle input False (header\<lparr> dataLen := 0 \<rparr>) s }
                  else Some (b, True, header, False, s) })
            (progress fut ((hdr, d) # fs) s)"
proof -
  have l: "sint (dataLen header) = int (length d)"
    using dataLen_frame(1) [OF good_length [OF good]] by (simp add: header received_header_def)
  have n: "sint (of_nat (length (unread b)) :: u32) = int (length (unread b))"
    by (rule sint32_of_nat [OF b(2)])
  show ?thesis
  proof (cases "length d \<le> length (unread b)")
    case True
    then obtain r where r: "unread b = d @ r" "r @ fut = frames S fs"
      using append_eq_prefix [OF u] by blast
    show ?thesis
      using True l n b
      apply (simp add: header)
      apply (rule wp_mono [OF handle_law [OF inv good b(1) r(1)]], clarify)
      apply (rule wp_mono [OF IH])
      using r b(2) by (auto intro: progress_Cons)
  next
    case False
    then show ?thesis using l n b u inv header
      by (auto intro!: progress_stop)
  qed
qed

lemma loop_from_header:
  assumes "\<And>hdr d. (hdr, d) \<in> set fs \<Longrightarrow> good hdr d"
    and "inv s" and "buf_ok b" and "length (unread b) < 2 ^ 31" and "unread b @ fut = frames S fs"
  shows "wp (on_message_loop S handle b False header s) (progress fut fs s)"
  using assms
proof (induction fs arbitrary: b header s)
  case Nil
  then show ?case by (simp add: on_message_loop.simps progress_stop)
next
  case (Cons f fs)
  obtain hdr d where f: "f = (hdr, d)" by force
  have good: "good hdr d" using Cons.prems(1) f by simp
  consider "length (unread b) = 0" | "0 < length (unread b)" "length (unread b) < 16"
    | "16 \<le> length (unread b)" by linarith
  then show ?case
  proof cases
    case 1
    then show ?thesis using Cons.prems
      by (subst on_message_loop.simps) (auto intro!: progress_stop)
  next
    case 2
    then show ?thesis using Cons.prems GetPacketInfo_short [OF Cons.prems(3) with_header 2(2)]
      by (subst on_message_loop.simps) (auto intro!: progress_stop)
  next
    case 3
    let ?h = "be32 (nPacketFlag S) @ be32 (chid hdr) @ be32 (pcode hdr) @ be32 (of_nat (length d))"
    have "unread b @ fut = ?h @ d @ frames S fs" using Cons.prems(5) f by (simp add: frame_def)
    then obtain u where u: "unread b = ?h @ u" "u @ fut = d @ frames S fs"
      using append_eq_prefix [of "unread b" fut ?h "d @ frames S fs"] 3 by auto
    then have u1: "unread b = be32 (nPacketFlag S) @ be32 (chid hdr) @ be32 (pcode hdr) @
      be32 (of_nat (length d)) @ u" by simp
    have get: "wp (GetPacketInfo S b header False) (\<lambda>(got, b', header', broken). got \<and> \<not> broken \<and>
        buf_ok b' \<and> unread b' = u \<and> header' = received_header hdr d)"
      by (rule wp_mono [OF wp_GetPacketInfo [OF Cons.prems(3) with_header u1]])
        (use dataLen_frame(2) [OF good_length [OF good]] in \<open>auto simp: received_header_def\<close>)
    have step: "wp (do { n \<leftarrow> Buffer_length b';
                  if sint (dataLen (received_header hdr d)) \<le> sint (of_nat n :: u32) then do {
                    (input, s) \<leftarrow> handle b' (received_header hdr d) s;
                    on_message_loop S handle input False ((received_header hdr d)\<lparr> dataLen := 0 \<rparr>) s }
                  else Some (b', True, received_header hdr d, False, s) })
            (progress fut ((hdr, d) # fs) s)" if "buf_ok b'" "unread b' = u" for b'
    proof (rule body_step [OF _ Cons.prems(2) good that(1) _ _ refl])
      show "wp (on_message_loop S handle b False header s) (progress fut fs s)"
        if "inv s" "buf_ok b" "length (unread b) < 2 ^ 31" "unread b @ fut = frames S fs" for b header s
        using Cons.prems(1) that by (intro Cons.IH) auto
    qed (use that u Cons.prems(4) in auto)
    have n: "length (unread b) \<noteq> 0" using 3 by linarith
    show ?thesis
      apply (subst on_message_loop.simps)
      apply (simp add: Cons.prems(3) n f del: length_0_conv)
      apply (rule wp_mono [OF get], clarify)
      subgoal for got b' using step [of b'] by (simp split: if_splits)
      done
  qed
qed

lemma loop_at_rest:
  assumes good: "\<And>hdr d. (hdr, d) \<in> set fs \<Longrightarrow> good hdr d"
    and "inv s" and b: "buf_ok b" "length (unread b) < 2 ^ 31"
    and rest: "at_rest S got header u (c @ fut) fs" and u: "unread b = u @ c"
  shows "wp (on_message_loop S handle b got header s) (progress fut fs s)"
proof (cases got)
  case False
  then show ?thesis using assms by (auto intro: loop_from_header)
next
  case True
  with rest obtain hdr d fs' where fs: "fs = (hdr, d) # fs'" "header = received_header hdr d"
      "u @ c @ fut = d @ frames S fs'" "length u < length d"
    by (cases fs) auto
  have gd: "good hdr d" using good fs by simp
  have step: "wp (do { n \<leftarrow> Buffer_length b;
                  if sint (dataLen header) \<le> sint (of_nat n :: u32) then do {
                    (input, s) \<leftarrow> handle b header s;
                    on_message_loop S handle input False (header\<lparr> dataLen := 0 \<rparr>) s }
                  else Some (b, True, header, False, s) })
            (progress fut ((hdr, d) # fs') s)"
    by (rule body_step [OF loop_from_header assms(2) gd b _ fs(2)]) (use fs u good in auto)
  show ?thesis
  proof (cases "unread b = []")
    case True
    then show ?thesis using fs u b assms(2) \<open>got\<close>
      by (subst on_message_loop.simps) (auto intro!: progress_stop)
  next
    case False
    then show ?thesis using step b \<open>got\<close> fs(1) by (subst on_message_loop.simps) simp
  qed
qed

lemma at_rest_length:
  assumes "at_rest S got header u fut fs" and "\<And>hdr d. (hdr, d) \<in> set fs \<Longrightarrow> good hdr d"
  shows "length u \<le> 0x4000000"
proof (cases got)
  case True
  with assms(1) obtain hdr d fs' where "fs = (hdr, d) # fs'" "length u < length d" by (cases fs) auto
  with assms(2) good_length [of hdr d] show ?thesis by simp
qed (use assms in simp)

lemma feed_chunks:
  assumes "\<And>hdr d. (hdr, d) \<in> set fs \<Longrightarrow> good hdr d" and "inv s" and "buf_ok b"
    and "at_rest S got header (unread b) (concat cs) fs" and "\<forall>c \<in> set cs. length c \<le> 2 ^ 30"
  shows "wp (feed S handle (b, got, header, s) cs) (\<lambda>(b', got', header', s'). buf_ok b' \<and> inv s' \<and>
           unread b' = [] \<and> \<not> got' \<and> acts fs s s')"
  using assms
proof (induction cs arbitrary: b got header s fs)
  case Nil
  then have "unread b = [] \<and> \<not> got \<and> fs = []"
    by (cases got; cases fs) (auto simp: frame_def)
  with Nil show ?case by simp
next
  case (Cons c cs)
  have len: "length (unread b @ c) < 2 ^ 31"
    using at_rest_length [OF Cons.prems(4,1)] Cons.prems(5) by simp
  have read: "wp (ReadFromFD b (Inr c)) (\<lambda>(n, e, b'). buf_ok b' \<and> unread b' = unread b @ c)"
    by (rule wp_mono [OF wp_ReadFromFD [OF Cons.prems(3)]]) auto
  have msg: "wp (on_message S handle b' got header s) (\<lambda>(b2, got2, header2, s2). buf_ok b2 \<and> inv s2 \<and>
       (\<exists>gs rs. fs = gs @ rs \<and> acts gs s s2 \<and> at_rest S got2 header2 (unread b2) (concat cs) rs))"
    if b': "buf_ok b'" "unread b' = unread b @ c" for b'
  proof -
    have "wp (on_message_loop S handle b' got header s) (progress (concat cs) fs s)"
      using Cons.prems(1,2,4) b' len by (intro loop_at_rest) auto
    then show ?thesis unfolding on_message_def wp_bind
      by (elim wp_mono) (clarsimp simp: progress_def, blast)
  qed
  have rest: "wp (feed S handle (b2, got2, header2, s2) cs) (\<lambda>(b', got', header', s'). buf_ok b' \<and> inv s' \<and>
           unread b' = [] \<and> \<not> got' \<and> acts (gs @ rs) s s')"
    if "buf_ok b2" "inv s2" "fs = gs @ rs" "acts gs s s2" "at_rest S got2 header2 (unread b2) (concat cs) rs"
    for b2 got2 header2 s2 gs rs
  proof -
    have "wp (feed S handle (b2, got2, header2, s2) cs) (\<lambda>(b', got', header', s'). buf_ok b' \<and> inv s' \<and>
           unread b' = [] \<and> \<not> got' \<and> acts rs s2 s')"
      using Cons.prems(1,5) that by (intro Cons.IH) auto
    then show ?thesis by (elim wp_mono) (auto simp: acts_append intro: exI [of _ s2] that(4))
  qed
  show ?case
    unfolding feed.simps wp_bind
    apply (rule wp_mono [OF read], clarify)
    apply (unfold wp_bind)
    apply (rule wp_mono [OF msg], assumption, assumption, clarify)
    using rest by blast
qed

end

section \<open>Objects that store the header\<close>

text \<open>
  \<open>gotHeader_\<close> and \<open>packetHeader_\<close> are members of the object whose \<open>HandlePacket\<close> the loop calls.
  A \<open>HandlePacket\<close> that neither reads nor writes the two members behaves on the object as it does
  on the rest of the state.
\<close>

fun receives :: "(buffer \<Rightarrow> 's \<Rightarrow> (buffer \<times> 's) option) \<Rightarrow> buffer \<times> 's \<Rightarrow> bytes list \<Rightarrow> (buffer \<times> 's) option" where
  "receives on st [] = Some st"
| "receives on (input, s) (c # cs) = do {
     (n, e, input) \<leftarrow> ReadFromFD input (Inr c);
     st \<leftarrow> on input s;
     receives on st cs }"

locale stored_header =
  fixes strm :: "'s \<Rightarrow> streamer"
    and handle :: "buffer \<Rightarrow> packet_header \<Rightarrow> 's \<Rightarrow> (buffer \<times> 's) option"
    and got :: "'s \<Rightarrow> bool"
    and hdr :: "'s \<Rightarrow> packet_header"
    and put :: "bool \<Rightarrow> packet_header \<Rightarrow> 's \<Rightarrow> 's"
  assumes got_put: "got (put g h s) = g"
    and hdr_put: "hdr (put g h s) = h"
    and put_put: "put g h (put g' h' s) = put g h s"
    and put_self: "put (got s) (hdr s) s = s"
    and strm_put: "strm (put g h s) = strm s"
    and handle_strm: "handle b x s = Some (b', s') \<Longrightarrow> strm s' = strm s"
    and handle_put: "handle b x s = Some (b', s') \<Longrightarrow> handle b x (put g h s) = Some (b', put g h s')"
begin

definition on_object :: "buffer \<Rightarrow> 's \<Rightarrow> (buffer \<times> 's) option" where
  "on_object input s = do {
     (input, g, h, s) \<leftarrow> on_message (strm s) handle input (got s) (hdr s) s;
     Some (input, put g h s) }"

lemma loop_put:
  assumes a: "on_message_loop S handle b g x s = Some (b', g', x', br, s')"
  shows "on_message_loop S handle b g x (put u v s) = Some (b', g', x', br, put u v s') \<and>
    strm s' = strm s"
proof -
  let ?put = "\<lambda>(b', g', x', br, s'). (b', g', x', br, put u v s')"
  let ?P = "\<lambda>S' H b g x s r. H = handle \<longrightarrow> on_message_loop S' handle b g x (put u v s) = Some (?put r) \<and>
    strm (snd (snd (snd (snd r)))) = strm s"
  have "?P S handle b g x s (b', g', x', br, s')"
  proof (rule on_message_loop.raw_induct [of ?P, OF _ a], rule impI)
    fix f S' H b g x s r
    assume IH: "\<And>S' H b g x s r. f S' H b g x s = Some r \<Longrightarrow> ?P S' H b g x s r" and [simp]: "H = handle"
      and run: "do {
     n \<leftarrow> Buffer_length b;
     if n = 0 then Some (b, g, x, False, s)
     else do {
       (gotHeader, input, header, broken) \<leftarrow> (if g then Some (g, b, x, False) else GetPacketInfo S' b x False);
       if broken then Some (input, gotHeader, header, True, s)
       else do {
         n \<leftarrow> Buffer_length input;
         if gotHeader \<and> sint (dataLen header) \<le> sint (of_nat n :: u32) then do {
           (input, s) \<leftarrow> H input header s;
           f S' H input False (header\<lparr> dataLen := 0 \<rparr>) s }
         else Some (input, gotHeader, header, False, s) } } } = Some r"
    show "on_message_loop S' handle b g x (put u v s) = Some (?put r) \<and> strm (snd (snd (snd (snd r)))) = strm s"
      apply (subst on_message_loop.simps)
      using run
      apply (auto split: Option.bind_split_asm prod.split_asm if_split_asm)
       apply (frule handle_put [where g = u and h = v], drule IH, drule handle_strm, simp split: prod.splits)+
      done
  qed
  then show ?thesis by simp
qed

lemma feed_receives:
  "feed S handle (b, g, h, s) cs = Some (b', g', h', s') \<Longrightarrow> strm s = S \<Longrightarrow>
   receives on_object (b, put g h s) cs = Some (b', put g' h' s')"
proof (induction cs arbitrary: b g h s)
  case (Cons c cs)
  then obtain n e b1 b2 g2 h2 br s2 where
    1: "ReadFromFD b (Inr c) = Some (n, e, b1)" "on_message_loop S handle b1 g h s = Some (b2, g2, h2, br, s2)"
      "feed S handle (b2, if br then False else g2, h2, s2) cs = Some (b', g', h', s')"
    by (auto simp: on_message_def Option.bind_eq_Some_conv)
  from loop_put [OF 1(2)] Cons.IH [OF 1(3)] Cons.prems(2) 1(1) show ?case
    by (simp add: on_object_def on_message_def got_put hdr_put put_put strm_put)
qed simp

lemma wp_receives:
  assumes "wp (feed (strm s) handle (b, got s, hdr s, s) cs) (\<lambda>(b', g', h', s'). Q b' (put g' h' s'))"
  shows "wp (receives on_object (b, s) cs) (\<lambda>(b', s'). Q b' s')"
proof -
  obtain b' g' h' s' where r: "feed (strm s) handle (b, got s, hdr s, s) cs = Some (b', g', h', s')" "Q b' (put g' h' s')"
    using assms by (auto simp: wp_def)
  from feed_receives [OF r(1) refl] r(2) show ?thesis by (simp add: put_self)
qed

end

section \<open>Packets of a class with codec laws\<close>

locale framed_codec = packet_codec +
  fixes S :: streamer
  assumes framed_streamer: "existPacketHeader S" "has_factory S"
begin

definition encoded :: "packet_header \<Rightarrow> bytes \<Rightarrow> bool" where
  "encoded hdr d \<longleftrightarrow> (\<exists>x. valid x \<and> enc x = d)"

text \<open>What user code sees of a packet that arrived with header \<open>hdr\<close> and body bytes \<open>d\<close>.\<close>

definition arrives :: "packet_header \<Rightarrow> bytes \<Rightarrow> 'a seen \<Rightarrow> bool" where
  "arrives hdr d z \<longleftrightarrow> (\<exists>x y. valid x \<and> enc x = d \<and> same x y \<and> z = SeenPacket hdr y)"

end

end
