(* ===== verification/Echo.thy ===== *)
theory Echo
  imports Streamer
begin

text \<open>
  The packet classes of the echo programs (\<open>common/net/test/echoclient.cc\<close>,
  \<open>echoserver.cc\<close>): a packet carries a C string in an array of 4096 characters. The client's
  class is an instance of \<open>packet_codec\<close>, so the framing theorems hold for it; the server's
  class is one too, where the string that arrives differs in the character it overwrites.
\<close>

section \<open>C strings in arrays\<close>

definition DATA_MAX_SIZE :: nat where
  "DATA_MAX_SIZE = 4096"

definition strlen :: "bytes \<Rightarrow> nat" where
  "strlen s = length (takeWhile (\<lambda>c. c \<noteq> 0) s)"

definition cstr :: "bytes \<Rightarrow> bytes" where
  "cstr s = takeWhile (\<lambda>c. c \<noteq> 0) s"

lemma take_strlen: "take (strlen s) s = cstr s"
  unfolding strlen_def cstr_def by (metis takeWhile_eq_take)

text \<open>\<open>strncpy\<close> copies up to the terminator and fills the rest of the \<open>n\<close> characters with zeros.\<close>

definition strncpy :: "bytes \<Rightarrow> nat \<Rightarrow> bytes" where
  "strncpy src n = take n (cstr src) @ replicate (n - length (cstr src)) 0"

lemma length_strncpy [simp]: "length (strncpy s n) = n"
  by (simp add: strncpy_def)

lemma cstr_no_zero: "0 \<notin> set s \<Longrightarrow> cstr s = s"
  by (auto simp: cstr_def takeWhile_eq_all_conv)

lemma zero_notin_cstr [simp]: "0 \<notin> set (cstr s)"
  unfolding cstr_def by (metis (mono_tags) set_takeWhileD)

lemma cstr_append_zero: "0 \<notin> set s \<Longrightarrow> cstr (s @ 0 # r) = s"
  unfolding cstr_def by (induction s) auto

lemma cstr_strncpy: "length (cstr s) < n \<Longrightarrow> cstr (strncpy s n) = cstr s"
proof -
  assume "length (cstr s) < n"
  then have "strncpy s n = cstr s @ 0 # replicate (n - length (cstr s) - 1) 0"
    by (cases "n - length (cstr s)") (auto simp: strncpy_def)
  then show ?thesis by (simp add: cstr_append_zero)
qed

section \<open>The client's packet\<close>

record echo_packet =
  str :: bytes
  recvLen :: u32
  index :: u32

text \<open>The constructor terminates the string; the other characters are indeterminate.\<close>

definition ClientEchoPacket_new :: echo_packet where
  "ClientEchoPacket_new = \<lparr> str = replicate DATA_MAX_SIZE 0, recvLen = 0, index = 0 \<rparr>"

definition ClientEchoPacket_SetString :: "echo_packet \<Rightarrow> bytes \<Rightarrow> echo_packet" where
  "ClientEchoPacket_SetString x s =
     x\<lparr> str := (strncpy s DATA_MAX_SIZE)[DATA_MAX_SIZE - 1 := 0] \<rparr>"

definition ClientEchoPacket_GetString :: "echo_packet \<Rightarrow> bytes" where
  "ClientEchoPacket_GetString x = cstr (str x)"

definition ClientEchoPacket_Encode :: "echo_packet \<Rightarrow> buffer \<Rightarrow> (bool \<times> echo_packet \<times> buffer) option" where
  "ClientEchoPacket_Encode x output = do {
     output \<leftarrow> Buffer_Append output (take (strlen (str x)) (str x));
     Some (True, x, output) }"

text \<open>\<open>str_[len] = '\0'\<close> outside of the array is a fault.\<close>

definition ClientEchoPacket_Decode :: "echo_packet \<Rightarrow> buffer \<Rightarrow> packet_header \<Rightarrow>
    (bool \<times> echo_packet \<times> buffer) option" where
  "ClientEchoPacket_Decode x input header = do {
     let x = x\<lparr> recvLen := dataLen header \<rparr>;
     let len = dataLen header;
     let len = (if sint len \<ge> int DATA_MAX_SIZE then of_nat (DATA_MAX_SIZE - 1) else len);
     (s, input) \<leftarrow> NextString input (size_of_int len);
     let x = x\<lparr> str := strncpy s DATA_MAX_SIZE \<rparr>;
     assert_that (0 \<le> sint len \<and> sint len < int DATA_MAX_SIZE);
     let x = x\<lparr> str := (str x)[nat (sint len) := 0] \<rparr>;
     input \<leftarrow> (if sint (dataLen header) > sint len
                 then Skip input (size_of_int (dataLen header - len)) else Some input);
     Some (True, x, input) }"

text \<open>\<open>Free\<close> does nothing: the handler deletes the packet.\<close>

definition ClientEcho :: "echo_packet packet_class" where
  "ClientEcho = \<lparr> vEncode = ClientEchoPacket_Encode, vDecode = ClientEchoPacket_Decode,
                  free_deletes = False, CreatePacket = \<lambda>pcode. Some ClientEchoPacket_new \<rparr>"

section \<open>The server's packet\<close>

definition EchoPacket_new :: bytes where
  "EchoPacket_new = replicate DATA_MAX_SIZE 0"

definition EchoPacket_SetString :: "bytes \<Rightarrow> bytes" where
  "EchoPacket_SetString s = (strncpy s DATA_MAX_SIZE)[DATA_MAX_SIZE - 1 := 0]"

definition EchoPacket_GetString :: "bytes \<Rightarrow> bytes" where
  "EchoPacket_GetString x = cstr x"

definition EchoPacket_Encode :: "bytes \<Rightarrow> buffer \<Rightarrow> (bool \<times> bytes \<times> buffer) option" where
  "EchoPacket_Encode x output = do {
     output \<leftarrow> Buffer_Append output (take (strlen x) x);
     Some (True, x, output) }"

definition EchoPacket_Decode :: "bytes \<Rightarrow> buffer \<Rightarrow> packet_header \<Rightarrow> (bool \<times> bytes \<times> buffer) option" where
  "EchoPacket_Decode x input header = do {
     let len = dataLen header;
     let len = (if sint len \<ge> int DATA_MAX_SIZE then of_nat (DATA_MAX_SIZE - 1) else len);
     (s, input) \<leftarrow> NextString input (size_of_int len);
     let x = (strncpy s DATA_MAX_SIZE)[21 := 97];
     assert_that (0 \<le> sint len \<and> sint len < int DATA_MAX_SIZE);
     Some (True, x[nat (sint len) := 0], input) }"

definition EchoServer :: "bytes packet_class" where
  "EchoServer = \<lparr> vEncode = EchoPacket_Encode, vDecode = EchoPacket_Decode,
                  free_deletes = True, CreatePacket = \<lambda>pcode. Some EchoPacket_new \<rparr>"

section \<open>The client's packet fits the framing\<close>

definition echo_valid :: "echo_packet \<Rightarrow> bool" where
  "echo_valid x \<longleftrightarrow> length (str x) = DATA_MAX_SIZE \<and> 0 \<in> set (str x)"

definition echo_same :: "echo_packet \<Rightarrow> echo_packet \<Rightarrow> bool" where
  "echo_same x y \<longleftrightarrow> ClientEchoPacket_GetString y = ClientEchoPacket_GetString x \<and>
     recvLen y = of_nat (length (ClientEchoPacket_GetString x)) \<and> echo_valid y"

lemma length_takeWhile_mem: "x \<in> set l \<Longrightarrow> \<not> P x \<Longrightarrow> length (takeWhile P l) < length l"
  by (metis length_takeWhile_le nat_less_le set_takeWhileD takeWhile_eq_take take_all_iff order_refl)

lemma echo_valid_length: "echo_valid x \<Longrightarrow> length (cstr (str x)) < DATA_MAX_SIZE"
  unfolding echo_valid_def cstr_def using length_takeWhile_mem [of 0 "str x"] by fastforce

lemma echo_valid_SetString:
  "length (str x) = DATA_MAX_SIZE \<Longrightarrow> echo_valid (ClientEchoPacket_SetString x s)"
  unfolding echo_valid_def ClientEchoPacket_SetString_def
  by (auto simp: DATA_MAX_SIZE_def intro!: set_update_memI)

lemma wp_ClientEcho_Encode:
  assumes "buf_ok b"
  shows "wp (ClientEchoPacket_Encode x b) (\<lambda>(ok, x', b'). ok \<and> x' = x \<and> buf_ok b' \<and>
           unread b' = unread b @ ClientEchoPacket_GetString x)"
  using wp_Buffer_Append [OF assms, of "cstr (str x)"]
  by (auto simp: ClientEchoPacket_Encode_def ClientEchoPacket_GetString_def take_strlen elim!: wp_mono)

lemma wp_ClientEcho_Decode:
  assumes v: "echo_valid x" and ok: "buf_ok b" and u: "unread b = ClientEchoPacket_GetString x @ r"
    and l: "dataLen hdr = of_nat (length (ClientEchoPacket_GetString x))"
  shows "wp (ClientEchoPacket_Decode y b hdr) (\<lambda>(ok, x', b'). ok \<and> buf_ok b' \<and> unread b' = r \<and> echo_same x x')"
proof -
  let ?s = "ClientEchoPacket_GetString x"
  have n: "length ?s < DATA_MAX_SIZE" using echo_valid_length [OF v] by (simp add: ClientEchoPacket_GetString_def)
  have s: "sint (dataLen hdr) = int (length ?s)"
    unfolding l by (rule sint32_of_nat) (use n in \<open>simp add: DATA_MAX_SIZE_def\<close>)
  have z: "size_of_int (dataLen hdr) = length ?s" using s by (simp add: size_of_int_nonneg)
  have c: "cstr ?s = ?s" by (simp add: ClientEchoPacket_GetString_def cstr_no_zero)
  have p: "strncpy ?s DATA_MAX_SIZE = ?s @ 0 # replicate (DATA_MAX_SIZE - length ?s - 1) 0"
    using n c by (cases "DATA_MAX_SIZE - length ?s") (auto simp: strncpy_def)
  have q: "(strncpy ?s DATA_MAX_SIZE)[length ?s := 0] = strncpy ?s DATA_MAX_SIZE" unfolding p by simp
  have same: "echo_same x (y\<lparr> recvLen := dataLen hdr, str := strncpy ?s DATA_MAX_SIZE \<rparr>)"
    using cstr_strncpy [of ?s DATA_MAX_SIZE] n c l p
    by (auto simp: echo_same_def echo_valid_def ClientEchoPacket_GetString_def)
  have "wp (NextString b (length ?s)) (\<lambda>(t, b'). t = ?s \<and> buf_ok b' \<and> unread b' = r)"
    unfolding NextString_def using wp_Buffer_Next [OF ok, of "length ?s"] u by (auto elim!: wp_mono)
  then show ?thesis using n s z q same
    by (auto simp: ClientEchoPacket_Decode_def Let_def elim!: wp_mono)
qed

interpretation echo: packet_codec ClientEcho echo_valid ClientEchoPacket_GetString echo_same
proof
  fix x b hdr x0 r c
  show "wp (vEncode ClientEcho x b) (\<lambda>(ok, x', b'). ok \<and> x' = x \<and> buf_ok b' \<and>
          unread b' = unread b @ ClientEchoPacket_GetString x)" if "buf_ok b"
    using wp_ClientEcho_Encode [OF that] by (simp add: ClientEcho_def)
  show "length (ClientEchoPacket_GetString x) \<le> 0x4000000" if "echo_valid x"
    using echo_valid_length [OF that] by (simp add: ClientEchoPacket_GetString_def DATA_MAX_SIZE_def)
  show "CreatePacket ClientEcho c \<noteq> None" by (simp add: ClientEcho_def)
  show "wp (vDecode ClientEcho x0 b hdr) (\<lambda>(ok, x', b'). ok \<and> buf_ok b' \<and> unread b' = r \<and> echo_same x x')"
    if "echo_valid x" "buf_ok b" "unread b = ClientEchoPacket_GetString x @ r"
      "dataLen hdr = of_nat (length (ClientEchoPacket_GetString x))"
    using wp_ClientEcho_Decode [OF that] by (simp add: ClientEcho_def)
qed

section \<open>The server's packet fits the framing\<close>

text \<open>The string that arrives has an \<open>a\<close> at position 21, where the packet's has any character.\<close>

definition srv_valid :: "bytes \<Rightarrow> bool" where
  "srv_valid x \<longleftrightarrow> length x = DATA_MAX_SIZE \<and> 0 \<in> set x"

definition srv_same :: "bytes \<Rightarrow> bytes \<Rightarrow> bool" where
  "srv_same x y \<longleftrightarrow> EchoPacket_GetString y = (EchoPacket_GetString x)[21 := 97] \<and> srv_valid y"

lemma srv_valid_length: "srv_valid x \<Longrightarrow> length (cstr x) < DATA_MAX_SIZE"
  unfolding srv_valid_def cstr_def using length_takeWhile_mem [of 0 x] by fastforce

lemma srv_valid_SetString: "srv_valid (EchoPacket_SetString s)"
  by (auto simp: srv_valid_def EchoPacket_SetString_def DATA_MAX_SIZE_def intro!: set_update_memI)

lemma GetString_SetString:
  "length s < DATA_MAX_SIZE \<Longrightarrow> 0 \<notin> set s \<Longrightarrow> EchoPacket_GetString (EchoPacket_SetString s) = s"
proof -
  assume s: "length s < DATA_MAX_SIZE" "0 \<notin> set s"
  obtain n where n: "DATA_MAX_SIZE - length s = Suc n" using s(1) by (cases "DATA_MAX_SIZE - length s") auto
  have "(s @ 0 # replicate n 0)[DATA_MAX_SIZE - 1 := 0] = s @ 0 # replicate n 0"
    by (rule list_eq_iff_nth_eq [THEN iffD2]) (use n in \<open>auto simp: nth_list_update nth_append nth_Cons'\<close>)
  with s n show ?thesis
    by (simp add: EchoPacket_GetString_def EchoPacket_SetString_def strncpy_def cstr_no_zero cstr_append_zero)
qed

lemma Client_GetString_SetString:
  "length s < DATA_MAX_SIZE \<Longrightarrow> 0 \<notin> set s \<Longrightarrow> ClientEchoPacket_GetString (ClientEchoPacket_SetString x s) = s"
  using GetString_SetString [of s]
  by (simp add: ClientEchoPacket_GetString_def ClientEchoPacket_SetString_def EchoPacket_SetString_def EchoPacket_GetString_def)

lemma wp_EchoServer_Decode:
  assumes v: "srv_valid x" and ok: "buf_ok b" and u: "unread b = EchoPacket_GetString x @ r"
    and l: "dataLen hdr = of_nat (length (EchoPacket_GetString x))"
  shows "wp (EchoPacket_Decode y b hdr) (\<lambda>(ok, x', b'). ok \<and> buf_ok b' \<and> unread b' = r \<and> srv_same x x')"
proof -
  let ?s = "EchoPacket_GetString x"
  have n: "length ?s < DATA_MAX_SIZE" using srv_valid_length [OF v] by (simp add: EchoPacket_GetString_def)
  have s: "sint (dataLen hdr) = int (length ?s)"
    unfolding l by (rule sint32_of_nat) (use n in \<open>simp add: DATA_MAX_SIZE_def\<close>)
  have z: "size_of_int (dataLen hdr) = length ?s" using s by (simp add: size_of_int_nonneg)
  have c: "cstr ?s = ?s" "0 \<notin> set ?s" by (simp_all add: EchoPacket_GetString_def cstr_no_zero)
  then have p: "strncpy ?s DATA_MAX_SIZE = ?s @ 0 # replicate (DATA_MAX_SIZE - length ?s - 1) 0"
    using n by (cases "DATA_MAX_SIZE - length ?s") (auto simp: strncpy_def)
  let ?t = "strncpy ?s DATA_MAX_SIZE"
  have "?t[21 := 97, length ?s := 0] = take (length ?s) (?t[21 := 97]) @ 0 # drop (Suc (length ?s)) (?t[21 := 97])"
    by (rule upd_conv_take_nth_drop) (use n in simp)
  also have "take (length ?s) (?t[21 := 97]) = ?s[21 := 97]"
    by (simp add: take_update_swap p)
  finally have q: "?t[21 := 97, length ?s := 0] = ?s[21 := 97] @ 0 # drop (Suc (length ?s)) (?t[21 := 97])" .
  have z0: "0 \<notin> set (?s[21 := 97])" using c(2) set_update_subset_insert [of ?s 21 97] by auto
  have same: "srv_same x ((strncpy ?s DATA_MAX_SIZE)[21 := 97, length ?s := 0])"
    unfolding srv_same_def srv_valid_def
    by (simp only: q EchoPacket_GetString_def [of "_ @ _"] cstr_append_zero [OF z0]) (use n in simp)
  have "wp (NextString b (length ?s)) (\<lambda>(t, b'). t = ?s \<and> buf_ok b' \<and> unread b' = r)"
    unfolding NextString_def using wp_Buffer_Next [OF ok, of "length ?s"] u by (auto elim!: wp_mono)
  then show ?thesis using n s z same
    by (auto simp: EchoPacket_Decode_def Let_def elim!: wp_mono)
qed

interpretation echo_server: packet_codec EchoServer srv_valid EchoPacket_GetString srv_same
proof
  fix x b hdr x0 r c
  show "wp (vEncode EchoServer x b) (\<lambda>(ok, x', b'). ok \<and> x' = x \<and> buf_ok b' \<and>
          unread b' = unread b @ EchoPacket_GetString x)" if "buf_ok b"
    using wp_Buffer_Append [OF that, of "cstr x"]
    by (auto simp: EchoServer_def EchoPacket_Encode_def EchoPacket_GetString_def take_strlen elim!: wp_mono)
  show "length (EchoPacket_GetString x) \<le> 0x4000000" if "srv_valid x"
    using srv_valid_length [OF that] by (simp add: EchoPacket_GetString_def DATA_MAX_SIZE_def)
  show "CreatePacket EchoServer c \<noteq> None" by (simp add: EchoServer_def)
  show "wp (vDecode EchoServer x0 b hdr) (\<lambda>(ok, x', b'). ok \<and> buf_ok b' \<and> unread b' = r \<and> srv_same x x')"
    if "srv_valid x" "buf_ok b" "unread b = EchoPacket_GetString x @ r"
      "dataLen hdr = of_nat (length (EchoPacket_GetString x))"
    using wp_EchoServer_Decode [OF that] by (simp add: EchoServer_def)
qed

section \<open>Properties\<close>

text \<open>
  C8. Framing round trip: for every packet class whose body encoding satisfies the codec laws,
  encoding a packet into an empty buffer and reading the buffer back yields the same channel
  identifier and packet code, the length of the body, an unbroken stream, and a freshly
  allocated packet whose body means the same; not a byte is left over.
\<close>

theorem Streamer_roundtrip:
  assumes "packet_codec cls valid enc same"
    and "h p = Some pk" and "valid (body pk)" and "buf_ok out" and "unread out = []"
    and "existPacketHeader S" and "has_factory S" and "pmem_ok M"
  shows "wp (Streamer_Encode cls S h p out) (\<lambda>(r, h', out'). r \<and>
           wp (GetPacketInfo S out' hdr False) (\<lambda>(got, b, hdr', broken). got \<and> \<not> broken \<and>
             hdr' = (packetHeader pk)\<lparr> dataLen := of_nat (length (enc (body pk))) \<rparr> \<and>
             wp (Streamer_Decode cls S M b hdr') (\<lambda>(q, M', b'). \<exists>a x'. q = Some a \<and> objs M a = None \<and>
               objs M' a = Some (Packet_new x') \<and> same (body pk) x' \<and> unread b' = [])))"
  using packet_codec.frame_roundtrip [of cls valid enc same h p pk, OF assms] .

definition hello_packet :: "echo_packet packet" where
  "hello_packet = Packet_SetChannelId (Packet_new
     (ClientEchoPacket_SetString ClientEchoPacket_new [104, 101, 108, 108, 111])) 5"

definition empty_pmem :: "echo_packet pmem" where
  "empty_pmem = \<lparr> objs = Map.empty, next_addr = 0 \<rparr>"

lemma hello_valid: "echo_valid (body hello_packet)"
  by (simp add: hello_packet_def Packet_SetChannelId_def Packet_new_def echo_valid_SetString
      ClientEchoPacket_new_def)

theorem Streamer_roundtrip_witness:
  "wp (Streamer_Encode ClientEcho (DefaultPacketStreamer_new True) [1 \<mapsto> hello_packet] 1 sample_buffer)
     (\<lambda>(r, h', out'). r \<and>
        wp (GetPacketInfo (DefaultPacketStreamer_new True) out' header_zero False)
          (\<lambda>(got, b, hdr', broken). got \<and> \<not> broken \<and>
             hdr' = (packetHeader hello_packet)\<lparr> dataLen :=
               of_nat (length (ClientEchoPacket_GetString (body hello_packet))) \<rparr> \<and>
             wp (Streamer_Decode ClientEcho (DefaultPacketStreamer_new True)
                   empty_pmem b hdr')
               (\<lambda>(q, M', b'). \<exists>a x'. q = Some a \<and> objs empty_pmem a = None \<and>
                  objs M' a = Some (Packet_new x') \<and> echo_same (body hello_packet) x' \<and>
                  unread b' = [])))"
  by (rule Streamer_roundtrip [OF echo.packet_codec_axioms,
        where h = "[1 \<mapsto> hello_packet]" and p = 1 and pk = hello_packet])
    (simp_all add: hello_valid DefaultPacketStreamer_new_def pmem_ok_def empty_pmem_def)

text \<open>
  The echo server's \<open>Decode\<close> does not skip the part of a body that does not fit its array,
  as the client's does: of a body of 4096 bytes or more all but the first 4095 bytes stay in
  the input, where the next call reads them as a packet header.
\<close>

theorem EchoPacket_Decode_leaves:
  assumes "buf_ok b" and "int DATA_MAX_SIZE \<le> sint (dataLen hdr)"
  shows "wp (EchoPacket_Decode x b hdr) (\<lambda>(ok, x', b'). ok \<and> unread b' = drop 4095 (unread b)) \<and>
         wp (ClientEchoPacket_Decode y b hdr) (\<lambda>(ok, y', b'). ok \<and>
           unread b' = drop (nat (sint (dataLen hdr))) (unread b))"
proof -
  let ?d = "dataLen hdr"
  have z: "size_of_int (4095 :: u32) = 4095" "sint (4095 :: u32) = 4095"
    by (simp_all add: size_of_int_nonneg)
  have d: "4096 \<le> sint ?d" using assms(2) by (simp add: DATA_MAX_SIZE_def)
  have "word_of_int (sint ?d - 4095) = ?d - 4095" by (simp add: wi_hom_syms)
  moreover have "sint (word_of_int (sint ?d - 4095) :: u32) = sint ?d - 4095"
    using d sint32_upper [of ?d] by (simp only: sint_sbintrunc' signed_take_bit_int_eq_self_iff) simp
  ultimately have "sint (?d - 4095) = sint ?d - 4095" by simp
  then have e: "size_of_int (?d - 4095) = nat (sint ?d) - 4095"
    using d by (simp add: size_of_int_nonneg nat_diff_distrib)
  note nxt = wp_Buffer_Next [OF assms(1), of 4095]
  have "wp (EchoPacket_Decode x b hdr) (\<lambda>(ok, x', b'). ok \<and> unread b' = drop 4095 (unread b))"
    using nxt d by (auto simp: EchoPacket_Decode_def DATA_MAX_SIZE_def z NextString_def Let_def elim!: wp_mono)
  moreover have "wp (ClientEchoPacket_Decode y b hdr) (\<lambda>(ok, y', b'). ok \<and>
           unread b' = drop (nat (sint ?d)) (unread b))"
    using nxt d by (auto simp: ClientEchoPacket_Decode_def DATA_MAX_SIZE_def z e NextString_def Let_def
        elim!: wp_mono intro!: wp_mono [OF wp_Skip])
  ultimately show ?thesis by blast
qed

theorem EchoPacket_Decode_leaves_witness:
  "wp (EchoPacket_Decode EchoPacket_new sample_buffer (header_zero\<lparr> dataLen := 5000 \<rparr>))
     (\<lambda>(ok, x', b'). ok \<and> unread b' = drop 4095 (unread sample_buffer)) \<and>
   wp (ClientEchoPacket_Decode ClientEchoPacket_new sample_buffer (header_zero\<lparr> dataLen := 5000 \<rparr>))
     (\<lambda>(ok, y', b'). ok \<and> unread b' =
        drop (nat (sint (dataLen (header_zero\<lparr> dataLen := 5000 \<rparr>)))) (unread sample_buffer))"
  by (rule EchoPacket_Decode_leaves) (simp_all add: header_zero_def DATA_MAX_SIZE_def)

end
