(* ===== verification/ServerConn.thy ===== *)
theory ServerConn
  imports PacketQueue MessageLoop Echo TcpConn
begin

text \<open>
  The server side: \<open>ServerConnection\<close> (\<open>common/net/serverconn.h\<close>, \<open>serverconn.cc\<close>),
  \<open>ServerBase\<close> (\<open>serverbase.h\<close>, \<open>serverbase.cc\<close>), \<open>IServerAdapter\<close> (\<open>iserveradapter.h\<close>) and the
  adapter of the echo server (\<open>test/echoserver.cc\<close>).

  A \<open>ServerConnection\<close> works on the \<open>TCPConn\<close> its \<open>conn_\<close> points to, which is loaded into the field
  \<open>sc_tcp\<close> while one of its operations runs. The adapter is the user's code, a function on the
  packet it is given and the connection's state.
\<close>

section \<open>State\<close>

datatype 'b adapter_call = HandleCall "'b seen" | BatchCall "'b seen list"

record 'b server_conn =
  sc_tcp :: "tcp_conn option"
  sc_streamer :: streamer
  batchPushPacket :: bool
  sc_output :: buffer
  inputQueue :: pqueue
  sc_header :: packet_header
  sc_gotHeader :: bool
  sc_mem :: "'b pmem"
  sc_calls :: "'b adapter_call list"

type_synonym 'b adapter = "packet_arg \<Rightarrow> 'b server_conn \<Rightarrow> 'b server_conn option"

text \<open>The packets of a queue from the front, at most \<open>n\<close> of them.\<close>

fun queue_seen :: "nat \<Rightarrow> 'b pheap \<Rightarrow> pptr option \<Rightarrow> 'b seen list" where
  "queue_seen 0 h p = []"
| "queue_seen (Suc n) h p =
     (case p of None \<Rightarrow> []
      | Some a \<Rightarrow> (case h a of None \<Rightarrow> []
          | Some pk \<Rightarrow> SeenPacket (packetHeader pk) (body pk) # queue_seen n h (packet_next pk)))"

section \<open>Operations of a server connection\<close>

text \<open>\<open>packetHeader_\<close> is not initialised by the constructor: \<open>junk\<close>.\<close>

definition ServerConnection_new :: "streamer \<Rightarrow> bool \<Rightarrow> packet_header \<Rightarrow> 'b pmem \<Rightarrow> 'b server_conn option" where
  "ServerConnection_new S batch junk M = do {
     out \<leftarrow> Buffer_new kInitialSize kCheapPrependSize;
     Some \<lparr> sc_tcp = None, sc_streamer = S, batchPushPacket = batch, sc_output = out,
            inputQueue = PacketQueue_new, sc_header = junk, sc_gotHeader = False, sc_mem = M,
            sc_calls = [] \<rparr> }"

definition SetBatchPushPacket :: "'b server_conn \<Rightarrow> bool \<Rightarrow> 'b server_conn" where
  "SetBatchPushPacket s v = s\<lparr> batchPushPacket := v \<rparr>"

definition BatchPushPacket :: "'b server_conn \<Rightarrow> bool" where
  "BatchPushPacket s = batchPushPacket s"

definition sc_IsConnected :: "'b server_conn \<Rightarrow> bool" where
  "sc_IsConnected s \<longleftrightarrow> (case sc_tcp s of None \<Rightarrow> False | Some c \<Rightarrow> conn_IsConnected c)"

definition ServerConnection_PostPacket :: "'b packet_class \<Rightarrow> loop_env \<Rightarrow> ksend \<Rightarrow> 'b server_conn \<Rightarrow> pptr \<Rightarrow>
    (bool \<times> 'b server_conn) option" where
  "ServerConnection_PostPacket cls E K s p =
     (if \<not> sc_IsConnected s then Some (False, s)
      else do {
        (if ExistPacketHeader (sc_streamer s) then do {
           pk \<leftarrow> objs (sc_mem s) p;
           assert_that (Packet_GetChannelId pk \<noteq> 0) }
         else Some ());
        (r, h, out) \<leftarrow> Streamer_Encode cls (sc_streamer s) (objs (sc_mem s)) p (sc_output s);
        let s = s\<lparr> sc_mem := (sc_mem s)\<lparr> objs := Packet_Free cls h p \<rparr>, sc_output := out \<rparr>;
        n \<leftarrow> Buffer_length out;
        s \<leftarrow> (if n > 0 then do {
               c \<leftarrow> sc_tcp s;
               (c, out) \<leftarrow> Send_buffer E K c out;
               Some (s\<lparr> sc_tcp := Some c, sc_output := out \<rparr>) }
             else Some s);
        Some (True, s) })"

text \<open>The default \<open>HandleBatchPacket\<close> and the call of \<open>HandlePacket\<close> are logged.\<close>

definition HandleBatchPacket :: "'b server_conn \<Rightarrow> 'b server_conn" where
  "HandleBatchPacket s = s\<lparr> sc_calls := sc_calls s @
     [BatchCall (queue_seen (unat (q_size (inputQueue s))) (objs (sc_mem s)) (q_head (inputQueue s)))] \<rparr>"

definition log_adapter :: "'b adapter" where
  "log_adapter a s = do {
     x \<leftarrow> seen_arg (sc_mem s) a;
     Some (s\<lparr> sc_calls := sc_calls s @ [HandleCall x] \<rparr>) }"

definition ServerConnection_HandlePacket :: "'b packet_class \<Rightarrow> 'b adapter \<Rightarrow> buffer \<Rightarrow> packet_header \<Rightarrow>
    'b server_conn \<Rightarrow> (buffer \<times> 'b server_conn) option" where
  "ServerConnection_HandlePacket cls A input header s = do {
     (packet, M, input) \<leftarrow> Streamer_Decode cls (sc_streamer s) (sc_mem s) input header;
     let s = s\<lparr> sc_mem := M \<rparr>;
     (case packet of
        None \<Rightarrow> do { s \<leftarrow> A BadPacket s; Some (input, s) }
      | Some p \<Rightarrow> do {
          pk \<leftarrow> objs M p;
          let h = (objs M)(p \<mapsto> Packet_SetPacketHeader pk (Some header));
          if BatchPushPacket s then do {
            (h, q) \<leftarrow> PacketQueue_Push h (inputQueue s) (Some p);
            let s = s\<lparr> sc_mem := M\<lparr> objs := h \<rparr>, inputQueue := q \<rparr>;
            s \<leftarrow> (if sint (PacketQueue_Size q) \<ge> 15 then do {
                   let s = HandleBatchPacket s;
                   (h, q) \<leftarrow> PacketQueue_Clear cls (objs (sc_mem s)) (inputQueue s);
                   Some (s\<lparr> sc_mem := (sc_mem s)\<lparr> objs := h \<rparr>, inputQueue := q \<rparr>) }
                 else Some s);
            Some (input, s) }
          else do {
            s \<leftarrow> A (Regular p) (s\<lparr> sc_mem := M\<lparr> objs := h \<rparr> \<rparr>);
            Some (input, s) } }) }"

definition ServerConnection_OnMessage :: "'b packet_class \<Rightarrow> 'b adapter \<Rightarrow> buffer \<Rightarrow> 'b server_conn \<Rightarrow>
    (buffer \<times> 'b server_conn) option" where
  "ServerConnection_OnMessage cls A input s = do {
     (input, got, header, s) \<leftarrow>
       on_message (sc_streamer s) (ServerConnection_HandlePacket cls A) input (sc_gotHeader s) (sc_header s) s;
     Some (input, s\<lparr> sc_gotHeader := got, sc_header := header \<rparr>) }"

text \<open>\<open>address.find_first_of(':')\<close> and \<open>substr(0, index)\<close>.\<close>

definition GetPeerIP :: "'b server_conn \<Rightarrow> string" where
  "GetPeerIP s =
     (case sc_tcp s of
        None \<Rightarrow> []
      | Some c \<Rightarrow>
          let address = remote_addr c
          in if CHR '':'' \<in> set address then takeWhile (\<lambda>x. x \<noteq> CHR '':'') address else [])"

section \<open>The server\<close>

record 'b server_base =
  sb_streamer :: streamer
  sb_batch :: bool
  sb_stopped :: bool
  sb_scs :: "nat \<Rightarrow> 'b server_conn option"
  sb_next :: nat
  sb_mem :: "'b pmem"

definition ServerBase_OnConnection :: "packet_header \<Rightarrow> 'b server_base \<Rightarrow> tcp_conn \<Rightarrow>
    ('b server_base \<times> tcp_conn) option" where
  "ServerBase_OnConnection junk B c =
     (if conn_IsConnected c then do {
        sc \<leftarrow> ServerConnection_new (sb_streamer B) (sb_batch B) junk (sb_mem B);
        c \<leftarrow> set_context c 0 (Some (sb_next B));
        Some (B\<lparr> sb_scs := (sb_scs B)(sb_next B \<mapsto> sc), sb_next := Suc (sb_next B) \<rparr>, c) }
      else do {
        c \<leftarrow> set_context c 0 None;
        Some (B, c) })"

definition ServerBase_OnMessage :: "'b packet_class \<Rightarrow> 'b adapter \<Rightarrow> 'b server_base \<Rightarrow> tcp_conn \<Rightarrow>
    ('b server_base \<times> tcp_conn) option" where
  "ServerBase_OnMessage cls A B c = do {
     ctx \<leftarrow> get_context c 0;
     (case ctx of
        None \<Rightarrow> Some (B, c)
      | Some i \<Rightarrow> do {
          sc \<leftarrow> sb_scs B i;
          (input, sc) \<leftarrow> ServerConnection_OnMessage cls A (input_buffer c) (sc\<lparr> sc_tcp := Some c \<rparr>);
          c \<leftarrow> sc_tcp sc;
          Some (B\<lparr> sb_scs := (sb_scs B)(i \<mapsto> sc\<lparr> sc_tcp := None \<rparr>) \<rparr>, c\<lparr> input_buffer := input \<rparr>) }) }"

definition ServerBase_stopped :: "'b server_base \<Rightarrow> 'b server_base" where
  "ServerBase_stopped B = B\<lparr> sb_stopped := True \<rparr>"

section \<open>The echo server's adapter\<close>

text \<open>
  A control packet is no \<open>EchoPacket\<close>: reading its string is a fault. \<open>new EchoPacket()\<close> is
  \<open>new_packet\<close>.
\<close>

definition EchoServerAdapter_HandlePacket :: "loop_env \<Rightarrow> ksend \<Rightarrow> bytes adapter" where
  "EchoServerAdapter_HandlePacket E K a s =
     (case a of
        Control c \<Rightarrow> None
      | Regular p \<Rightarrow> do {
          pk \<leftarrow> objs (sc_mem s) p;
          let reply = Packet_SetChannelId (Packet_new (EchoPacket_SetString (EchoPacket_GetString (body pk))))
                        (Packet_GetChannelId pk);
          let (r, M) = new_packet (sc_mem s) reply;
          (ok, s) \<leftarrow> ServerConnection_PostPacket EchoServer E K (s\<lparr> sc_mem := M \<rparr>) r;
          let s = (if \<not> ok then s\<lparr> sc_mem := (sc_mem s)\<lparr> objs := Packet_Free EchoServer (objs (sc_mem s)) r \<rparr> \<rparr> else s);
          Some (s\<lparr> sc_mem := (sc_mem s)\<lparr> objs := Packet_Free EchoServer (objs (sc_mem s)) p \<rparr> \<rparr>) })"

section \<open>Delivery of packets to the adapter\<close>

text \<open>
  A connection over a packet class that satisfies the codec laws handles every framed packet: it
  is a \<open>message_handler\<close>, with and without batches.
\<close>

context framed_codec
begin

definition single_inv :: "'a server_conn \<Rightarrow> bool" where
  "single_inv s \<longleftrightarrow> sc_streamer s = S \<and> \<not> batchPushPacket s \<and> pmem_ok (sc_mem s)"

definition single_act :: "packet_header \<Rightarrow> bytes \<Rightarrow> 'a server_conn \<Rightarrow> 'a server_conn \<Rightarrow> bool" where
  "single_act hdr d s s' \<longleftrightarrow> (\<exists>z. arrives hdr d z \<and> sc_calls s' = sc_calls s @ [HandleCall z])"

lemma single_handle:
  assumes "single_inv s" and "encoded hdr d" and "buf_ok b" and "unread b = d @ r"
  shows "wp (ServerConnection_HandlePacket cls log_adapter b (received_header hdr d) s) (\<lambda>(b', s').
           buf_ok b' \<and> unread b' = r \<and> single_act (received_header hdr d) d s s' \<and> single_inv s')"
proof -
  obtain x where x: "valid x" "enc x = d" using assms(2) by (auto simp: encoded_def)
  have "wp (Streamer_Decode cls S (sc_mem s) b (received_header hdr d)) (\<lambda>(p, M', b'). \<exists>x'.
      p = Some (next_addr (sc_mem s)) \<and> buf_ok b' \<and> unread b' = r \<and> same x x' \<and>
      objs M' = (objs (sc_mem s))(next_addr (sc_mem s) \<mapsto> Packet_new x') \<and>
      next_addr M' = Suc (next_addr (sc_mem s)) \<and> pmem_ok M')"
    using assms x by (intro wp_Streamer_Decode framed_streamer) (auto simp: received_header_def single_inv_def)
  then show ?thesis
    using assms(1) x
    by (auto simp: ServerConnection_HandlePacket_def single_inv_def BatchPushPacket_def log_adapter_def seen_arg_def
        Packet_SetPacketHeader_def Packet_new_def single_act_def arrives_def pmem_ok_def elim!: wp_mono)
qed

end

sublocale framed_codec \<subseteq> single: message_handler S "ServerConnection_HandlePacket cls log_adapter"
  single_inv encoded single_act
  by unfold_locales (use framed_streamer enc_len single_handle in \<open>auto simp: encoded_def\<close>)

context framed_codec
begin

lemma single_acts:
  assumes "single.acts fs s s'"
  shows "\<exists>zs. sc_calls s' = sc_calls s @ zs \<and>
     list_all2 (\<lambda>(hdr, d) c. \<exists>z. c = HandleCall z \<and> arrives (received_header hdr d) d z) fs zs"
  by (rule single.acts_log [OF _ assms]) (auto simp: single_act_def)

lemma delivers:
  assumes "\<And>hdr d. (hdr, d) \<in> set fs \<Longrightarrow> encoded hdr d" and "single_inv s" and "buf_ok b" and "unread b = []"
    and "concat cs = frames S fs" and "\<forall>c \<in> set cs. length c \<le> 2 ^ 30"
  shows "wp (feed S (ServerConnection_HandlePacket cls log_adapter) (b, False, hdr0, s) cs)
           (\<lambda>(b', got, hdr', s'). unread b' = [] \<and> \<not> got \<and>
              (\<exists>zs. sc_calls s' = sc_calls s @ zs \<and>
                 list_all2 (\<lambda>(hdr, d) c. \<exists>z. c = HandleCall z \<and> arrives (received_header hdr d) d z) fs zs))"
  by (rule wp_mono [OF single.feed_chunks [OF assms(1-3), where got = False and header = hdr0 and cs = cs]])
    (use assms(4-6) in \<open>auto dest: single_acts\<close>)

end

section \<open>Batches\<close>

definition seen_at :: "'b pheap \<Rightarrow> pptr \<Rightarrow> 'b seen" where
  "seen_at h a = (case h a of Some pk \<Rightarrow> SeenPacket (packetHeader pk) (body pk))"

definition queued :: "'b server_conn \<Rightarrow> 'b seen list" where
  "queued s = queue_seen (unat (q_size (inputQueue s))) (objs (sc_mem s)) (q_head (inputQueue s))"

lemma queue_seen_plseg: "plseg h p ps None \<Longrightarrow> queue_seen (length ps) h p = map (seen_at h) ps"
  by (induction ps arbitrary: p) (auto simp: seen_at_def split: option.splits)

lemma queued_rel:
  assumes "pq_rel (objs (sc_mem s)) (inputQueue s) ps" and "length ps < 2 ^ 31"
  shows "queued s = map (seen_at (objs (sc_mem s))) ps" and "sint (q_size (inputQueue s)) = int (length ps)"
proof -
  have q: "q_size (inputQueue s) = of_nat (length ps)" using assms(1) by (simp add: pq_rel_def)
  show i: "sint (q_size (inputQueue s)) = int (length ps)" unfolding q by (rule sint32_of_nat [OF assms(2)])
  have "unat (q_size (inputQueue s)) = length ps"
    unfolding q using assms(2) by (simp add: unsigned_of_nat take_bit_nat_eq_self_iff)
  then show "queued s = map (seen_at (objs (sc_mem s))) ps"
    using assms(1) by (simp add: queued_def queue_seen_plseg pq_rel_def)
qed

lemma seen_at_contents:
  assumes "map_option (packet_next_update (\<lambda>_. None)) (h' a) = map_option (packet_next_update (\<lambda>_. None)) (h a)"
    and "h a \<noteq> None"
  shows "seen_at h' a = seen_at h a"
proof -
  obtain pk pk' where p: "h a = Some pk" "h' a = Some pk'" using assms by auto
  with assms(1) have e: "pk'\<lparr> packet_next := None \<rparr> = pk\<lparr> packet_next := None \<rparr>" by simp
  have "packetHeader pk' = packetHeader pk" "body pk' = body pk"
    using arg_cong [OF e, of packetHeader] arg_cong [OF e, of body] by simp_all
  with p show ?thesis by (simp add: seen_at_def)
qed

lemma wp_Push_seen:
  assumes "pq_rel h q ps" and "h p \<noteq> None" and "p \<notin> set ps"
  shows "wp (PacketQueue_Push h q (Some p)) (\<lambda>(h', q'). pq_rel h' q' (ps @ [p]) \<and>
           map (seen_at h') (ps @ [p]) = map (seen_at h) (ps @ [p]) \<and> (\<forall>a. h' a = None \<longleftrightarrow> h a = None))"
proof -
  obtain h' q' where r: "PacketQueue_Push h q (Some p) = Some (h', q')" "pq_rel h' q' (ps @ [p])"
      "\<forall>a. h' a = None \<longleftrightarrow> h a = None"
    using wp_Push [OF assms] by (auto simp: wp_def)
  have "h a \<noteq> None" if "a \<in> set ps" for a using pq_rel_alloc [OF assms(1) that] .
  then have "seen_at h' a = seen_at h a" if "a \<in> set (ps @ [p])" for a
    using seen_at_contents [where a = a and h = h and h' = h', OF Push_contents [OF r(1)]] assms(2) that by auto
  with r show ?thesis by simp
qed

context framed_codec
begin

definition batch_inv :: "'a server_conn \<Rightarrow> bool" where
  "batch_inv s \<longleftrightarrow> sc_streamer s = S \<and> batchPushPacket s \<and> pmem_ok (sc_mem s) \<and>
     (\<exists>ps. pq_rel (objs (sc_mem s)) (inputQueue s) ps \<and> length ps < 15)"

definition batch_act :: "packet_header \<Rightarrow> bytes \<Rightarrow> 'a server_conn \<Rightarrow> 'a server_conn \<Rightarrow> bool" where
  "batch_act hdr d s s' \<longleftrightarrow> (\<exists>z. arrives hdr d z \<and>
     (if length (queued s) < 14 then sc_calls s' = sc_calls s \<and> queued s' = queued s @ [z]
      else sc_calls s' = sc_calls s @ [BatchCall (queued s @ [z])] \<and> queued s' = []))"

lemma batch_push:
  assumes rel: "pq_rel h q ps" and l: "length ps < 15" and M: "\<forall>a \<ge> n. h a = None"
    and s: "batchPushPacket s" "sc_streamer s = S" and q: "queued s = map (seen_at h) ps"
    and z: "arrives hdr d (SeenPacket (packetHeader pk) (body pk))"
  shows "wp (PacketQueue_Push (h(n \<mapsto> pk)) q (Some n)) (\<lambda>(h', q').
           wp (let s = s\<lparr> sc_mem := \<lparr> objs = h', next_addr = Suc n \<rparr>, inputQueue := q' \<rparr>
               in if sint (PacketQueue_Size q') \<ge> 15 then do {
                   let s = HandleBatchPacket s;
                   (h, q) \<leftarrow> PacketQueue_Clear cls (objs (sc_mem s)) (inputQueue s);
                   Some (s\<lparr> sc_mem := (sc_mem s)\<lparr> objs := h \<rparr>, inputQueue := q \<rparr>) }
                 else Some s) (\<lambda>s'. batch_act hdr d s s' \<and> batch_inv s'))"
proof -
  have n: "n \<notin> set ps" using M pq_rel_alloc [OF rel] by blast
  have rel': "pq_rel (h(n \<mapsto> pk)) q ps" using rel n by (simp add: pq_rel_frame)
  have seen: "map (seen_at (h(n \<mapsto> pk))) ps = map (seen_at h) ps"
    using n by (auto simp: seen_at_def)
  let ?s = "\<lambda>h' q'. s\<lparr> sc_mem := \<lparr> objs = h', next_addr = Suc n \<rparr>, inputQueue := q' \<rparr>"
  have ok: "pmem_ok \<lparr> objs = h', next_addr = Suc n \<rparr>" if "\<forall>a. h' a = None \<longleftrightarrow> (h(n \<mapsto> pk)) a = None" for h'
    using M that by (auto simp: pmem_ok_def)
  have q': "queued (?s h' q') = map (seen_at h') (ps @ [n])" "sint (q_size q') = int (length ps) + 1"
    if "pq_rel h' q' (ps @ [n])" for h' q'
    using queued_rel [of "?s h' q'" "ps @ [n]"] that l by auto
  have last: "seen_at (h(n \<mapsto> pk)) n = SeenPacket (packetHeader pk) (body pk)" by (simp add: seen_at_def)
  have ex: "\<exists>ps. pq_rel a b ps \<and> length ps < 15" if "pq_rel a b []" for a :: "'a pheap" and b
    using that by (intro exI [of _ "[]"]) simp
  have fin: "wp (let s = ?s h' q'
               in if sint (PacketQueue_Size q') \<ge> 15 then do {
                   let s = HandleBatchPacket s;
                   (h, q) \<leftarrow> PacketQueue_Clear cls (objs (sc_mem s)) (inputQueue s);
                   Some (s\<lparr> sc_mem := (sc_mem s)\<lparr> objs := h \<rparr>, inputQueue := q \<rparr>) }
                 else Some s) (\<lambda>s'. batch_act hdr d s s' \<and> batch_inv s')"
    if r: "pq_rel h' q' (ps @ [n])" "map (seen_at h') (ps @ [n]) = map (seen_at (h(n \<mapsto> pk))) (ps @ [n])"
      "\<forall>a. h' a = None \<longleftrightarrow> (h(n \<mapsto> pk)) a = None" for h' q'
  proof -
    have qs: "queued (?s h' q') = queued s @ [SeenPacket (packetHeader pk) (body pk)]"
      using q' (1) [OF r(1)] r(2) seen last q by simp
    show ?thesis
    proof (cases "length ps < 14")
      case True
      have "batch_inv (?s h' q')" using s r(1) ok [OF r(3)] True by (auto simp: batch_inv_def)
      with True q'(2) [OF r(1)] qs q z show ?thesis
        by (auto simp: PacketQueue_Size_def Let_def batch_act_def)
    next
      case False
      with l have l14: "length ps = 14" by simp
      have "wp (PacketQueue_Clear cls h' q') (\<lambda>(h2, q2). pq_rel h2 q2 [] \<and> pmem_ok \<lparr> objs = h2, next_addr = Suc n \<rparr>)"
        by (rule wp_mono [OF wp_Clear [OF r(1)]]) (use ok [OF r(3)] in \<open>auto simp: pmem_ok_def\<close>)
      moreover have "queued (s\<lparr> sc_calls := cs, sc_mem := \<lparr> objs = h2, next_addr = Suc n \<rparr>, inputQueue := q2 \<rparr>) = []"
        if "pq_rel h2 q2 []" for h2 q2 cs
        using queued_rel(1) [of "s\<lparr> sc_calls := cs, sc_mem := \<lparr> objs = h2, next_addr = Suc n \<rparr>, inputQueue := q2 \<rparr>" "[]"]
          that by simp
      ultimately show ?thesis
        using l14 q'(2) [OF r(1)] qs q z s
        by (auto simp: PacketQueue_Size_def Let_def HandleBatchPacket_def queued_def [of "?s h' q'"] batch_act_def
            batch_inv_def elim!: wp_mono intro: ex)
    qed
  qed
  have "(h(n \<mapsto> pk)) n \<noteq> None" by simp
  from wp_Push_seen [OF rel' this n] show ?thesis
    by (rule wp_mono) (clarify, rule fin, blast+)
qed

lemma batch_handle:
  assumes "batch_inv s" and "encoded hdr d" and "buf_ok b" and "unread b = d @ r"
  shows "wp (ServerConnection_HandlePacket cls A b (received_header hdr d) s) (\<lambda>(b', s').
           buf_ok b' \<and> unread b' = r \<and> batch_act (received_header hdr d) d s s' \<and> batch_inv s')"
proof -
  obtain x where x: "valid x" "enc x = d" using assms(2) by (auto simp: encoded_def)
  obtain ps where ps: "pq_rel (objs (sc_mem s)) (inputQueue s) ps" "length ps < 15"
    using assms(1) by (auto simp: batch_inv_def)
  let ?n = "next_addr (sc_mem s)" and ?hdr = "received_header hdr d"
  have dec: "wp (Streamer_Decode cls S (sc_mem s) b ?hdr) (\<lambda>(p, M', b'). \<exists>x'.
      p = Some ?n \<and> buf_ok b' \<and> unread b' = r \<and> same x x' \<and>
      M' = \<lparr> objs = (objs (sc_mem s))(?n \<mapsto> Packet_new x'), next_addr = Suc ?n \<rparr>)"
    using assms x by (intro wp_mono [OF wp_Streamer_Decode [where x = x and r = r]] framed_streamer)
      (auto simp: received_header_def batch_inv_def)
  have push: "wp (PacketQueue_Push ((objs (sc_mem s))(?n \<mapsto> Packet_SetPacketHeader (Packet_new x') (Some ?hdr)))
        (inputQueue s) (Some ?n)) (\<lambda>(h', q').
           wp (let s = s\<lparr> sc_mem := \<lparr> objs = h', next_addr = Suc ?n \<rparr>, inputQueue := q' \<rparr>
               in if sint (PacketQueue_Size q') \<ge> 15 then do {
                   let s = HandleBatchPacket s;
                   (h, q) \<leftarrow> PacketQueue_Clear cls (objs (sc_mem s)) (inputQueue s);
                   Some (s\<lparr> sc_mem := (sc_mem s)\<lparr> objs := h \<rparr>, inputQueue := q \<rparr>) }
                 else Some s) (\<lambda>s'. batch_act ?hdr d s s' \<and> batch_inv s'))" if "same x x'" for x'
    using ps assms(1) x that
    by (intro batch_push) (auto simp: batch_inv_def pmem_ok_def queued_rel Packet_SetPacketHeader_def Packet_new_def
        arrives_def)
  show ?thesis
    using assms(1) by (auto simp: ServerConnection_HandlePacket_def batch_inv_def [of s] BatchPushPacket_def
        Let_def simp del: wp_if intro!: wp_mono [OF dec] elim!: wp_mono dest!: push)
qed

end

sublocale framed_codec \<subseteq> batch: message_handler S "ServerConnection_HandlePacket cls A"
  batch_inv encoded batch_act for A
  by unfold_locales (use framed_streamer enc_len batch_handle in \<open>auto simp: encoded_def\<close>)

context framed_codec
begin

lemma batch_acts:
  assumes "batch.acts fs s s'" and "length (queued s) < 15"
  shows "\<exists>zs bs. list_all2 (\<lambda>(hdr, d) z. arrives (received_header hdr d) d z) fs zs \<and>
     sc_calls s' = sc_calls s @ map BatchCall bs \<and> queued s @ zs = concat bs @ queued s' \<and>
     (\<forall>b \<in> set bs. length b = 15) \<and> length (queued s') < 15"
  using assms
proof (induction fs arbitrary: s)
  case Nil
  then show ?case by (auto intro!: exI [of _ "[]"])
next
  case (Cons f fs)
  obtain hdr d where f: "f = (hdr, d)" by force
  with Cons.prems obtain s1 where 1: "batch_act (received_header hdr d) d s s1" "batch.acts fs s1 s'" by auto
  then obtain z where z: "arrives (received_header hdr d) d z"
      "if length (queued s) < 14 then sc_calls s1 = sc_calls s \<and> queued s1 = queued s @ [z]
       else sc_calls s1 = sc_calls s @ [BatchCall (queued s @ [z])] \<and> queued s1 = []"
    by (auto simp: batch_act_def)
  have "length (queued s1) < 15" using z(2) by (auto split: if_splits)
  from Cons.IH [OF 1(2) this] obtain zs bs where
    2: "list_all2 (\<lambda>(hdr, d) z. arrives (received_header hdr d) d z) fs zs"
      "sc_calls s' = sc_calls s1 @ map BatchCall bs" "queued s1 @ zs = concat bs @ queued s'"
      "\<forall>b \<in> set bs. length b = 15" "length (queued s') < 15" by blast
  show ?case
  proof (cases "length (queued s) < 14")
    case True
    with 2 z f show ?thesis by (intro exI [of _ "z # zs"] exI [of _ bs]) simp
  next
    case False
    with 2 z f Cons.prems(2) show ?thesis
      by (intro exI [of _ "z # zs"] exI [of _ "(queued s @ [z]) # bs"]) simp
  qed
qed

lemma delivers_batches:
  assumes "\<And>hdr d. (hdr, d) \<in> set fs \<Longrightarrow> encoded hdr d" and "batch_inv s" and "buf_ok b" and "unread b = []"
    and "concat cs = frames S fs" and "\<forall>c \<in> set cs. length c \<le> 2 ^ 30"
  shows "wp (feed S (ServerConnection_HandlePacket cls A) (b, False, hdr0, s) cs)
           (\<lambda>(b', got, hdr', s'). unread b' = [] \<and> \<not> got \<and>
              (\<exists>zs bs. list_all2 (\<lambda>(hdr, d) z. arrives (received_header hdr d) d z) fs zs \<and>
                 sc_calls s' = sc_calls s @ map BatchCall bs \<and> queued s @ zs = concat bs @ queued s' \<and>
                 (\<forall>b \<in> set bs. length b = 15) \<and> length (queued s') < 15))"
proof -
  obtain ps where "pq_rel (objs (sc_mem s)) (inputQueue s) ps" "length ps < 15"
    using assms(2) by (auto simp: batch_inv_def)
  then have "length (queued s) < 15" by (simp add: queued_rel)
  note q = batch_acts [OF _ this]
  show ?thesis
    by (rule wp_mono [OF batch.feed_chunks [OF assms(1-3), where got = False and header = hdr0 and cs = cs and A = A]])
      (use assms(4-6) in \<open>simp_all split: prod.splits\<close>, use q in blast)
qed

end

section \<open>Adapters and the stored header\<close>

text \<open>An adapter does not touch \<open>gotHeader_\<close>, \<open>packetHeader_\<close> and \<open>streamer_\<close>, which are protected.\<close>

definition put_got :: "bool \<Rightarrow> packet_header \<Rightarrow> 'b server_conn \<Rightarrow> 'b server_conn" where
  "put_got g h s = s\<lparr> sc_gotHeader := g, sc_header := h \<rparr>"

lemma put_got_simps [simp]:
  "sc_tcp (put_got g h s) = sc_tcp s" "sc_streamer (put_got g h s) = sc_streamer s"
  "batchPushPacket (put_got g h s) = batchPushPacket s" "sc_output (put_got g h s) = sc_output s"
  "inputQueue (put_got g h s) = inputQueue s" "sc_mem (put_got g h s) = sc_mem s"
  "sc_calls (put_got g h s) = sc_calls s" "sc_gotHeader (put_got g h s) = g" "sc_header (put_got g h s) = h"
  "queued (put_got g h s) = queued s" "sc_IsConnected (put_got g h s) = sc_IsConnected s"
  by (simp_all add: put_got_def queued_def sc_IsConnected_def)

lemma put_got_updates [simp]:
  "(put_got g h s)\<lparr> sc_mem := M \<rparr> = put_got g h (s\<lparr> sc_mem := M \<rparr>)"
  "(put_got g h s)\<lparr> sc_tcp := c \<rparr> = put_got g h (s\<lparr> sc_tcp := c \<rparr>)"
  "(put_got g h s)\<lparr> sc_output := b \<rparr> = put_got g h (s\<lparr> sc_output := b \<rparr>)"
  "(put_got g h s)\<lparr> inputQueue := q \<rparr> = put_got g h (s\<lparr> inputQueue := q \<rparr>)"
  "(put_got g h s)\<lparr> sc_calls := l \<rparr> = put_got g h (s\<lparr> sc_calls := l \<rparr>)"
  by (simp_all add: put_got_def)

locale framed_adapter =
  fixes A :: "'b adapter"
  assumes framed: "A a (put_got g h s) = map_option (put_got g h) (A a s)"
    and streamer_kept: "A a s = Some s' \<Longrightarrow> sc_streamer s' = sc_streamer s"
begin

lemma handle_put_got:
  "ServerConnection_HandlePacket cls A b x (put_got g h s) =
   map_option (\<lambda>(b', s'). (b', put_got g h s')) (ServerConnection_HandlePacket cls A b x s)"
  unfolding ServerConnection_HandlePacket_def BatchPushPacket_def HandleBatchPacket_def Let_def
  by (auto simp: framed split: Option.bind_split option.split)

lemma handle_streamer:
  "ServerConnection_HandlePacket cls A b x s = Some (b', s') \<Longrightarrow> sc_streamer s' = sc_streamer s"
  unfolding ServerConnection_HandlePacket_def BatchPushPacket_def HandleBatchPacket_def Let_def
  by (auto split: Option.bind_split_asm option.split_asm if_split_asm dest!: streamer_kept)

end

sublocale framed_adapter \<subseteq> conn: stored_header sc_streamer "ServerConnection_HandlePacket cls A"
  sc_gotHeader sc_header put_got for cls
  by unfold_locales (use handle_put_got handle_streamer in \<open>auto simp: put_got_def\<close>)

context framed_adapter
begin

lemma OnMessage_object: "ServerConnection_OnMessage cls A = conn.on_object cls"
  by (intro ext) (simp add: ServerConnection_OnMessage_def conn.on_object_def put_got_def)

lemmas wp_OnMessage = conn.wp_receives [folded OnMessage_object]

end

interpretation log_srv: framed_adapter log_adapter
  by unfold_locales (auto simp: log_adapter_def split: Option.bind_split Option.bind_split_asm)

lemma PostPacket_put_got:
  "ServerConnection_PostPacket cls E K (put_got g h s) p =
   map_option (\<lambda>(r, s'). (r, put_got g h s')) (ServerConnection_PostPacket cls E K s p)"
  unfolding ServerConnection_PostPacket_def Let_def
  by (auto split: Option.bind_split)

lemma PostPacket_streamer:
  "ServerConnection_PostPacket cls E K s p = Some (r, s') \<Longrightarrow> sc_streamer s' = sc_streamer s"
  unfolding ServerConnection_PostPacket_def Let_def
  by (auto split: Option.bind_split_asm if_split_asm)

interpretation echo_adapter: framed_adapter "EchoServerAdapter_HandlePacket E K"
proof
  show "EchoServerAdapter_HandlePacket E K a (put_got g h s) = map_option (put_got g h) (EchoServerAdapter_HandlePacket E K a s)"
    for a s g h
    by (auto simp: EchoServerAdapter_HandlePacket_def new_packet_def Let_def PostPacket_put_got
        split: packet_arg.split Option.bind_split)
  show "sc_streamer s' = sc_streamer s" if "EchoServerAdapter_HandlePacket E K a s = Some s'" for a s s'
    using that by (auto simp: EchoServerAdapter_HandlePacket_def new_packet_def Let_def
        split: packet_arg.split_asm Option.bind_split_asm if_split_asm dest!: PostPacket_streamer)
qed

section \<open>Posting packets\<close>

text \<open>A connected connection whose output buffer has been handed over; \<open>sent\<close> are its bytes so far.\<close>

definition sc_ready :: "bytes \<Rightarrow> 'b server_conn \<Rightarrow> bool" where
  "sc_ready sent s \<longleftrightarrow> buf_ok (sc_output s) \<and> unread (sc_output s) = [] \<and>
     (\<exists>c. sc_tcp s = Some c \<and> conn_inv c sent)"

context framed_codec
begin

lemma wp_PostPacket:
  assumes E: "env_ok E" and K: "kernel_ok K" and r: "sc_ready sent s" and S: "sc_streamer s = S"
    and p: "objs (sc_mem s) p = Some pk" and v: "valid (body pk)" and c: "Packet_GetChannelId pk \<noteq> 0"
  shows "wp (ServerConnection_PostPacket cls E K s p) (\<lambda>(ok, s'). ok = sc_IsConnected s \<and>
           sc_ready (sent @ (if ok then frame S (packetHeader pk) (enc (body pk)) else [])) s' \<and>
           (\<forall>a. a \<noteq> p \<longrightarrow> objs (sc_mem s') a = objs (sc_mem s) a) \<and>
           (objs (sc_mem s') p = None \<longleftrightarrow> ok \<and> free_deletes cls) \<and>
           next_addr (sc_mem s') = next_addr (sc_mem s) \<and> sc_streamer s' = S \<and>
           batchPushPacket s' = batchPushPacket s \<and> sc_calls s' = sc_calls s \<and> (\<not> ok \<longrightarrow> s' = s))"
proof (cases "sc_IsConnected s")
  case False
  then show ?thesis using r p S by (simp add: ServerConnection_PostPacket_def)
next
  case True
  then obtain t where t: "sc_tcp s = Some t" "conn_inv t sent" "status t = kConnected"
    using r by (auto simp: sc_ready_def sc_IsConnected_def conn_IsConnected_def)
  have send: "wp (Send_buffer E K t b) (\<lambda>(c', b'). buf_ok b' \<and> conn_inv c' (sent @ unread b) \<and> unread b' = [])"
    if "buf_ok b" for b
    using wp_Send_buffer [OF E K t(2) that] t(3) by simp
  have enc: "wp (Streamer_Encode cls S (objs (sc_mem s)) p (sc_output s)) (\<lambda>(r, h', out'). buf_ok out' \<and>
      unread out' = frame S (packetHeader pk) (enc (body pk)) \<and> (\<forall>a. a \<noteq> p \<longrightarrow> h' a = objs (sc_mem s) a) \<and> h' p \<noteq> None)"
    by (rule wp_mono [OF wp_Streamer_Encode [of "objs (sc_mem s)" p pk "sc_output s" S, OF p v]])
      (use r framed_streamer in \<open>auto simp: sc_ready_def\<close>)
  show ?thesis
    using True c p S t(1) framed_streamer
    apply (simp add: ServerConnection_PostPacket_def ExistPacketHeader_def)
    apply (rule wp_mono [OF enc], clarsimp simp: Let_def)
    apply (rule wp_mono [OF send], assumption, clarsimp simp: sc_ready_def Packet_Free_def)
    done
qed

end

interpretation echo_srv: framed_codec EchoServer srv_valid EchoPacket_GetString srv_same
  "DefaultPacketStreamer_new True"
  by unfold_locales (simp_all add: DefaultPacketStreamer_new_def)

section \<open>The echo service\<close>

abbreviation echo_streamer :: streamer where
  "echo_streamer \<equiv> DefaultPacketStreamer_new True"

abbreviation echo_handle :: "loop_env \<Rightarrow> ksend \<Rightarrow> buffer \<Rightarrow> packet_header \<Rightarrow> bytes server_conn \<Rightarrow>
    (buffer \<times> bytes server_conn) option" where
  "echo_handle E K \<equiv> ServerConnection_HandlePacket EchoServer (EchoServerAdapter_HandlePacket E K)"

text \<open>A request the echo client sends, and the frame the server answers it with.\<close>

definition echo_request :: "packet_header \<Rightarrow> bytes \<Rightarrow> bool" where
  "echo_request hdr d \<longleftrightarrow> chid hdr \<noteq> 0 \<and> 0 \<notin> set d \<and> length d < DATA_MAX_SIZE"

definition echo_reply :: "packet_header \<Rightarrow> bytes \<Rightarrow> bytes" where
  "echo_reply hdr d = frame echo_streamer (header_zero\<lparr> chid := chid hdr \<rparr>) (d[21 := 97])"

definition echo_inv :: "bytes server_conn \<Rightarrow> bool" where
  "echo_inv s \<longleftrightarrow> sc_streamer s = echo_streamer \<and> \<not> batchPushPacket s \<and> pmem_ok (sc_mem s) \<and>
     (\<exists>sent. sc_ready sent s)"

definition echo_act :: "packet_header \<Rightarrow> bytes \<Rightarrow> bytes server_conn \<Rightarrow> bytes server_conn \<Rightarrow> bool" where
  "echo_act hdr d s s' \<longleftrightarrow> objs (sc_mem s') = objs (sc_mem s) \<and>
     (\<not> sc_IsConnected s \<longrightarrow> \<not> sc_IsConnected s') \<and>
     (\<forall>sent. sc_ready sent s \<longrightarrow> sc_ready (sent @ (if sc_IsConnected s then echo_reply hdr d else [])) s')"

lemma sc_ready_mem [simp]: "sc_ready sent (s\<lparr> sc_mem := M \<rparr>) = sc_ready sent s"
  by (simp add: sc_ready_def)

lemma sc_IsConnected_mem [simp]: "sc_IsConnected (s\<lparr> sc_mem := M \<rparr>) = sc_IsConnected s"
  by (simp add: sc_IsConnected_def)

lemma wp_echo_adapter:
  assumes E: "env_ok E" and K: "kernel_ok K" and r: "sc_ready sent s" and S: "sc_streamer s = echo_streamer"
    and b: "\<not> batchPushPacket s" and M: "pmem_ok (sc_mem s)"
    and p: "objs (sc_mem s) p = Some pk" and pk: "packetHeader pk = hdr" "EchoPacket_GetString (body pk) = d[21 := 97]"
    and q: "echo_request hdr d"
  shows "wp (EchoServerAdapter_HandlePacket E K (Regular p) s) (\<lambda>s'.
           sc_ready (sent @ (if sc_IsConnected s then echo_reply hdr d else [])) s' \<and>
           (\<not> sc_IsConnected s \<longrightarrow> \<not> sc_IsConnected s') \<and> objs (sc_mem s') = (objs (sc_mem s))(p := None) \<and>
           pmem_ok (sc_mem s') \<and> sc_streamer s' = echo_streamer \<and> \<not> batchPushPacket s')"
proof -
  let ?n = "next_addr (sc_mem s)"
  let ?reply = "Packet_SetChannelId (Packet_new (EchoPacket_SetString (d[21 := 97]))) (chid hdr)"
  let ?s = "s\<lparr> sc_mem := snd (new_packet (sc_mem s) ?reply) \<rparr>"
  have d: "0 \<notin> set (d[21 := 97])" "length (d[21 := 97]) < DATA_MAX_SIZE"
    using q set_update_subset_insert [of d 21 97] by (auto simp: echo_request_def)
  have rep: "frame echo_streamer (packetHeader ?reply) (EchoPacket_GetString (body ?reply)) = echo_reply hdr d"
    using GetString_SetString [OF d(2,1)] by (simp add: Packet_SetChannelId_def Packet_new_def echo_reply_def)
  have n: "p \<noteq> ?n" "objs (sc_mem s) ?n = None" using M p by (auto simp: pmem_ok_def)
  have "wp (ServerConnection_PostPacket EchoServer E K ?s ?n) (\<lambda>(ok, s'). ok = sc_IsConnected ?s \<and>
           sc_ready (sent @ (if ok then frame echo_streamer (packetHeader ?reply) (EchoPacket_GetString (body ?reply)) else [])) s' \<and>
           (\<forall>a. a \<noteq> ?n \<longrightarrow> objs (sc_mem s') a = objs (sc_mem ?s) a) \<and>
           (objs (sc_mem s') ?n = None \<longleftrightarrow> ok \<and> free_deletes EchoServer) \<and>
           next_addr (sc_mem s') = next_addr (sc_mem ?s) \<and> sc_streamer s' = echo_streamer \<and>
           batchPushPacket s' = batchPushPacket ?s \<and> (\<not> ok \<longrightarrow> s' = ?s))"
    by (rule wp_mono [OF echo_srv.wp_PostPacket [OF E K, of sent ?s ?n ?reply]])
      (use r S q in \<open>auto simp: new_packet_def Packet_SetChannelId_def Packet_new_def srv_valid_SetString
        Packet_GetChannelId_def echo_request_def\<close>)
  then have post: "wp (ServerConnection_PostPacket EchoServer E K ?s ?n) (\<lambda>(ok, s'). ok = sc_IsConnected s \<and>
           sc_ready (sent @ (if ok then echo_reply hdr d else [])) s' \<and>
           (\<not> ok \<longrightarrow> \<not> sc_IsConnected s') \<and> (objs (sc_mem s'))(?n := None) = objs (sc_mem s) \<and>
           (ok \<longrightarrow> objs (sc_mem s') = objs (sc_mem s)) \<and> (\<forall>a \<ge> next_addr (sc_mem s'). objs (sc_mem s) a = None) \<and>
           sc_streamer s' = echo_streamer \<and> \<not> batchPushPacket s')"
    by (rule wp_mono) (use M n b in \<open>auto simp: rep new_packet_def fun_eq_iff pmem_ok_def EchoServer_def\<close>,
      metis order_refl)
  show ?thesis
    using p pk post
    by (auto simp: EchoServerAdapter_HandlePacket_def Packet_GetChannelId_def new_packet_def EchoServer_def
        Packet_Free_def pmem_ok_def fun_upd_twist [OF n(1)] Let_def split: if_split_asm elim!: wp_mono)
qed

lemma wp_echo_handle:
  assumes E: "env_ok E" and K: "kernel_ok K" and i: "echo_inv s" and q: "echo_request hdr d"
    and b: "buf_ok b" "unread b = d @ r"
  shows "wp (echo_handle E K b (received_header hdr d) s) (\<lambda>(b', s').
           buf_ok b' \<and> unread b' = r \<and> echo_act (received_header hdr d) d s s' \<and> echo_inv s')"
proof -
  obtain x where x: "srv_valid x" "EchoPacket_GetString x = d"
    using q srv_valid_SetString GetString_SetString [of d] by (auto simp: echo_request_def)
  let ?hdr = "received_header hdr d" and ?n = "next_addr (sc_mem s)"
  have q': "echo_request ?hdr d" using q by (simp add: echo_request_def received_header_def)
  have S: "sc_streamer s = echo_streamer" "\<not> batchPushPacket s" "pmem_ok (sc_mem s)"
    using i by (simp_all add: echo_inv_def)
  have dec: "wp (Streamer_Decode EchoServer echo_streamer (sc_mem s) b ?hdr) (\<lambda>(p, M', b'). \<exists>y.
      p = Some ?n \<and> buf_ok b' \<and> unread b' = r \<and> EchoPacket_GetString y = d[21 := 97] \<and>
      objs M' = (objs (sc_mem s))(?n \<mapsto> Packet_new y) \<and> pmem_ok M')"
    by (rule wp_mono [OF echo_server.wp_Streamer_Decode [OF x(1) b(1), of r]])
      (use x b S in \<open>auto simp: received_header_def srv_same_def DefaultPacketStreamer_new_def\<close>)
  have ad: "wp (EchoServerAdapter_HandlePacket E K (Regular ?n) (s\<lparr> sc_mem := M \<rparr>)) (\<lambda>s'.
      echo_act ?hdr d s s' \<and> echo_inv s')"
    if M: "objs M = (objs (sc_mem s))(?n \<mapsto> pk)" "pmem_ok M" and pk: "packetHeader pk = ?hdr"
      "EchoPacket_GetString (body pk) = d[21 := 97]" for M pk
  proof -
    obtain sent0 where r0: "sc_ready sent0 s" using i by (auto simp: echo_inv_def)
    have n: "objs (sc_mem s) ?n = None" using S(3) by (simp add: pmem_ok_def)
    have w: "wp (EchoServerAdapter_HandlePacket E K (Regular ?n) (s\<lparr> sc_mem := M \<rparr>)) (\<lambda>s'.
           sc_ready (sent @ (if sc_IsConnected s then echo_reply ?hdr d else [])) s' \<and>
           (\<not> sc_IsConnected s \<longrightarrow> \<not> sc_IsConnected s') \<and> objs (sc_mem s') = objs (sc_mem s) \<and>
           pmem_ok (sc_mem s') \<and> sc_streamer s' = echo_streamer \<and> \<not> batchPushPacket s')"
      if "sc_ready sent s" for sent
      by (rule wp_mono [OF wp_echo_adapter [OF E K, of sent "s\<lparr> sc_mem := M \<rparr>" ?n pk ?hdr d]])
        (use that M pk S q' n in \<open>auto simp: fun_upd_idem\<close>)
    then obtain s' where s': "EchoServerAdapter_HandlePacket E K (Regular ?n) (s\<lparr> sc_mem := M \<rparr>) = Some s'"
      using r0 by (auto simp: wp_def)
    with w r0 show ?thesis by (auto simp: echo_act_def echo_inv_def)
  qed
  have fin: "wp (EchoServerAdapter_HandlePacket E K (Regular ?n) (s\<lparr> sc_mem := M\<lparr> objs :=
      (objs (sc_mem s))(?n \<mapsto> (Packet_new y)\<lparr> packetHeader := ?hdr \<rparr>) \<rparr> \<rparr>)) (\<lambda>s'. echo_act ?hdr d s s' \<and> echo_inv s')"
    if "objs M = (objs (sc_mem s))(?n \<mapsto> Packet_new y)" "pmem_ok M" "EchoPacket_GetString y = d[21 := 97]" for M y
    using that by (intro ad) (auto simp: Packet_new_def pmem_ok_def split: if_split_asm)
  show ?thesis
    using S(1,2)
    by (auto simp: ServerConnection_HandlePacket_def BatchPushPacket_def Packet_SetPacketHeader_def
        Let_def intro!: wp_mono [OF dec] wp_mono [OF fin])
qed

lemma echo_message_handler:
  assumes "env_ok E" and "kernel_ok K"
  shows "message_handler echo_streamer (echo_handle E K) echo_inv echo_request echo_act"
  by unfold_locales (use wp_echo_handle [OF assms] in
    \<open>auto simp: DefaultPacketStreamer_new_def echo_request_def DATA_MAX_SIZE_def\<close>)

lemma echo_acts:
  assumes H: "message_handler echo_streamer (echo_handle E K) echo_inv echo_request echo_act"
    and "message_handler.acts echo_act fs s s'" and "sc_ready sent s"
  shows "objs (sc_mem s') = objs (sc_mem s) \<and> (\<not> sc_IsConnected s \<longrightarrow> \<not> sc_IsConnected s') \<and>
     (\<exists>n \<le> length fs. sc_ready (sent @ concat (map (\<lambda>(hdr, d). echo_reply hdr d) (take n fs))) s' \<and>
        (if sc_IsConnected s' then n = length fs else sc_IsConnected s \<or> n = 0))"
  using assms(2,3)
proof (induction fs arbitrary: s sent)
  case Nil
  then show ?case by (simp add: message_handler.acts.simps [OF H])
next
  case (Cons f fs)
  obtain hdr d where f: "f = (hdr, d)" by force
  let ?r = "if sc_IsConnected s then echo_reply hdr d else []"
  from Cons.prems f obtain s1 where 1: "echo_act (received_header hdr d) d s s1" "message_handler.acts echo_act fs s1 s'"
    by (auto simp: message_handler.acts.simps [OF H])
  have s1: "sc_ready (sent @ ?r) s1" "objs (sc_mem s1) = objs (sc_mem s)" "\<not> sc_IsConnected s \<Longrightarrow> \<not> sc_IsConnected s1"
    using 1(1) Cons.prems(2) by (auto simp: echo_act_def echo_reply_def received_header_def)
  from Cons.IH [OF 1(2) s1(1)] obtain n where n: "n \<le> length fs"
      "sc_ready ((sent @ ?r) @ concat (map (\<lambda>(hdr, d). echo_reply hdr d) (take n fs))) s'"
      "if sc_IsConnected s' then n = length fs else sc_IsConnected s1 \<or> n = 0"
      "objs (sc_mem s') = objs (sc_mem s1)" "\<not> sc_IsConnected s1 \<Longrightarrow> \<not> sc_IsConnected s'" by blast
  show ?case
  proof (cases "sc_IsConnected s")
    case True
    with n s1 f show ?thesis by (intro conjI exI [of _ "Suc n"]) (auto split: if_splits)
  next
    case False
    with n s1 f show ?thesis by (intro conjI exI [of _ 0]) (auto split: if_splits)
  qed
qed

lemma wp_echo_receives:
  assumes "env_ok E" and "kernel_ok K" and "echo_inv s" and "sc_ready sent s" and "\<not> sc_gotHeader s"
    and "\<And>hdr d. (hdr, d) \<in> set fs \<Longrightarrow> echo_request hdr d"
    and "buf_ok b" and "unread b = []"
    and "concat cs = frames echo_streamer fs" and "\<forall>c \<in> set cs. length c \<le> 2 ^ 30"
  shows "wp (receives (ServerConnection_OnMessage EchoServer (EchoServerAdapter_HandlePacket E K)) (b, s) cs)
           (\<lambda>(b', s'). unread b' = [] \<and> objs (sc_mem s') = objs (sc_mem s) \<and>
              (\<exists>n \<le> length fs. sc_ready (sent @ concat (map (\<lambda>(hdr, d). echo_reply hdr d) (take n fs))) s' \<and>
                 (sc_IsConnected s' \<longrightarrow> n = length fs)))"
proof (rule echo_adapter.wp_OnMessage)
  note H = echo_message_handler [OF assms(1,2)]
  have S: "sc_streamer s = echo_streamer" using assms(3) by (simp add: echo_inv_def)
  have ready: "sc_ready x (put_got g h s') = sc_ready x s'" for x g h s' by (simp add: sc_ready_def)
  have "wp (feed echo_streamer (echo_handle E K) (b, False, sc_header s, s) cs) (\<lambda>(b', got', header', s').
      unread b' = [] \<and> message_handler.acts echo_act fs s s')"
    by (rule wp_mono [OF message_handler.feed_chunks [OF H assms(6,3,7)]]) (use assms in auto)
  then show "wp (feed (sc_streamer s) (echo_handle E K) (b, sc_gotHeader s, sc_header s, s) cs)
      (\<lambda>(b', g', h', s'). unread b' = [] \<and> objs (sc_mem (put_got g' h' s')) = objs (sc_mem s) \<and>
         (\<exists>n \<le> length fs. sc_ready (sent @ concat (map (\<lambda>(hdr, d). echo_reply hdr d) (take n fs))) (put_got g' h' s') \<and>
            (sc_IsConnected (put_got g' h' s') \<longrightarrow> n = length fs)))"
    unfolding S using assms(5)
    by (simp add: ready, elim wp_mono, clarsimp) (use echo_acts [OF H _ assms(4)] in \<open>metis (no_types, lifting)\<close>)
qed

section \<open>Properties\<close>

text \<open>
  C4. The echo server answers: whatever requests a client sends, framed and cut into chunks at
  any boundaries, the server's connection consumes them all and hands to the TCP connection,
  after what it had sent before, one reply per request in the order of the requests, with the
  channel of the request and its string (with the character the packet class overwrites); only
  when the connection breaks are the last replies missing. No packet object is left behind.
\<close>

theorem EchoServer_answers:
  assumes "env_ok E" and "kernel_ok K" and "echo_inv s" and "sc_ready sent s" and "\<not> sc_gotHeader s"
    and "\<And>hdr d. (hdr, d) \<in> set fs \<Longrightarrow> echo_request hdr d"
    and "buf_ok b" and "unread b = []"
    and "concat cs = frames echo_streamer fs" and "\<forall>c \<in> set cs. length c \<le> 2 ^ 30"
  shows "wp (receives (ServerConnection_OnMessage EchoServer (EchoServerAdapter_HandlePacket E K)) (b, s) cs)
           (\<lambda>(b', s'). unread b' = [] \<and> objs (sc_mem s') = objs (sc_mem s) \<and>
              (\<exists>n \<le> length fs. sc_ready (sent @ concat (map (\<lambda>(hdr, d). echo_reply hdr d) (take n fs))) s' \<and>
                 (sc_IsConnected s' \<longrightarrow> n = length fs)))"
  using assms by (rule wp_echo_receives)

definition idle_server :: "bytes server_conn" where
  "idle_server = \<lparr> sc_tcp = None, sc_streamer = echo_streamer, batchPushPacket = False, sc_output = sample_buffer,
     inputQueue = PacketQueue_new, sc_header = header_zero, sc_gotHeader = False,
     sc_mem = \<lparr> objs = Map.empty, next_addr = 0 \<rparr>, sc_calls = [] \<rparr>"

definition sample_server :: "tcp_conn \<Rightarrow> bytes server_conn" where
  "sample_server c = idle_server\<lparr> sc_tcp := Some c \<rparr>"

lemma sample_connected: "\<exists>c. conn_inv c [] \<and> status c = kConnected"
  using attach_inv [OF sample_ok(1), of 5 "''c''" "''l''" "''r''" 1 100 False True True True 0 kIncoming]
  by (auto simp: wp_def)

lemma sample_server_ok:
  assumes "conn_inv c []"
  shows "sc_ready [] (sample_server c)" and "echo_inv (sample_server c)"
proof -
  show r: "sc_ready [] (sample_server c)" using assms by (simp add: sc_ready_def sample_server_def idle_server_def)
  then show "echo_inv (sample_server c)" by (auto simp: echo_inv_def sample_server_def idle_server_def pmem_ok_def)
qed

theorem EchoServer_answers_witness:
  "\<exists>c. status c = kConnected \<and>
     wp (receives (ServerConnection_OnMessage EchoServer (EchoServerAdapter_HandlePacket sample_env sample_kernel))
           (sample_buffer, sample_server c)
           [take 7 (frame echo_streamer (header_zero\<lparr> chid := 3 \<rparr>) [104, 105]),
            drop 7 (frame echo_streamer (header_zero\<lparr> chid := 3 \<rparr>) [104, 105])])
        (\<lambda>(b', s'). unread b' = [] \<and> objs (sc_mem s') = Map.empty \<and>
           (\<exists>n \<le> 1. sc_ready (concat (map (\<lambda>(hdr, d). echo_reply hdr d)
              (take n [(header_zero\<lparr> chid := 3 \<rparr>, [104, 105])]))) s'))"
proof -
  obtain c where c: "conn_inv c []" "status c = kConnected" using sample_connected by blast
  show ?thesis
    by (rule exI [of _ c], rule conjI [OF c(2)],
        rule wp_mono [OF EchoServer_answers [OF sample_ok sample_server_ok(2,1) [OF c(1)],
          where fs = "[(header_zero\<lparr> chid := 3 \<rparr>, [104, 105])]"]])
      (auto simp: sample_server_def idle_server_def echo_request_def DATA_MAX_SIZE_def)
qed



text \<open>
  With \<open>SetBatchPushPacket(true)\<close> the packets reach the adapter in batches of exactly 15, in
  the order of the stream and without loss or repetition; the packets after the last full batch,
  up to 14 of them, stay in the input queue. Nothing but the next packets delivers them.
\<close>

theorem ServerConnection_batches:
  assumes "packet_codec cls valid enc same" and "existPacketHeader (sc_streamer s)" and "has_factory (sc_streamer s)"
    and "pmem_ok (sc_mem s)" and "batchPushPacket s" and "inputQueue s = PacketQueue_new" and "\<not> sc_gotHeader s"
    and "\<And>hdr x. (hdr, x) \<in> set ps \<Longrightarrow> valid x" and "buf_ok b" and "unread b = []"
    and "concat cs = frames (sc_streamer s) (map (\<lambda>(hdr, x). (hdr, enc x)) ps)" and "\<forall>c \<in> set cs. length c \<le> 2 ^ 30"
  shows "wp (receives (ServerConnection_OnMessage cls log_adapter) (b, s) cs) (\<lambda>(b', s'). unread b' = [] \<and>
           (\<exists>bs. sc_calls s' = sc_calls s @ map BatchCall bs \<and> (\<forall>l \<in> set bs. length l = 15) \<and>
              length (queued s') < 15 \<and>
              list_all2 (\<lambda>(hdr, x) z. \<exists>x' y. z = SeenPacket (received_header hdr (enc x)) y \<and>
                 valid x' \<and> enc x' = enc x \<and> same x' y) ps (concat bs @ queued s')))"
proof (rule log_srv.wp_OnMessage)
  have H: "framed_codec cls valid enc same (sc_streamer s)"
    using assms(1-3) by (simp add: framed_codec_def framed_codec_axioms_def)
  have q: "queued s = []" "\<exists>ps. pq_rel (objs (sc_mem s)) (inputQueue s) ps \<and> length ps < 15"
    using assms(6) by (auto simp: queued_def PacketQueue_new_def pq_rel_def intro!: exI [of _ "[]"])
  have "wp (feed (sc_streamer s) (ServerConnection_HandlePacket cls log_adapter) (b, False, sc_header s, s) cs)
           (\<lambda>(b', got, hdr', s'). unread b' = [] \<and> \<not> got \<and>
              (\<exists>zs bs. list_all2 (\<lambda>(hdr, d) z. framed_codec.arrives valid enc same (received_header hdr d) d z)
                   (map (\<lambda>(hdr, x). (hdr, enc x)) ps) zs \<and>
                 sc_calls s' = sc_calls s @ map BatchCall bs \<and> queued s @ zs = concat bs @ queued s' \<and>
                 (\<forall>b \<in> set bs. length b = 15) \<and> length (queued s') < 15))"
    by (rule framed_codec.delivers_batches [OF H])
      (use assms q(2) in \<open>auto simp: framed_codec.encoded_def [OF H] framed_codec.batch_inv_def [OF H]\<close>)
  then show "wp (feed (sc_streamer s) (ServerConnection_HandlePacket cls log_adapter) (b, sc_gotHeader s, sc_header s, s) cs)
      (\<lambda>(b', g', h', s'). unread b' = [] \<and>
           (\<exists>bs. sc_calls (put_got g' h' s') = sc_calls s @ map BatchCall bs \<and> (\<forall>l \<in> set bs. length l = 15) \<and>
              length (queued (put_got g' h' s')) < 15 \<and>
              list_all2 (\<lambda>(hdr, x) z. \<exists>x' y. z = SeenPacket (received_header hdr (enc x)) y \<and>
                 valid x' \<and> enc x' = enc x \<and> same x' y) ps (concat bs @ queued (put_got g' h' s'))))"
    using assms(7) q(1) by (simp, elim wp_mono, clarsimp simp: framed_codec.arrives_def [OF H] list_all2_map1 split_beta)
      (fastforce elim: list_all2_mono)
qed

theorem ServerConnection_batches_witness:
  "wp (receives (ServerConnection_OnMessage EchoServer log_adapter)
         (sample_buffer, idle_server\<lparr> batchPushPacket := True \<rparr>)
         [concat (replicate 20 (frame echo_streamer (header_zero\<lparr> chid := 3 \<rparr>) []))])
     (\<lambda>(b', s'). unread b' = [] \<and>
        (\<exists>bs. sc_calls s' = map BatchCall bs \<and> length (queued s') < 15))"
proof -
  have e: "EchoPacket_GetString EchoPacket_new = []" "srv_valid EchoPacket_new"
    by (auto simp: EchoPacket_GetString_def EchoPacket_new_def cstr_def srv_valid_def DATA_MAX_SIZE_def)
  show ?thesis
    by (rule wp_mono [OF ServerConnection_batches [OF echo_server.packet_codec_axioms,
          where ps = "replicate 20 (header_zero\<lparr> chid := 3 \<rparr>, EchoPacket_new)"]])
      (auto simp: sample_server_def idle_server_def e pmem_ok_def DefaultPacketStreamer_new_def frames_def length_concat sum_list_replicate)
qed

text \<open>
  \<open>PostPacket\<close> ignores the result of \<open>Encode\<close>: when the packet's body cannot be encoded, it
  frees the packet, sends nothing and still returns true, as if the packet had been sent.
\<close>

theorem PostPacket_Encode_ignored:
  assumes "sc_IsConnected s" and "buf_ok (sc_output s)" and "unread (sc_output s) = []"
    and "existPacketHeader (sc_streamer s)" and "objs (sc_mem s) p = Some pk" and "Packet_GetChannelId pk \<noteq> 0"
    and "\<And>b. buf_ok b \<Longrightarrow> \<exists>x d b'. vEncode cls (body pk) b = Some (False, x, b') \<and> buf_ok b' \<and> unread b' = unread b @ d"
  shows "wp (ServerConnection_PostPacket cls E K s p) (\<lambda>(ok, s'). ok \<and> sc_tcp s' = sc_tcp s \<and>
           unread (sc_output s') = [])"
proof -
  have "wp (Streamer_Encode cls (sc_streamer s) (objs (sc_mem s)) p (sc_output s)) (\<lambda>(r, h', out'). \<not> r \<and> buf_ok out' \<and>
      unread out' = [])"
    by (rule wp_mono [OF wp_Streamer_Encode_fails [where h = "objs (sc_mem s)" and p = p and pk = pk and
            out = "sc_output s" and S = "sc_streamer s" and cls = cls]])
      (use assms in auto)
  then show ?thesis
    using assms(1,4-6) by (auto simp: ServerConnection_PostPacket_def ExistPacketHeader_def elim!: wp_mono)
qed

theorem PostPacket_Encode_ignored_witness:
  "\<exists>c :: tcp_conn. status c = kConnected \<and>
     wp (ServerConnection_PostPacket failing_class sample_env sample_kernel
           \<lparr> sc_tcp = Some c, sc_streamer = echo_streamer, batchPushPacket = False, sc_output = sample_buffer,
             inputQueue = PacketQueue_new, sc_header = header_zero, sc_gotHeader = False,
             sc_mem = \<lparr> objs = [1 \<mapsto> Packet_SetChannelId (Packet_new ()) 7], next_addr = 2 \<rparr>, sc_calls = [] \<rparr> 1)
        (\<lambda>(ok, s'). ok \<and> sc_tcp s' = Some c \<and> unread (sc_output s') = [])"
proof -
  obtain c where c: "conn_inv c []" "status c = kConnected" using sample_connected by blast
  have f: "\<exists>x d b'. vEncode failing_class (body (Packet_SetChannelId (Packet_new ()) 7)) b = Some (False, x, b') \<and>
     buf_ok b' \<and> unread b' = unread b @ d" if "buf_ok b" for b
    using failing_class_fails [OF that] by (simp add: Packet_SetChannelId_def)
  show ?thesis
    by (rule exI [of _ c], rule conjI [OF c(2)], rule wp_mono [OF PostPacket_Encode_ignored [OF _ _ _ _ _ _ f]])
      (use c in \<open>auto simp: sc_IsConnected_def conn_IsConnected_def DefaultPacketStreamer_new_def
        Packet_GetChannelId_def Packet_SetChannelId_def\<close>)
qed

text \<open>
  A request on channel 0 stops the echo server: the adapter answers on the channel of the
  request, and \<open>PostPacket\<close> asserts that it is not 0. A client chooses the channel in the header
  it sends.
\<close>

theorem EchoServer_channel_zero:
  assumes "sc_IsConnected s" and "existPacketHeader (sc_streamer s)"
    and "objs (sc_mem s) p = Some pk" and "Packet_GetChannelId pk = 0"
  shows "EchoServerAdapter_HandlePacket E K (Regular p) s = None"
  using assms by (auto simp: EchoServerAdapter_HandlePacket_def new_packet_def ServerConnection_PostPacket_def
      ExistPacketHeader_def Packet_GetChannelId_def Packet_SetChannelId_def sc_IsConnected_def)

theorem EchoServer_channel_zero_witness:
  "\<exists>c. status c = kConnected \<and>
     EchoServerAdapter_HandlePacket sample_env sample_kernel (Regular 0)
       ((sample_server c)\<lparr> sc_mem := \<lparr> objs = [0 \<mapsto> Packet_new EchoPacket_new], next_addr = 1 \<rparr> \<rparr>) = None"
proof -
  obtain c where c: "conn_inv c []" "status c = kConnected" using sample_connected by blast
  then show ?thesis
    by (intro exI [of _ c] conjI EchoServer_channel_zero)
      (auto simp: sample_server_def idle_server_def sc_IsConnected_def conn_IsConnected_def DefaultPacketStreamer_new_def
        Packet_new_def Packet_GetChannelId_def header_zero_def)
qed

end
