(* ===== verification/Steps.thy ===== *)
theory Steps
  imports Prelude
begin

text \<open>
  Components whose operations interleave: a step is enabled in some states and then either yields
  a state or fails (\<open>None\<close>). The interface \<open>guarded_steps\<close> is what a component has to show of its
  steps, namely an invariant that holds initially and that every enabled step keeps without
  failing; its clients get the invariant of all reachable states, and that no enabled step fails.
\<close>

inductive reachable :: "('s \<Rightarrow> bool) \<Rightarrow> ('op \<Rightarrow> 's \<Rightarrow> bool) \<Rightarrow> ('op \<Rightarrow> 's \<Rightarrow> 's option) \<Rightarrow> 's \<Rightarrow> bool"
  for init enabled step where
  start: "init s \<Longrightarrow> reachable init enabled step s"
| step: "reachable init enabled step s \<Longrightarrow> enabled op s \<Longrightarrow> step op s = Some s' \<Longrightarrow> reachable init enabled step s'"

text \<open>A sequence of steps, each of which has to be enabled.\<close>

fun run_steps :: "('op \<Rightarrow> 's \<Rightarrow> bool) \<Rightarrow> ('op \<Rightarrow> 's \<Rightarrow> 's option) \<Rightarrow> 'op list \<Rightarrow> 's \<Rightarrow> 's option" where
  "run_steps enabled step [] s = Some s"
| "run_steps enabled step (op # ops) s = do {
     assert_that (enabled op s);
     s \<leftarrow> step op s;
     run_steps enabled step ops s }"

lemma run_steps_reachable:
  "run_steps enabled step ops s = Some s' \<Longrightarrow> reachable init enabled step s \<Longrightarrow> reachable init enabled step s'"
  by (induction ops arbitrary: s) (auto simp: assert_that_def split: bind_splits if_splits intro: reachable.step)

lemma wp_run_steps_reachable:
  assumes "wp (run_steps enabled step ops s) Q" and "init s"
  shows "\<exists>s'. reachable init enabled step s' \<and> Q s'"
  using assms run_steps_reachable [OF _ reachable.start [of init s enabled step]] unfolding wp_def by blast

lemma run_steps_append:
  "run_steps enabled step (xs @ ys) s = run_steps enabled step xs s \<bind> run_steps enabled step ys"
  by (induction xs arbitrary: s) (auto split: bind_splits)

text \<open>A property that every step keeps is kept by a run.\<close>

lemma run_steps_keep:
  assumes "run_steps enabled step ops s = Some s'" and "J s"
    and "\<And>op s s'. op \<in> set ops \<Longrightarrow> J s \<Longrightarrow> enabled op s \<Longrightarrow> step op s = Some s' \<Longrightarrow> J s'"
  shows "J s'"
  using assms
proof (induction ops arbitrary: s)
  case (Cons op ops)
  then obtain t where "enabled op s" "step op s = Some t" "run_steps enabled step ops t = Some s'"
    by (auto simp: assert_that_def split: bind_splits if_splits)
  with Cons show ?case by (metis list.set_intros)
qed simp

lemma wp_case: "wp m Q \<longleftrightarrow> (case m of Some x \<Rightarrow> Q x | None \<Rightarrow> False)"
  by (auto simp: wp_def split: option.splits)

locale guarded_steps =
  fixes init :: "'s \<Rightarrow> bool" and enabled :: "'op \<Rightarrow> 's \<Rightarrow> bool" and step :: "'op \<Rightarrow> 's \<Rightarrow> 's option" and inv :: "'s \<Rightarrow> bool"
  assumes init_inv: "init s \<Longrightarrow> inv s"
    and step_inv: "inv s \<Longrightarrow> enabled op s \<Longrightarrow> wp (step op s) inv"
begin

lemma reachable_inv: "reachable init enabled step s \<Longrightarrow> inv s"
proof (induction rule: reachable.induct)
  case (step s op s')
  then show ?case using step_inv [of s op] by (simp add: wp_def)
qed (rule init_inv)

lemma no_failure: "reachable init enabled step s \<Longrightarrow> enabled op s \<Longrightarrow> step op s \<noteq> None"
  using step_inv [OF reachable_inv] by (auto simp: wp_def)

end

end
