(* ===== verification/ServerBase.thy ===== *)
theory ServerBase
  imports TcpServer ServerConn Steps
begin

text \<open>
  \<open>ServerBase::Start\<close> and \<open>ServerBase::Stop\<close> (\<open>common/net/serverbase.cc\<close>) over \<open>TCPServer\<close>. \<open>Stop\<close> hands
  a callback to the TCP server and then waits on a condition variable until the callback has set
  \<open>stopped_\<close>. The listening loop runs the callback without the mutex of the condition variable, so the
  two statements of the callback and the parts of the wait are steps of their own:

  \<^item> \<open>StopLock\<close> takes \<open>stopMutex_\<close>, \<open>StopTest\<close> evaluates the predicate, \<open>StopSleep\<close> gives the mutex up
    and blocks in one step, as the condition variable promises; \<open>CbNotify\<close> wakes the caller if it
    sleeps, and \<open>StopSpurious\<close> is a wake-up without a reason.
  \<^item> \<open>BaseTcp\<close> is a step of the TCP server. While the loop's thread is inside the callback, or is
    itself the caller of \<open>Stop\<close>, it runs nothing else.
\<close>

section \<open>The server\<close>

datatype stop_pc = NotCalled | Called | Locked | Tested | Sleeping | Returned

text \<open>\<open>bs_set\<close> and \<open>bs_notified\<close> count the executions of the two statements of the callback.\<close>

record 'b base_server =
  bs_base :: "'b server_base"
  bs_tcp :: tcp_server
  bs_set :: nat
  bs_notified :: nat
  bs_pc :: stop_pc
  bs_in_loop :: bool

definition ServerBase_new :: "streamer \<Rightarrow> bool \<Rightarrow> 'b pmem \<Rightarrow> bool \<Rightarrow> string \<Rightarrow> u32 \<Rightarrow> 'b base_server" where
  "ServerBase_new st batch m running laddr thread_num =
     \<lparr>bs_base = \<lparr>sb_streamer = st, sb_batch = batch, sb_stopped = False, sb_scs = (\<lambda>_. None), sb_next = 0, sb_mem = m\<rparr>,
      bs_tcp = TCPServer_new running laddr thread_num, bs_set = 0, bs_notified = 0, bs_pc = NotCalled, bs_in_loop = False\<rparr>"

text \<open>\<open>Start\<close> up to the point where \<open>Run\<close> has started the loop; the results of \<open>Init\<close> and \<open>Start\<close> are dropped.\<close>

definition ServerBase_Start :: "pton \<Rightarrow> listen_env \<Rightarrow> loop_env \<Rightarrow> nat list \<Rightarrow> 'b base_server \<Rightarrow> 'b base_server option" where
  "ServerBase_Start pton K E sched B = do {
     (_, S) \<leftarrow> TCPServer_Init pton K (bs_tcp B);
     (_, S) \<leftarrow> TCPServer_Start E sched S;
     Some (B\<lparr>bs_tcp := S\<lparr>srv_loop_running := True\<rparr>\<rparr>) }"

text \<open>\<open>Stop\<close> up to the end of \<open>tcp_server_.Stop\<close>.\<close>

definition ServerBase_Stop :: "loop_env \<Rightarrow> nat list \<Rightarrow> 'b base_server \<Rightarrow> 'b base_server option" where
  "ServerBase_Stop E sched B = do {
     S \<leftarrow> TCPServer_Stop E sched True (bs_tcp B);
     Some (B\<lparr>bs_tcp := S, bs_pc := Called, bs_in_loop := inLoopThread E\<rparr>) }"

definition stopped_store :: "'b base_server \<Rightarrow> 'b base_server" where
  "stopped_store B = B\<lparr>bs_base := ServerBase_stopped (bs_base B), bs_set := Suc (bs_set B)\<rparr>"

definition notify_one :: "'b base_server \<Rightarrow> 'b base_server" where
  "notify_one B = B\<lparr>bs_notified := Suc (bs_notified B), bs_pc := (if bs_pc B = Sleeping then Locked else bs_pc B)\<rparr>"

definition stop_test :: "'b base_server \<Rightarrow> 'b base_server" where
  "stop_test B = B\<lparr>bs_pc := (if sb_stopped (bs_base B) then Returned else Tested)\<rparr>"

datatype base_op =
  BaseTcp "nat list" srv_op | BaseStop "nat list" bool | CbStore | CbNotify | StopLock | StopTest | StopSleep | StopSpurious

fun base_do :: "loop_env \<Rightarrow> ksend \<Rightarrow> ntop \<Rightarrow> base_op \<Rightarrow> 'b base_server \<Rightarrow> 'b base_server option" where
  "base_do E K ntop (BaseTcp sched op) B = do { S \<leftarrow> srv_do E K ntop True sched op (bs_tcp B); Some (B\<lparr>bs_tcp := S\<rparr>) }"
| "base_do E K ntop (BaseStop sched inloop) B = ServerBase_Stop (E\<lparr>inLoopThread := inloop\<rparr>) sched B"
| "base_do E K ntop CbStore B = Some (stopped_store B)"
| "base_do E K ntop CbNotify B = Some (notify_one B)"
| "base_do E K ntop StopLock B = Some (B\<lparr>bs_pc := Locked\<rparr>)"
| "base_do E K ntop StopTest B = Some (stop_test B)"
| "base_do E K ntop StopSleep B = Some (B\<lparr>bs_pc := Sleeping\<rparr>)"
| "base_do E K ntop StopSpurious B = Some (B\<lparr>bs_pc := Locked\<rparr>)"

text \<open>The steps that the thread of the listening loop makes.\<close>

fun loop_op :: "srv_op \<Rightarrow> tcp_server \<Rightarrow> bool" where
  "loop_op (SrvAttach a) S \<longleftrightarrow> srv_io S a = None"
| "loop_op (SrvConn a op) S \<longleftrightarrow> srv_io S a = None"
| "loop_op op S \<longleftrightarrow> True"

definition stop_waiting :: "'b base_server \<Rightarrow> bool" where
  "stop_waiting B \<longleftrightarrow> bs_pc B \<notin> {NotCalled, Returned}"

fun base_enabled :: "base_op \<Rightarrow> 'b base_server \<Rightarrow> bool" where
  "base_enabled (BaseTcp sched op) B \<longleftrightarrow> (\<forall>b. op \<noteq> SrvStop b) \<and> srv_enabled op (bs_tcp B) \<and> sched_ok sched (bs_tcp B) \<and>
     bs_notified B = srv_done (bs_tcp B) \<and> (loop_op op (bs_tcp B) \<longrightarrow> \<not> (bs_in_loop B \<and> stop_waiting B))"
| "base_enabled (BaseStop sched inloop) B \<longleftrightarrow> bs_pc B = NotCalled \<and> srv_enabled (SrvStop inloop) (bs_tcp B) \<and> sched_ok sched (bs_tcp B)"
| "base_enabled CbStore B \<longleftrightarrow> bs_set B < srv_done (bs_tcp B)"
| "base_enabled CbNotify B \<longleftrightarrow> bs_notified B < bs_set B"
| "base_enabled StopLock B \<longleftrightarrow> bs_pc B = Called \<and> (bs_in_loop B \<longrightarrow> bs_notified B = srv_done (bs_tcp B))"
| "base_enabled StopTest B \<longleftrightarrow> bs_pc B = Locked"
| "base_enabled StopSleep B \<longleftrightarrow> bs_pc B = Tested"
| "base_enabled StopSpurious B \<longleftrightarrow> bs_pc B = Sleeping"

definition base_init :: "loop_env \<Rightarrow> ksend \<Rightarrow> 'b base_server \<Rightarrow> bool" where
  "base_init E K B \<longleftrightarrow> env_ok E \<and> kernel_ok K \<and>
     (\<exists>pton G sched st batch m laddr n inloop. subseq (concat (map (\<lambda>i. [i, i]) [0..<unat n])) sched \<and>
        ServerBase_Start pton G (E\<lparr>inLoopThread := inloop\<rparr>) sched (ServerBase_new st batch m False laddr n) = Some B)"

section \<open>Lemmas\<close>

definition base_inv :: "loop_env \<Rightarrow> ksend \<Rightarrow> 'b base_server \<Rightarrow> bool" where
  "base_inv E K B \<longleftrightarrow> env_ok E \<and> kernel_ok K \<and> srv_inv E True (bs_tcp B) \<and> srv_loop_running (bs_tcp B) \<and>
     bs_notified B \<le> bs_set B \<and> bs_set B \<le> srv_done (bs_tcp B) \<and> (sb_stopped (bs_base B) \<longleftrightarrow> 0 < bs_set B) \<and>
     (bs_pc B = NotCalled \<longrightarrow> srv_status (bs_tcp B) = kRunning) \<and> (bs_pc B = Returned \<longrightarrow> sb_stopped (bs_base B))"

lemma srv_inv_done:
  assumes "srv_inv E True S"
  shows "srv_done S \<le> 1" and "srv_done S = 1 \<longleftrightarrow> srv_status S = kStopped"
  using assms by (auto simp: srv_inv_def phase_inv_def split: server_status.splits)

text \<open>The status of a server changes only from stopping to stopped, and completion callbacks are not undone.\<close>

definition srv_grows :: "tcp_server \<Rightarrow> tcp_server \<Rightarrow> bool" where
  "srv_grows S S' \<longleftrightarrow> srv_done S \<le> srv_done S' \<and> (srv_loop_running S \<longrightarrow> srv_loop_running S') \<and>
     (srv_status S' = srv_status S \<or> srv_status S = kStopping \<and> srv_status S' = kStopped)"

lemma srv_grows_refl [simp]: "srv_grows S S"
  by (simp add: srv_grows_def)

lemma srv_grows_trans: "srv_grows S S' \<Longrightarrow> srv_grows S' S'' \<Longrightarrow> srv_grows S S''"
  by (auto simp: srv_grows_def)

lemma srv_grows_frame: "srv_done S' = srv_done S \<Longrightarrow> srv_loop_running S' = srv_loop_running S \<Longrightarrow> srv_status S' = srv_status S \<Longrightarrow> srv_grows S S'"
  by (simp add: srv_grows_def)

lemma close_connections_frame:
  assumes "foldM close_connection S as = Some S'"
  shows "srv_done S' = srv_done S" and "srv_status S' = srv_status S" and "srv_loop_running S' = srv_loop_running S"
proof -
  let ?R = "\<lambda>S S'. srv_done S' = srv_done S \<and> srv_status S' = srv_status S \<and> srv_loop_running S' = srv_loop_running S"
  have "?R S S'" by (rule foldM_rel [OF assms, of ?R]) (auto simp: close_connection_def split: bind_splits if_splits)
  then show "srv_done S' = srv_done S" and "srv_status S' = srv_status S" and "srv_loop_running S' = srv_loop_running S" by simp_all
qed

lemma remove_in_loop_grows: "remove_in_loop E sched a S = Some S' \<Longrightarrow> srv_grows S S'"
  by (auto simp: remove_in_loop_def Let_def srv_grows_def dest!: StopThreadPool_frame split: bind_splits if_splits)

lemma StopInLoop_grows:
  assumes "TCPServer_StopInLoop E sched cb S = Some S'"
  shows "srv_grows S S'"
proof (cases "srv_connections S = []")
  case True
  then have "srv_status S = kStopping" using assms StopInLoop_not_stopping [of S E sched cb] by fastforce
  then show ?thesis
    using assms True
    by (auto simp: TCPServer_StopInLoop_def Let_def srv_grows_def dest!: StopThreadPool_frame split: bind_splits)
next
  case False
  then obtain fd S1 where "foldM close_connection (S\<lparr>srv_listener := None, srv_closed := srv_closed S @ [fd]\<rparr>)
      (map snd (srv_connections S)) = Some S1" and S': "S' = S1\<lparr>srv_stopped_cb := cb\<rparr>"
    using assms by (auto simp: TCPServer_StopInLoop_def Let_def split: bind_splits)
  from close_connections_frame [OF this(1)] S' show ?thesis by (simp add: srv_grows_def)
qed

lemma srv_event_grows: "srv_event E sched a S ev = Some S' \<Longrightarrow> srv_grows S S'"
  by (auto simp: srv_event_def log_callbacks_def TCPServer_RemoveConnection_def srv_RunInLoop_def
      intro: remove_in_loop_grows srv_grows_frame split: conn_event.splits if_splits)

lemma on_server_conn_grows:
  assumes "on_server_conn E sched f a S = Some S'"
  shows "srv_grows S S'"
proof -
  obtain c c' :: tcp_conn where "foldM (srv_event E sched a) (S\<lparr>srv_conns := (srv_conns S)(a \<mapsto> c')\<rparr>)
      (drop (length (conn_log c)) (conn_log c')) = Some S'"
    using assms unfolding on_server_conn_def by (auto split: bind_splits)
  from foldM_rel [where R = srv_grows, OF this _ srv_grows_trans srv_event_grows] show ?thesis by (simp add: srv_grows_def)
qed

lemma HandleAccept_frame:
  "Listener_HandleAccept E ntop r S = Some S' \<Longrightarrow> srv_grows S S'"
  by (auto simp: Listener_HandleAccept_def TCPServer_HandleNewConn_def TCPServer_GetNextLoop_def Let_def log_callbacks_def srv_grows_def
      split: bind_splits sum.splits prod.splits if_splits)

lemma srv_do_grows:
  assumes "srv_do E K ntop cb sched op S = Some S'" and "\<And>b. op \<noteq> SrvStop b"
  shows "srv_grows S S'"
proof (cases op)
  case SrvTask
  then show ?thesis using assms(1)
    by (auto simp: srv_run_task_def Let_def attach_listener_def split: list.splits srv_task.splits bind_splits
        dest!: StopInLoop_grows remove_in_loop_grows) (auto simp: srv_grows_def)
next
  case (SrvAttach a)
  then show ?thesis using assms(1) by (auto simp: srv_run_attach_def srv_grows_def dest: on_server_conn_grows)
qed (use assms in \<open>auto simp: srv_grows_def dest: HandleAccept_frame on_server_conn_grows\<close>)

lemma TCPServer_Stop_running:
  "TCPServer_Stop E sched cb S = Some S' \<Longrightarrow> srv_loop_running S \<Longrightarrow> srv_loop_running S'"
  by (auto simp: TCPServer_Stop_def srv_RunInLoop_def srv_grows_def dest!: StopInLoop_grows split: bind_splits if_splits)

subsection \<open>The invariant\<close>

lemma Start_not_running:
  "\<not> srv_loop_running S \<Longrightarrow> TCPServer_Start (E\<lparr>inLoopThread := b\<rparr>) sched S = TCPServer_Start (E\<lparr>inLoopThread := False\<rparr>) sched S"
  unfolding TCPServer_Start_def Let_def srv_RunInLoop_def by (simp add: case_prod_beta cong: if_cong)

lemma Start_succeeds:
  assumes "TCPServer_Init pton G (TCPServer_new running laddr n) = Some (b, S0)"
    and "subseq (concat (map (\<lambda>i. [i, i]) [0..<unat n])) sched" and "TCPServer_Start E sched S0 = Some (rc, S)"
  shows "b" and "rc" and "srv_loop_running S0 = running"
proof -
  have S0: "srv_pool S0 = Some (EventLoopThreadPool_new n)" and b: b and r: "srv_loop_running S0 = running"
    using assms(1) by (auto simp: TCPServer_Init_def TCPServer_new_def Let_def split: bind_splits)
  obtain rest P where "Pool_Start True sched (EventLoopThreadPool_new n) = Some (True, rest, P)"
    using Pool_Start_ok [of "EventLoopThreadPool_new n" sched "[]"] assms(2) by (auto simp: EventLoopThreadPool_new_def)
  then show rc using assms(3) S0 by (auto simp: TCPServer_Start_def Let_def split: bind_splits)
  show b and "srv_loop_running S0 = running" by (fact b, fact r)
qed

lemma srv_inv_running [simp]: "srv_inv E cb (S\<lparr>srv_loop_running := True\<rparr>) = srv_inv E cb S"
  by (simp add: srv_inv_def phase_inv_def cong: server_status.case_cong option.case_cong)

lemma base_init_inv:
  assumes "base_init E K B"
  shows "base_inv E K B"
proof -
  from assms obtain pton G sched st batch m laddr n inloop where E: "env_ok E" "kernel_ok K"
    and sub: "subseq (concat (map (\<lambda>i. [i, i]) [0..<unat n])) sched"
    and start: "ServerBase_Start pton G (E\<lparr>inLoopThread := inloop\<rparr>) sched (ServerBase_new st batch m False laddr n) = Some B"
    unfolding base_init_def by blast
  then obtain b S0 rc S where S0: "TCPServer_Init pton G (TCPServer_new False laddr n) = Some (b, S0)"
    and S: "TCPServer_Start (E\<lparr>inLoopThread := inloop\<rparr>) sched S0 = Some (rc, S)"
    and B: "B = ServerBase_new st batch m False laddr n\<lparr>bs_tcp := S\<lparr>srv_loop_running := True\<rparr>\<rparr>"
    by (auto simp: ServerBase_Start_def ServerBase_new_def split: bind_splits)
  note ok = Start_succeeds [OF S0 sub S]
  have "SetThreadDispatchPolicy kRoundRobin (TCPServer_new False laddr n) = TCPServer_new False laddr n"
    by (simp add: SetThreadDispatchPolicy_def TCPServer_new_def)
  then have "srv_inv E True S"
    using Start_inv [OF E(1) _ sub, of pton G kRoundRobin False laddr S0 False S] S0 S ok Start_not_running [where S = S0 and b = inloop] by simp
  moreover have "srv_status S = kRunning"
    using S ok(2) by (auto simp: TCPServer_Start_def Let_def srv_RunInLoop_def attach_listener_def split: bind_splits if_splits)
  ultimately show ?thesis using E by (simp add: base_inv_def B ServerBase_new_def)
qed

lemma base_step_inv:
  assumes i: "base_inv E K B" and e: "base_enabled op B"
  shows "wp (base_do E K ntop op B) (base_inv E K)"
proof (cases op)
  case (BaseTcp sched sop)
  with i e have "wp (srv_do E K ntop True sched sop (bs_tcp B)) (srv_inv E True)"
    by (intro wp_srv_do) (auto simp: base_inv_def)
  then obtain S where S: "srv_do E K ntop True sched sop (bs_tcp B) = Some S" "srv_inv E True S" by (auto simp: wp_def)
  moreover have "srv_grows (bs_tcp B) S" by (rule srv_do_grows [OF S(1)]) (use e BaseTcp in auto)
  ultimately show ?thesis using i BaseTcp by (auto simp: base_inv_def srv_grows_def)
next
  case (BaseStop sched inloop)
  with i e have "wp (TCPServer_Stop (E\<lparr>inLoopThread := inloop\<rparr>) sched True (bs_tcp B)) (srv_inv E True)"
    by (intro wp_SrvStop) (auto simp: base_inv_def)
  then obtain S where S: "TCPServer_Stop (E\<lparr>inLoopThread := inloop\<rparr>) sched True (bs_tcp B) = Some S" "srv_inv E True S"
    by (auto simp: wp_def)
  moreover have "srv_loop_running S" by (rule TCPServer_Stop_running [OF S(1)]) (use i in \<open>simp add: base_inv_def\<close>)
  moreover have "bs_set B = 0"
    using i e BaseStop by (auto simp: base_inv_def srv_inv_def phase_inv_def)
  ultimately show ?thesis using i BaseStop by (auto simp: base_inv_def ServerBase_Stop_def)
qed (use i e in \<open>auto simp: base_inv_def stopped_store_def ServerBase_stopped_def notify_one_def stop_test_def\<close>)

interpretation base: guarded_steps "base_init E K" base_enabled "base_do E K ntop" "base_inv E K" for E K ntop
  by unfold_locales (auto intro: base_init_inv base_step_inv)

subsection \<open>Runs\<close>

text \<open>The thread of the loop runs what is queued and, when the server has stopped, the callback.\<close>

definition drained :: "loop_env \<Rightarrow> ksend \<Rightarrow> stop_pc \<Rightarrow> nat \<Rightarrow> 'b base_server \<Rightarrow> bool" where
  "drained E K pc k B \<longleftrightarrow> base_inv E K B \<and> winding_down (bs_tcp B) \<and> srv_tasks (bs_tcp B) = [] \<and> \<not> bs_in_loop B \<and>
     bs_notified B = srv_done (bs_tcp B) \<and> k \<le> bs_notified B \<and> bs_pc B = (if pc = Sleeping \<and> k < bs_notified B then Locked else pc)"

lemma base_drain:
  assumes "base_inv E K B" and "winding_down (bs_tcp B)" and "sched_ok sched (bs_tcp B)" and "\<not> bs_in_loop B"
    and "bs_notified B = srv_done (bs_tcp B)"
  shows "\<exists>ops. set ops \<subseteq> {BaseTcp sched SrvTask, CbStore, CbNotify} \<and>
    wp (run_steps base_enabled (base_do E K ntop) ops B) (drained E K (bs_pc B) (bs_notified B))"
  using assms
proof (induction "length (srv_tasks (bs_tcp B))" arbitrary: B)
  case 0
  then show ?case by (intro exI [of _ "[]"]) (simp add: drained_def)
next
  case (Suc n)
  then obtain t ts where ts: "srv_tasks (bs_tcp B) = t # ts" by (cases "srv_tasks (bs_tcp B)") auto
  have E: "env_ok E" and i: "srv_inv E True (bs_tcp B)" using Suc.prems(1) by (simp_all add: base_inv_def)
  obtain S where S: "srv_run_task E sched (bs_tcp B) = Some S" "srv_inv E True S" "winding_down S" "sched_ok sched S" "srv_tasks S = ts"
    by (rule winding_down_step [OF E Suc.prems(2) i Suc.prems(3) ts])
  let ?B = "B\<lparr>bs_tcp := S\<rparr>"
  have en: "base_enabled (BaseTcp sched SrvTask) B"
    using Suc.prems by (auto simp: winding_down_def stop_race_def split: list.splits srv_task.splits)
  then have iB: "base_inv E K ?B" using base_step_inv [OF Suc.prems(1) en, of ntop] S(1) by simp
  show ?case
  proof (cases "srv_done S = bs_notified B")
    case True
    from Suc.hyps(1) [of ?B] obtain ops where "set ops \<subseteq> {BaseTcp sched SrvTask, CbStore, CbNotify}"
      "wp (run_steps base_enabled (base_do E K ntop) ops ?B) (drained E K (bs_pc B) (bs_notified B))"
      using iB S Suc.hyps(2) Suc.prems(4) True ts by fastforce
    then show ?thesis using en S(1) by (intro exI [of _ "BaseTcp sched SrvTask # ops"]) simp
  next
    case False
    have d: "srv_done S = 1" "bs_notified B = 0" "bs_set B = 0"
      using False iB Suc.prems(1,5) srv_inv_done(1) [OF S(2)] srv_inv_done(1) [OF i] by (auto simp: base_inv_def)
    let ?C = "notify_one (stopped_store ?B)"
    have es: "base_enabled CbStore ?B" "base_enabled CbNotify (stopped_store ?B)"
      using d by (simp_all add: stopped_store_def)
    have iC: "base_inv E K ?C"
      using base_step_inv [OF iB es(1), of ntop] base_step_inv [OF _ es(2), of E K ntop] by simp
    have C: "bs_tcp ?C = S" "\<not> bs_in_loop ?C" "bs_notified ?C = 1" "bs_pc ?C = (if bs_pc B = Sleeping then Locked else bs_pc B)"
      using d Suc.prems(4) by (simp_all add: notify_one_def stopped_store_def)
    obtain ops where ops: "set ops \<subseteq> {BaseTcp sched SrvTask, CbStore, CbNotify}"
      "wp (run_steps base_enabled (base_do E K ntop) ops ?C) (drained E K (bs_pc ?C) (bs_notified ?C))"
      using Suc.hyps(1) [of ?C] iC S Suc.hyps(2) C d ts by fastforce
    have "drained E K (bs_pc ?C) (bs_notified ?C) B' \<Longrightarrow> drained E K (bs_pc B) (bs_notified B) B'" for B'
      unfolding C(3,4) d(2) by (auto simp: drained_def)
    from wp_mono [OF ops(2) this] ops(1) en es S(1) show ?thesis
      by (intro exI [of _ "BaseTcp sched SrvTask # CbStore # CbNotify # ops"]) simp
  qed
qed

section \<open>Properties\<close>


section \<open>What goes wrong\<close>

text \<open>A caller that sleeps after the callback is over stays asleep.\<close>

definition overslept :: "loop_env \<Rightarrow> ksend \<Rightarrow> 'b base_server \<Rightarrow> bool" where
  "overslept E K B \<longleftrightarrow> base_inv E K B \<and> bs_pc B = Sleeping \<and> bs_notified B = 1 \<and> srv_status (bs_tcp B) = kStopped"

lemma overslept_step:
  assumes "overslept E K B" and "base_enabled op B" and "base_do E K ntop op B = Some B'" and "op \<noteq> StopSpurious"
  shows "overslept E K B'"
proof -
  have i: "base_inv E K B'" using base_step_inv [OF _ assms(2), of E K ntop] assms(1,3) by (simp add: overslept_def)
  show ?thesis
  proof (cases op)
    case (BaseTcp sched sop)
    then obtain S where S: "srv_do E K ntop True sched sop (bs_tcp B) = Some S" "B' = B\<lparr>bs_tcp := S\<rparr>"
      using assms(3) by (auto split: bind_splits)
    have "srv_grows (bs_tcp B) S" by (rule srv_do_grows [OF S(1)]) (use assms(2) BaseTcp in auto)
    with S i assms(1) show ?thesis by (auto simp: overslept_def srv_grows_def)
  qed (use assms i srv_inv_done(1) [of E "bs_tcp B"] in \<open>auto simp: overslept_def base_inv_def\<close>)
qed

text \<open>C35. The wake-up of \<open>Stop\<close> can be lost: the callback does not take \<open>stopMutex_\<close>. If it runs after the caller has
  found \<open>stopped_\<close> false and before the caller sleeps, the notification reaches nobody. The server has then
  stopped and the flag is set, but whatever happens afterwards \<open>Stop\<close> does not return, unless the condition
  variable wakes it for no reason.\<close>

theorem ServerBase_Stop_lost_wakeup:
  assumes "reachable (base_init E K) base_enabled (base_do E K ntop) B"
    and "bs_pc B = Tested" and "bs_set B < srv_done (bs_tcp B)"
  shows "wp (run_steps base_enabled (base_do E K ntop) [CbStore, CbNotify, StopSleep] B) (\<lambda>B'. sb_stopped (bs_base B') \<and>
    srv_status (bs_tcp B') = kStopped \<and> (\<forall>ops B''. StopSpurious \<notin> set ops \<and>
      run_steps base_enabled (base_do E K ntop) ops B' = Some B'' \<longrightarrow> bs_pc B'' = Sleeping))"
proof -
  have i: "base_inv E K B" by (rule base.reachable_inv [OF assms(1)])
  then have "srv_done (bs_tcp B) = 1" and n: "bs_set B = 0" "bs_notified B = 0"
    using assms(3) srv_inv_done(1) [of E "bs_tcp B"] by (auto simp: base_inv_def)
  then have st: "srv_status (bs_tcp B) = kStopped" using srv_inv_done(2) [of E "bs_tcp B"] i by (simp add: base_inv_def)
  define B' where "B' = (notify_one (stopped_store B))\<lparr>bs_pc := Sleeping\<rparr>"
  have run: "run_steps base_enabled (base_do E K ntop) [CbStore, CbNotify, StopSleep] B = Some B'"
    using assms(2,3) n by (simp add: B'_def notify_one_def stopped_store_def)
  have "base_inv E K B'"
    using base.reachable_inv [OF run_steps_reachable [OF run assms(1)]] .
  then have o: "overslept E K B'" using n st by (simp add: overslept_def B'_def notify_one_def stopped_store_def)
  have "bs_pc B'' = Sleeping" if "StopSpurious \<notin> set ops" "run_steps base_enabled (base_do E K ntop) ops B' = Some B''" for ops B''
  proof -
    have "overslept E K B''"
      by (rule run_steps_keep [where J = "overslept E K", OF that(2) o]) (use that(1) overslept_step in metis)
    then show ?thesis by (simp add: overslept_def)
  qed
  then show ?thesis
    using run st by (intro wpI [OF run]) (auto simp: B'_def notify_one_def stopped_store_def ServerBase_stopped_def)
qed

text \<open>The caller can also return between the two statements of the callback: the loop's thread is then still
  about to call \<open>notify_one\<close> on an object that its owner may already have destroyed.\<close>

lemma ServerBase_Stop_returns_early:
  assumes "bs_pc B = Locked" and "bs_set B < srv_done (bs_tcp B)" and "bs_notified B \<le> bs_set B"
  shows "wp (run_steps base_enabled (base_do E K ntop) [CbStore, StopTest] B) (\<lambda>B'. bs_pc B' = Returned \<and> base_enabled CbNotify B')"
  using assms by (simp add: stopped_store_def stop_test_def ServerBase_stopped_def)

subsection \<open>Stopping from the loop itself\<close>

lemma worker_done:
  assumes "srv_do E K ntop cb sched op S = Some S'" and "\<not> loop_op op S"
  shows "srv_done S' = srv_done S"
proof -
  let ?R = "\<lambda>a S S'. srv_io S a \<noteq> None \<longrightarrow> srv_done S' = srv_done S \<and> srv_io S' a = srv_io S a"
  have conn: "srv_done S' = srv_done S" if run: "on_server_conn E sched f a S = Some S'" and io: "srv_io S a \<noteq> None" for f a S
  proof -
    obtain c c' :: tcp_conn where "foldM (srv_event E sched a) (S\<lparr>srv_conns := (srv_conns S)(a \<mapsto> c')\<rparr>)
        (drop (length (conn_log c)) (conn_log c')) = Some S'"
      using run unfolding on_server_conn_def by (auto split: bind_splits)
    then have "?R a (S\<lparr>srv_conns := (srv_conns S)(a \<mapsto> c')\<rparr>) S'"
      by (rule foldM_rel) (auto simp: srv_event_def log_callbacks_def TCPServer_RemoveConnection_def srv_RunInLoop_def
          split: conn_event.splits if_splits)
    with io show ?thesis by simp
  qed
  show ?thesis using assms conn by (cases op) (auto simp: srv_run_attach_def)
qed

definition deadlocked :: "loop_env \<Rightarrow> ksend \<Rightarrow> 'b base_server \<Rightarrow> bool" where
  "deadlocked E K B \<longleftrightarrow> base_inv E K B \<and> bs_in_loop B \<and> stop_waiting B \<and> srv_done (bs_tcp B) = 0"

lemma deadlocked_step:
  assumes "deadlocked E K B" and "base_enabled op B" and "base_do E K ntop op B = Some B'"
  shows "deadlocked E K B'"
proof -
  have i: "base_inv E K B'" using base_step_inv [OF _ assms(2), of E K ntop] assms(1,3) by (simp add: deadlocked_def)
  show ?thesis
  proof (cases op)
    case (BaseTcp sched sop)
    then obtain S where S: "srv_do E K ntop True sched sop (bs_tcp B) = Some S" "B' = B\<lparr>bs_tcp := S\<rparr>"
      using assms(3) by (auto split: bind_splits)
    have "srv_done S = srv_done (bs_tcp B)"
      by (rule worker_done [OF S(1)]) (use assms(1,2) BaseTcp in \<open>auto simp: deadlocked_def\<close>)
    with S i assms(1) show ?thesis by (auto simp: deadlocked_def stop_waiting_def)
  qed (use assms i in \<open>auto simp: deadlocked_def base_inv_def stop_waiting_def stop_test_def\<close>)
qed

text \<open>C36. \<open>Stop\<close> must not be called in the thread of the loop while there are connections: it closes them, and then
  waits for functors that only this thread could run. No run of the whole system lets it return.\<close>

theorem ServerBase_Stop_in_loop_blocks:
  assumes "reachable (base_init E K) base_enabled (base_do E K ntop) B"
    and "base_enabled (BaseStop sched True) B" and "srv_connections (bs_tcp B) \<noteq> []"
    and "base_do E K ntop (BaseStop sched True) B = Some B1" and "run_steps base_enabled (base_do E K ntop) ops B1 = Some B2"
  shows "bs_pc B2 \<noteq> Returned \<and> \<not> sb_stopped (bs_base B2) \<and> srv_status (bs_tcp B2) \<noteq> kStopped"
proof -
  have i: "base_inv E K B" by (rule base.reachable_inv [OF assms(1)])
  have i1: "base_inv E K B1" using base_step_inv [OF i assms(2), of ntop] assms(4) by simp
  obtain S where S: "TCPServer_Stop (E\<lparr>inLoopThread := True\<rparr>) sched True (bs_tcp B) = Some S"
    and B1: "B1 = B\<lparr>bs_tcp := S, bs_pc := Called, bs_in_loop := True\<rparr>"
    using assms(4) by (auto simp: ServerBase_Stop_def split: bind_splits)
  have "srv_done (bs_tcp B) = 0" using i assms(2) srv_inv_done [of E "bs_tcp B"] by (auto simp: base_inv_def)
  moreover have "srv_done S = srv_done (bs_tcp B)"
    using S assms(3) i
    by (auto simp: TCPServer_Stop_def srv_RunInLoop_def TCPServer_StopInLoop_def Let_def base_inv_def
        dest!: close_connections_frame(1) split: bind_splits)
  ultimately have "deadlocked E K B1" using i1 B1 by (simp add: deadlocked_def stop_waiting_def)
  then have "deadlocked E K B2" by (rule run_steps_keep [OF assms(5)]) (rule deadlocked_step)
  then show ?thesis using srv_inv_done(2) [of E "bs_tcp B2"] by (auto simp: deadlocked_def stop_waiting_def base_inv_def)
qed

section \<open>A run\<close>

definition sample_base :: "nat base_server" where
  "sample_base = ServerBase_new (DefaultPacketStreamer_new True) False \<lparr>objs = (\<lambda>_. None), next_addr = 0\<rparr> False ''0.0.0.0:80'' 1"

definition sample_started :: "nat base_server" where
  "sample_started = sample_base\<lparr>bs_tcp := run_started\<lparr>srv_loop_running := True\<rparr>\<rparr>"

lemma sample_init: "base_init run_env run_kernel sample_started"
proof -
  obtain rest where "Pool_Start True [0, 0] (EventLoopThreadPool_new 1) = Some (True, rest, started 1 (EventLoopThreadPool_new 1))"
    using Pool_Start_ok [of "EventLoopThreadPool_new 1" "[0, 0]" "[]"] by (auto simp: EventLoopThreadPool_new_def)
  moreover have "ParseFromIPPort_value run_pton ''0.0.0.0:80'' \<noteq> None" by code_simp
  ultimately have "ServerBase_Start run_pton run_listen (run_env\<lparr>inLoopThread := False\<rparr>) [0, 0] sample_base = Some sample_started"
    by (auto simp: ServerBase_Start_def sample_base_def sample_started_def ServerBase_new_def TCPServer_Init_def Listener_Listen_def
        run_listen_def TCPServer_new_def Listener_new_def Let_def TCPServer_Start_def run_started_def Listener_Accept_def
        SetNewConnectionCallback_def FdChannel_new_def SetReadCallback_def srv_RunInLoop_def started_def EventLoopThreadPool_new_def)
  moreover have "subseq (concat (map (\<lambda>i. [i, i]) [0..<unat (1 :: u32)])) [0, 0]" by simp
  ultimately show ?thesis using run_ok unfolding base_init_def sample_base_def by blast
qed

lemmas base_run_defs = sample_started_def sample_base_def ServerBase_new_def ServerBase_Stop_def stopped_store_def notify_one_def
  stop_test_def stop_waiting_def TCPServer_Stop_def TCPServer_StopInLoop_def Listener_Stop_def Listener_delete_def FdChannel_delete_def
  close_connection_def conn_IsConnected_def

definition sample_accepted :: "base_op list" where
  "sample_accepted = map (BaseTcp [0, 0]) [SrvTask, SrvAccept (Inr (7, run_peer, True)), SrvAttach 0]"

definition sample_stopping :: "base_op list" where
  "sample_stopping = sample_accepted @ [BaseStop [0, 0] False] @ map (BaseTcp [0, 0]) [SrvTask, SrvConn 0 OpTask]"

text \<open>One connection is accepted, another thread calls \<open>Stop\<close>, and the connection closes.\<close>

lemma sample_stopping_run:
  "wp (run_steps base_enabled (base_do run_env run_kernel run_ntop) sample_stopping sample_started)
    (\<lambda>B. bs_pc B = Called \<and> \<not> bs_in_loop B \<and> sched_ok [0, 0] (bs_tcp B) \<and> srv_status (bs_tcp B) = kStopping \<and>
       srv_listener (bs_tcp B) = None \<and> (\<forall>a c. srv_conns (bs_tcp B) a = Some c \<longrightarrow> conn_closed c))"
proof -
  obtain b where b: "Buffer_new kInitialSize kCheapPrependSize = Some b"
    using wp_Buffer_new [of kInitialSize kCheapPrependSize] by (auto simp: wp_def)
  have p: "ToIPPort run_ntop run_peer \<noteq> []" by code_simp
  show ?thesis by (simp add: sample_stopping_def sample_accepted_def b p run_defs base_run_defs)
qed

lemma sample_accepted_run:
  "wp (run_steps base_enabled (base_do run_env run_kernel run_ntop) sample_accepted sample_started)
    (\<lambda>B. base_enabled (BaseStop [0, 0] True) B \<and> srv_connections (bs_tcp B) \<noteq> [])"
proof -
  obtain b where b: "Buffer_new kInitialSize kCheapPrependSize = Some b"
    using wp_Buffer_new [of kInitialSize kCheapPrependSize] by (auto simp: wp_def)
  have p: "ToIPPort run_ntop run_peer \<noteq> []" by code_simp
  show ?thesis by (simp add: sample_accepted_def b p run_defs base_run_defs)
qed

text \<open>Without connections, \<open>Stop\<close> is called, tests the flag, and then the loop stops the server.\<close>

lemma sample_tested_run:
  "wp (run_steps base_enabled (base_do run_env run_kernel run_ntop)
      [BaseTcp [0, 0] SrvTask, BaseStop [0, 0] False, StopLock, StopTest, BaseTcp [0, 0] SrvTask] sample_started)
    (\<lambda>B. bs_pc B = Tested \<and> bs_set B < srv_done (bs_tcp B))"
  unfolding wp_case by code_simp


theorem ServerBase_Stop_lost_wakeup_witness:
  "\<exists>B :: nat base_server. reachable (base_init run_env run_kernel) base_enabled (base_do run_env run_kernel run_ntop) B \<and>
     wp (run_steps base_enabled (base_do run_env run_kernel run_ntop) [CbStore, CbNotify, StopSleep] B) (\<lambda>B'. sb_stopped (bs_base B') \<and>
       srv_status (bs_tcp B') = kStopped \<and> (\<forall>ops B''. StopSpurious \<notin> set ops \<and>
         run_steps base_enabled (base_do run_env run_kernel run_ntop) ops B' = Some B'' \<longrightarrow> bs_pc B'' = Sleeping))"
proof -
  obtain B :: "nat base_server" where r: "reachable (base_init run_env run_kernel) base_enabled (base_do run_env run_kernel run_ntop) B"
    and B: "bs_pc B = Tested" "bs_set B < srv_done (bs_tcp B)"
    using wp_run_steps_reachable [where init = "base_init run_env run_kernel", OF sample_tested_run sample_init] by blast
  from ServerBase_Stop_lost_wakeup [OF r B] r show ?thesis by blast
qed

theorem ServerBase_Stop_in_loop_blocks_witness:
  "\<exists>B B1 B2 :: nat base_server. srv_connections (bs_tcp B) \<noteq> [] \<and>
     base_do run_env run_kernel run_ntop (BaseStop [0, 0] True) B = Some B1 \<and>
     run_steps base_enabled (base_do run_env run_kernel run_ntop) [StopLock, StopTest, StopSleep] B1 = Some B2 \<and>
     bs_pc B2 \<noteq> Returned \<and> \<not> sb_stopped (bs_base B2) \<and> srv_status (bs_tcp B2) \<noteq> kStopped"
proof -
  obtain B :: "nat base_server" where r: "reachable (base_init run_env run_kernel) base_enabled (base_do run_env run_kernel run_ntop) B"
    and B: "base_enabled (BaseStop [0, 0] True) B" "srv_connections (bs_tcp B) \<noteq> []"
    using wp_run_steps_reachable [where init = "base_init run_env run_kernel", OF sample_accepted_run sample_init] by blast
  have i: "base_inv run_env run_kernel B" by (rule base.reachable_inv [OF r])
  obtain B1 where B1: "base_do run_env run_kernel run_ntop (BaseStop [0, 0] True) B = Some B1" "base_inv run_env run_kernel B1"
    using base_step_inv [OF i B(1), of run_ntop] by (auto simp: wp_def)
  have pc: "bs_pc B1 = Called" using B1(1) by (auto simp: ServerBase_Stop_def split: bind_splits)
  have "bs_pc B1 \<noteq> Returned \<and> \<not> sb_stopped (bs_base B1) \<and> srv_status (bs_tcp B1) \<noteq> kStopped"
    by (rule ServerBase_Stop_in_loop_blocks [OF r B B1(1), of "[]"]) simp
  then have "srv_done (bs_tcp B1) = 0" "bs_notified B1 = 0" "\<not> sb_stopped (bs_base B1)"
    using B1(2) srv_inv_done [of run_env "bs_tcp B1"] by (auto simp: base_inv_def)
  then obtain B2 where "run_steps base_enabled (base_do run_env run_kernel run_ntop) [StopLock, StopTest, StopSleep] B1 = Some B2"
    using pc by (auto simp: stop_test_def)
  with ServerBase_Stop_in_loop_blocks [OF r B B1(1) this] B(2) B1(1) show ?thesis by blast
qed

end
