(* ===== verification/ChannelPool.thy ===== *)
theory ChannelPool
  imports Packet StdMap
begin

text \<open>
  Channels (\<open>common/net/channel.h\<close>, \<open>channel.cc\<close>) and the channel pool
  (\<open>common/net/channelpool.h\<close>, \<open>channelpool.cc\<close>): every request a client session sends gets a
  channel, found again by its identifier when the reply arrives or collected when it expires.

  The pool owns its channels: they are allocated in clusters of 25 and released only with the
  pool, so the memory of the channels is the total function \<open>cells\<close>, with the addresses below
  \<open>cells_end\<close> allocated. A null pointer is \<open>None\<close>, and following one is a fault. Every operation
  runs under the pool's mutex, so that it is one atomic step. The static counters, shared by
  all pools, are the record \<open>channel_globals\<close>.
\<close>

unbundle bit_operations_syntax

section \<open>Channels\<close>

definition QYNET_MAX_TIME :: u64 where
  "QYNET_MAX_TIME = push_bit 62 1"

record channel =
  ch_id :: u32
  ch_args :: "nat option"
  ch_handler :: "nat option"
  ch_expireTime :: u64
  ch_prev :: "chptr option"
  ch_next :: "chptr option"

text \<open>
  The constructor leaves \<open>id_\<close>, \<open>args_\<close> and \<open>handler_\<close> as the memory has them.
\<close>

definition Channel_new :: "channel \<Rightarrow> channel" where
  "Channel_new c = c\<lparr> ch_prev := None, ch_next := None, ch_expireTime := 0 \<rparr>"

definition Channel_SetId :: "channel \<Rightarrow> u32 \<Rightarrow> channel" where
  "Channel_SetId c i = c\<lparr> ch_id := i \<rparr>"

definition Channel_GetId :: "channel \<Rightarrow> u32" where
  "Channel_GetId c = ch_id c"

definition Channel_SetArgs :: "channel \<Rightarrow> nat option \<Rightarrow> channel" where
  "Channel_SetArgs c a = c\<lparr> ch_args := a \<rparr>"

definition Channel_GetArgs :: "channel \<Rightarrow> nat option" where
  "Channel_GetArgs c = ch_args c"

definition Channel_SetHandler :: "channel \<Rightarrow> nat option \<Rightarrow> channel" where
  "Channel_SetHandler c h = c\<lparr> ch_handler := h \<rparr>"

definition Channel_GetHandler :: "channel \<Rightarrow> nat option" where
  "Channel_GetHandler c = ch_handler c"

definition Channel_SetExpireTime :: "channel \<Rightarrow> u64 \<Rightarrow> channel" where
  "Channel_SetExpireTime c t = c\<lparr> ch_expireTime := t \<rparr>"

definition Channel_GetExpireTime :: "channel \<Rightarrow> u64" where
  "Channel_GetExpireTime c = ch_expireTime c"

definition Channel_GetNext :: "channel \<Rightarrow> chptr option" where
  "Channel_GetNext c = ch_next c"

section \<open>The pool\<close>

definition CHANNEL_CLUSTER_SIZE :: nat where
  "CHANNEL_CLUSTER_SIZE = 25"

record channel_globals =
  globalChannelId :: u32
  globalTotalCount :: u32

definition globals_init :: channel_globals where
  "globals_init = \<lparr> globalChannelId = 1, globalTotalCount = 0 \<rparr>"

record channel_pool =
  useMap :: "(u32, chptr) stdmap"
  clusterList :: "chptr list"
  freeListHead :: "chptr option"
  freeListTail :: "chptr option"
  useListHead :: "chptr option"
  useListTail :: "chptr option"
  maxUseCount :: u32
  cells :: "chptr \<Rightarrow> channel"
  cells_end :: nat

definition ChannelPool_new :: "(chptr \<Rightarrow> channel) \<Rightarrow> channel_pool" where
  "ChannelPool_new memory =
     \<lparr> useMap = [], clusterList = [], freeListHead = None, freeListTail = None,
       useListHead = None, useListTail = None, maxUseCount = 0,
       cells = memory, cells_end = 0 \<rparr>"

text \<open>\<open>p->field = v\<close> for a pointer that may be null; \<open>at\<close> for one that is not.\<close>

definition at :: "chptr \<Rightarrow> (channel \<Rightarrow> channel) \<Rightarrow> channel_pool \<Rightarrow> channel_pool" where
  "at c f P = P\<lparr> cells := (cells P)(c := f (cells P c)) \<rparr>"

definition at_ptr :: "chptr option \<Rightarrow> (channel \<Rightarrow> channel) \<Rightarrow> channel_pool \<Rightarrow> channel_pool option" where
  "at_ptr p f P = (case p of None \<Rightarrow> None | Some c \<Rightarrow> Some (at c f P))"

text \<open>\<open>new Channel[CHANNEL_CLUSTER_SIZE]\<close>.\<close>

definition new_cluster :: "channel_pool \<Rightarrow> chptr \<times> channel_pool" where
  "new_cluster P =
     (let b = cells_end P
      in (b, P\<lparr> cells := (\<lambda>a. if b \<le> a \<and> a < b + CHANNEL_CLUSTER_SIZE
                               then Channel_new (cells P a) else cells P a),
                cells_end := b + CHANNEL_CLUSTER_SIZE \<rparr>))"

text \<open>The loop body that chains \<open>channelCluster[i]\<close> behind the free list.\<close>

definition chain_channel :: "chptr \<Rightarrow> channel_pool \<Rightarrow> nat \<Rightarrow> channel_pool option" where
  "chain_channel b P i = do {
     P \<leftarrow> at_ptr (freeListTail P) (ch_next_update (\<lambda>_. Some (b + i))) P;
     let P = at (b + i) (ch_prev_update (\<lambda>_. freeListTail P)) P;
     t \<leftarrow> freeListTail P;
     Some (P\<lparr> freeListTail := ch_next (cells P t) \<rparr>) }"

definition take_free :: "channel_globals \<Rightarrow> channel_pool \<Rightarrow>
    (chptr \<times> channel_globals \<times> channel_pool) option" where
  "take_free G P =
     (case freeListHead P of
        None \<Rightarrow> do {
          assert_that (CHANNEL_CLUSTER_SIZE > 2);
          let (b, P) = new_cluster P;
          let G = G\<lparr> globalTotalCount := globalTotalCount G + of_nat CHANNEL_CLUSTER_SIZE \<rparr>;
          let P = P\<lparr> clusterList := clusterList P @ [b],
                     freeListHead := Some (b + 1), freeListTail := Some (b + 1) \<rparr>;
          P \<leftarrow> foldM (chain_channel b) P [2..<CHANNEL_CLUSTER_SIZE];
          P \<leftarrow> at_ptr (freeListHead P) (ch_prev_update (\<lambda>_. None)) P;
          P \<leftarrow> at_ptr (freeListTail P) (ch_next_update (\<lambda>_. None)) P;
          Some (b, G, P) }
      | Some channel \<Rightarrow>
          (let P = P\<lparr> freeListHead := ch_next (cells P channel) \<rparr>
           in case freeListHead P of
                Some h \<Rightarrow> Some (channel, G, at h (ch_prev_update (\<lambda>_. None)) P)
              | None \<Rightarrow> Some (channel, G, P\<lparr> freeListTail := None \<rparr>)))"

text \<open>Putting a channel at the end of the use list.\<close>

definition link_use :: "chptr \<Rightarrow> channel_pool \<Rightarrow> channel_pool" where
  "link_use channel P =
     (let P = at channel (\<lambda>c. c\<lparr> ch_prev := useListTail P, ch_next := None,
                                 ch_expireTime := QYNET_MAX_TIME + 1 \<rparr>) P;
          P = (case useListTail P of
                 None \<Rightarrow> P\<lparr> useListHead := Some channel \<rparr>
               | Some t \<Rightarrow> at t (ch_next_update (\<lambda>_. Some channel)) P)
      in P\<lparr> useListTail := Some channel \<rparr>)"

definition next_id :: "channel_globals \<Rightarrow> u32 \<times> channel_globals" where
  "next_id G =
     (let i = globalChannelId G; G = G\<lparr> globalChannelId := i + 1 \<rparr>; i = i AND 0x0FFFFFFF
      in if i = 0 then (1, G\<lparr> globalChannelId := 1 \<rparr>) else (i, G))"

definition ChannelPool_AllocChannel :: "channel_globals \<Rightarrow> channel_pool \<Rightarrow>
    (chptr \<times> channel_globals \<times> channel_pool) option" where
  "ChannelPool_AllocChannel G P = do {
     (channel, G, P) \<leftarrow> take_free G P;
     let P = link_use channel P;
     let (i, G) = next_id G;
     let P = at channel (\<lambda>c. c\<lparr> ch_id := i, ch_handler := None, ch_args := None \<rparr>) P;
     let P = P\<lparr> useMap := map_set (useMap P) i channel \<rparr>;
     let P = (if sint (maxUseCount P) < int (length (useMap P))
              then P\<lparr> maxUseCount := of_nat (length (useMap P)) \<rparr> else P);
     Some (channel, G, P) }"

text \<open>Taking a channel out of the use list, as \<open>FreeChannel\<close> and \<open>OfferChannel\<close> both do.\<close>

definition unlink_use :: "chptr \<Rightarrow> channel_pool \<Rightarrow> channel_pool" where
  "unlink_use channel P =
     (let P = (if Some channel = useListHead P
               then P\<lparr> useListHead := ch_next (cells P channel) \<rparr> else P);
          P = (if Some channel = useListTail P
               then P\<lparr> useListTail := ch_prev (cells P channel) \<rparr> else P);
          P = (case ch_prev (cells P channel) of
                 Some p \<Rightarrow> at p (ch_next_update (\<lambda>_. ch_next (cells P channel))) P
               | None \<Rightarrow> P)
      in case ch_next (cells P channel) of
           Some n \<Rightarrow> at n (ch_prev_update (\<lambda>_. ch_prev (cells P channel))) P
         | None \<Rightarrow> P)"

text \<open>Putting a channel at the end of the free list and clearing it.\<close>

definition link_free :: "chptr \<Rightarrow> channel_pool \<Rightarrow> channel_pool" where
  "link_free channel P =
     (let P = at channel (\<lambda>c. c\<lparr> ch_prev := freeListTail P, ch_next := None \<rparr>) P;
          P = (case freeListTail P of
                 None \<Rightarrow> P\<lparr> freeListHead := Some channel \<rparr>
               | Some t \<Rightarrow> at t (ch_next_update (\<lambda>_. Some channel)) P);
          P = P\<lparr> freeListTail := Some channel \<rparr>
      in at channel (\<lambda>c. c\<lparr> ch_id := 0, ch_handler := None, ch_args := None \<rparr>) P)"

definition ChannelPool_FreeChannel :: "channel_pool \<Rightarrow> chptr option \<Rightarrow> bool \<times> channel_pool" where
  "ChannelPool_FreeChannel P channel =
     (case channel of
        None \<Rightarrow> (False, P)
      | Some c \<Rightarrow>
          (case map_find (useMap P) (ch_id (cells P c)) of
             None \<Rightarrow> (False, P)
           | Some it \<Rightarrow>
               (let P = P\<lparr> useMap := map_erase (useMap P) (ch_id (cells P c)) \<rparr>
                in (True, link_free c (unlink_use c P)))))"

definition ChannelPool_AppendChannel :: "channel_pool \<Rightarrow> chptr option \<Rightarrow> (bool \<times> channel_pool) option" where
  "ChannelPool_AppendChannel P channel =
     (case channel of None \<Rightarrow> None | Some c \<Rightarrow> Some (True, link_free c P))"

definition ChannelPool_OfferChannel :: "channel_pool \<Rightarrow> u32 \<Rightarrow> chptr option \<times> channel_pool" where
  "ChannelPool_OfferChannel P i =
     (case map_find (useMap P) i of
        None \<Rightarrow> (None, P)
      | Some c \<Rightarrow>
          (let P = unlink_use c (P\<lparr> useMap := map_erase (useMap P) i \<rparr>)
           in (Some c, at c (\<lambda>c. c\<lparr> ch_prev := None, ch_next := None \<rparr>) P)))"

partial_function (option) ChannelPool_timeout_loop ::
    "u64 \<Rightarrow> channel_pool \<Rightarrow> chptr option \<Rightarrow> (chptr option \<times> channel_pool) option" where
  "ChannelPool_timeout_loop now P channel =
     (case channel of
        None \<Rightarrow> Some (None, P)
      | Some c \<Rightarrow>
          (if sint now \<le> sint (ch_expireTime (cells P c)) then Some (channel, P)
           else ChannelPool_timeout_loop now
                  (P\<lparr> useMap := map_erase (useMap P) (ch_id (cells P c)) \<rparr>)
                  (ch_next (cells P c))))"

definition ChannelPool_GetTimeoutList :: "channel_pool \<Rightarrow> u64 \<Rightarrow> (chptr option \<times> channel_pool) option" where
  "ChannelPool_GetTimeoutList P now =
     (if useListHead P = None then Some (None, P)
      else do {
        (channel, P) \<leftarrow> ChannelPool_timeout_loop now P (useListHead P);
        if channel \<noteq> useListHead P then
          (let list = useListHead P
           in case channel of
                None \<Rightarrow> Some (list, P\<lparr> useListHead := None, useListTail := None \<rparr>)
              | Some c \<Rightarrow>
                  (let P = (case ch_prev (cells P c) of
                              Some p \<Rightarrow> at p (ch_next_update (\<lambda>_. None)) P
                            | None \<Rightarrow> P);
                       P = at c (ch_prev_update (\<lambda>_. None)) P
                   in Some (list, P\<lparr> useListHead := channel \<rparr>)))
        else Some (None, P) })"

partial_function (option) ChannelPool_clear_loop ::
    "channel_pool \<Rightarrow> chptr option \<Rightarrow> (chptr option \<times> channel_pool) option" where
  "ChannelPool_clear_loop P tail =
     (case tail of
        None \<Rightarrow> Some (None, P)
      | Some c \<Rightarrow>
          (let P = at c (\<lambda>c. c\<lparr> ch_id := 0, ch_handler := None, ch_args := None \<rparr>) P
           in ChannelPool_clear_loop P (ch_next (cells P c))))"

text \<open>
  The \<open>do\<close> loop runs until \<open>tail\<close> is null, so \<open>freeListTail_ = tail\<close> stores a null pointer.
\<close>

definition ChannelPool_AppendFreeList :: "channel_pool \<Rightarrow> chptr option \<Rightarrow> (bool \<times> channel_pool) option" where
  "ChannelPool_AppendFreeList P addList =
     (case addList of
        None \<Rightarrow> Some (True, P)
      | Some a \<Rightarrow> do {
          (tail, P) \<leftarrow> ChannelPool_clear_loop P (Some a);
          let P = at a (ch_prev_update (\<lambda>_. freeListTail P)) P;
          let P = (case freeListTail P of
                     None \<Rightarrow> P\<lparr> freeListHead := addList \<rparr>
                   | Some t \<Rightarrow> at t (ch_next_update (\<lambda>_. addList)) P);
          Some (True, P\<lparr> freeListTail := tail \<rparr>) })"

definition ChannelPool_SetExpireTime :: "channel_pool \<Rightarrow> chptr option \<Rightarrow> u64 \<Rightarrow> channel_pool" where
  "ChannelPool_SetExpireTime P channel now =
     (case channel of None \<Rightarrow> P | Some c \<Rightarrow> at c (ch_expireTime_update (\<lambda>_. now)) P)"

definition ChannelPool_GetUseListCount :: "channel_pool \<Rightarrow> u32" where
  "ChannelPool_GetUseListCount P = of_nat (length (useMap P))"

section \<open>Lists of channels\<close>

fun clseg :: "(chptr \<Rightarrow> channel) \<Rightarrow> chptr option \<Rightarrow> chptr list \<Rightarrow> chptr option \<Rightarrow> bool" where
  "clseg c p [] r \<longleftrightarrow> p = r"
| "clseg c p (a # as) r \<longleftrightarrow> p = Some a \<and> clseg c (ch_next (c a)) as r"

fun dll :: "(chptr \<Rightarrow> channel) \<Rightarrow> chptr option \<Rightarrow> chptr option \<Rightarrow> chptr list \<Rightarrow> chptr option \<Rightarrow> bool" where
  "dll c pr p [] r \<longleftrightarrow> p = r"
| "dll c pr p (a # as) r \<longleftrightarrow> p = Some a \<and> ch_prev (c a) = pr \<and> dll c (Some a) (ch_next (c a)) as r"

definition last_opt :: "'a list \<Rightarrow> 'a option" where
  "last_opt as = (if as = [] then None else Some (last as))"

lemma last_opt_simps [simp]:
  "last_opt [] = None" "last_opt (as @ [a]) = Some a" "last_opt as = None \<longleftrightarrow> as = []"
  by (simp_all add: last_opt_def)

lemma last_opt_Some: "last_opt as = Some a \<longleftrightarrow> (\<exists>xs. as = xs @ [a])"
  by (cases as rule: rev_cases) auto

lemma clseg_append: "clseg c p (as @ bs) r \<longleftrightarrow> (\<exists>m. clseg c p as m \<and> clseg c m bs r)"
  by (induction as arbitrary: p) auto

lemma dll_append:
  "dll c pr p (as @ bs) r \<longleftrightarrow>
     (\<exists>m. dll c pr p as m \<and> dll c (if as = [] then pr else Some (last as)) m bs r)"
  by (induction as arbitrary: pr p) auto

lemma dll_clseg: "dll c pr p as r \<Longrightarrow> clseg c p as r"
  by (induction as arbitrary: pr p) auto

lemma clseg_cong:
  "(\<And>a. a \<in> set as \<Longrightarrow> ch_next (c' a) = ch_next (c a)) \<Longrightarrow> clseg c' p as r = clseg c p as r"
  by (induction as arbitrary: p) auto

lemma dll_cong:
  "(\<And>a. a \<in> set as \<Longrightarrow> ch_next (c' a) = ch_next (c a) \<and> ch_prev (c' a) = ch_prev (c a)) \<Longrightarrow>
     dll c' pr p as r = dll c pr p as r"
  by (induction as arbitrary: pr p) auto

lemma clseg_frame [simp]: "a \<notin> set as \<Longrightarrow> clseg (c(a := x)) p as r = clseg c p as r"
  by (rule clseg_cong) auto

lemma dll_frame [simp]: "a \<notin> set as \<Longrightarrow> dll (c(a := x)) pr p as r = dll c pr p as r"
  by (rule dll_cong) auto

lemma clseg_None [simp]: "clseg c None as None \<longleftrightarrow> as = []"
  by (cases as) auto

lemma dll_None [simp]: "dll c pr None as None \<longleftrightarrow> as = []"
  by (cases as) auto

lemma clseg_upt:
  assumes "m \<le> n" and "\<And>a. m \<le> a \<Longrightarrow> a < n \<Longrightarrow> ch_next (c a) = (if Suc a < n then Some (Suc a) else None)"
  shows "clseg c (if m < n then Some m else None) [m..<n] None"
  using assms
proof (induction "n - m" arbitrary: m)
  case (Suc k)
  then have "clseg c (if Suc m < n then Some (Suc m) else None) [Suc m..<n] None"
    by (intro Suc.hyps) auto
  with Suc show ?case by (auto simp: upt_conv_Cons)
qed simp

section \<open>The invariant\<close>

text \<open>
  \<open>pool_inv P us fs\<close>: the use list is the doubly linked list \<open>us\<close>, the channels reachable from
  the head of the free list are \<open>fs\<close>, no channel is in both or twice in one, and the map finds
  exactly the channels of the use list under their identifiers. The free list's tail pointer is
  its last channel or null.
\<close>

definition pool_inv :: "channel_pool \<Rightarrow> chptr list \<Rightarrow> chptr list \<Rightarrow> bool" where
  "pool_inv P us fs \<longleftrightarrow>
     dll (cells P) None (useListHead P) us None \<and> useListTail P = last_opt us \<and>
     clseg (cells P) (freeListHead P) fs None \<and>
     (freeListTail P = None \<or> freeListTail P = last_opt fs) \<and>
     distinct (us @ fs) \<and> (\<forall>a \<in> set us. a < cells_end P) \<and>
     (\<forall>a \<in> set fs. a < cells_end P) \<and> map_ok (useMap P) \<and>
     (\<forall>k a. map_find (useMap P) k = Some a \<longleftrightarrow> a \<in> set us \<and> ch_id (cells P a) = k)"

lemma pool_inv_new: "pool_inv (ChannelPool_new m) [] []"
  by (simp add: pool_inv_def ChannelPool_new_def)

lemma pool_invD:
  assumes "pool_inv P us fs"
  shows "dll (cells P) None (useListHead P) us None" and "useListTail P = last_opt us"
    and "clseg (cells P) (freeListHead P) fs None"
    and "freeListTail P = None \<or> freeListTail P = last_opt fs"
    and "distinct us" and "distinct fs" and "set us \<inter> set fs = {}"
    and "\<And>a. a \<in> set us \<Longrightarrow> a < cells_end P" and "\<And>a. a \<in> set fs \<Longrightarrow> a < cells_end P"
    and "map_ok (useMap P)"
    and "map_find (useMap P) k = Some a \<longleftrightarrow> a \<in> set us \<and> ch_id (cells P a) = k"
  using assms unfolding pool_inv_def by simp_all

lemma pool_invI:
  assumes "dll (cells P) None (useListHead P) us None" and "useListTail P = last_opt us"
    and "clseg (cells P) (freeListHead P) fs None"
    and "freeListTail P = None \<or> freeListTail P = last_opt fs"
    and "distinct us" and "distinct fs" and "set us \<inter> set fs = {}"
    and "\<And>a. a \<in> set us \<Longrightarrow> a < cells_end P" and "\<And>a. a \<in> set fs \<Longrightarrow> a < cells_end P"
    and "map_ok (useMap P)"
    and "\<And>k a. map_find (useMap P) k = Some a \<longleftrightarrow> a \<in> set us \<and> ch_id (cells P a) = k"
  shows "pool_inv P us fs"
  unfolding pool_inv_def distinct_append by (intro conjI ballI allI assms)

lemma pool_id_inj:
  assumes "pool_inv P us fs" and "a \<in> set us" and "b \<in> set us"
    and "ch_id (cells P a) = ch_id (cells P b)"
  shows "a = b"
proof -
  note find = iffD2 [OF pool_invD(11) [OF assms(1)], OF conjI [OF _ refl]]
  from trans [OF sym [OF find [OF assms(2), unfolded assms(4)]] find [OF assms(3)]]
  show ?thesis by (rule option.inject [THEN iffD1])
qed

definition payload :: "channel \<Rightarrow> u32 \<times> nat option \<times> nat option \<times> u64" where
  "payload c = (ch_id c, ch_args c, ch_handler c, ch_expireTime c)"

lemma payload_links [simp]:
  "payload (c\<lparr> ch_prev := p \<rparr>) = payload c" "payload (c\<lparr> ch_next := p \<rparr>) = payload c"
  by (simp_all add: payload_def)

lemma at_simps [simp]:
  "useMap (at c f P) = useMap P" "clusterList (at c f P) = clusterList P"
  "freeListHead (at c f P) = freeListHead P" "freeListTail (at c f P) = freeListTail P"
  "useListHead (at c f P) = useListHead P" "useListTail (at c f P) = useListTail P"
  "maxUseCount (at c f P) = maxUseCount P" "cells_end (at c f P) = cells_end P"
  "cells (at c f P) = (cells P)(c := f (cells P c))"
  by (simp_all add: at_def)

text \<open>The links of a cluster after the loop has chained the channels up to \<open>n\<close>.\<close>

definition linked :: "chptr \<Rightarrow> nat \<Rightarrow> (chptr \<Rightarrow> channel) \<Rightarrow> chptr \<Rightarrow> channel" where
  "linked b n c a =
     (if b < a \<and> a < b + n
      then (c a)\<lparr> ch_prev := if a = Suc b then ch_prev (c a) else Some (a - 1),
                  ch_next := if Suc a < b + n then Some (Suc a) else ch_next (c a) \<rparr>
      else c a)"

lemma linked_2: "linked b 2 c = c"
  by (auto simp: fun_eq_iff linked_def)

lemma linked_Suc:
  assumes "2 \<le> n" and "t = b + n - 1"
  shows "linked b (Suc n) c =
    (linked b n c)(t := (linked b n c t)\<lparr> ch_next := Some (b + n) \<rparr>,
                   b + n := (linked b n c (b + n))\<lparr> ch_prev := Some t \<rparr>)"
proof
  fix a
  consider "a = b + n" | "a = t" | "a \<noteq> b + n" "a \<noteq> t" by blast
  then show "linked b (Suc n) c a = ((linked b n c)(t := (linked b n c t)\<lparr> ch_next := Some (b + n) \<rparr>,
                   b + n := (linked b n c (b + n))\<lparr> ch_prev := Some t \<rparr>)) a"
    using assms by cases (auto simp: linked_def)
qed

lemma chain_cluster:
  assumes "2 \<le> n" and "freeListTail P = Some (b + 1)"
  shows "foldM (chain_channel b) P [2..<n] =
           Some (P\<lparr> freeListTail := Some (b + n - 1), cells := linked b n (cells P) \<rparr>)"
  using assms(1)
proof (induction n rule: dec_induct)
  case base
  then show ?case using assms(2) by (simp add: linked_2)
next
  case (step n)
  define t where "t = b + n - 1"
  have up: "[2..<Suc n] = [2..<n] @ [n]" and ne: "b + n \<noteq> t" and S: "b + Suc n - 1 = b + n"
    using step(1) by (simp_all add: t_def)
  have "linked b (Suc n) (cells P) t = (linked b n (cells P) t)\<lparr> ch_next := Some (b + n) \<rparr>"
    using ne by (simp add: linked_Suc [OF step(1) t_def])
  then show ?case
    unfolding up foldM_append step.IH t_def [symmetric] S linked_Suc [OF step(1) t_def]
    using ne by (simp add: chain_channel_def at_ptr_def at_def Let_def)
      (auto simp: fun_eq_iff intro!: channel_pool.equality)
qed

lemma take_free_inv:
  assumes inv: "pool_inv P us fs"
  shows "wp (take_free G P) (\<lambda>(c, G', P'). \<exists>fs'. pool_inv P' us fs' \<and> c \<notin> set us \<and> c \<notin> set fs' \<and>
           c < cells_end P' \<and> globalChannelId G' = globalChannelId G \<and>
           (c \<in> set fs \<or> cells_end P \<le> c) \<and> set fs' \<subseteq> set fs \<union> {cells_end P..<cells_end P'} \<and>
           cells_end P \<le> cells_end P' \<and> useMap P' = useMap P \<and> maxUseCount P' = maxUseCount P \<and>
           (\<forall>a. a \<notin> set fs \<and> a < cells_end P \<longrightarrow> cells P' a = cells P a))"
proof (cases fs)
  case Nil
  define b n where "b = cells_end P" and "n = CHANNEL_CLUSTER_SIZE"
  have h: "freeListHead P = None" and n: "2 < n"
    using inv Nil by (simp_all add: pool_inv_def n_def CHANNEL_CLUSTER_SIZE_def)
  have u: "\<forall>a \<in> set us. a < b" using inv by (auto simp: pool_inv_def b_def)
  define c where "c = (\<lambda>a. if b \<le> a \<and> a < b + n then Channel_new (cells P a) else cells P a)"
  define c' where "c' = (linked b n c)
    (b + 1 := (linked b n c (b + 1))\<lparr> ch_prev := None \<rparr>,
     b + n - 1 := (linked b n c (b + n - 1))\<lparr> ch_next := None \<rparr>)"
  define P' where "P' = P\<lparr> clusterList := clusterList P @ [b], freeListHead := Some (b + 1),
    freeListTail := Some (b + n - 1), cells := c', cells_end := b + n \<rparr>"
  have t: "take_free G P =
      Some (b, G\<lparr> globalTotalCount := globalTotalCount G + of_nat n \<rparr>, P')"
    using h n unfolding take_free_def n_def [symmetric] P'_def
    by (simp add: new_cluster_def Let_def chain_cluster b_def at_ptr_def at_def c_def c'_def
        n_def [symmetric])
  have same: "c' a = cells P a" if "a < b" for a
    using that n by (simp add: c'_def linked_def c_def)
  have nx: "ch_next (c' a) = (if Suc a < b + n then Some (Suc a) else None)"
    if "b + 1 \<le> a" "a < b + n" for a
    using that n by (auto simp: c'_def linked_def c_def)
  have "clseg c' (if b + 1 < b + n then Some (b + 1) else None) [b + 1..<b + n] None"
    by (rule clseg_upt) (use nx n in auto)
  moreover have "dll c' None (useListHead P) us None"
    using inv u same by (subst dll_cong [where c = "cells P"]) (auto simp: pool_inv_def)
  moreover have "last_opt [b + 1..<b + n] = Some (b + n - 1)" using n by (simp add: last_opt_def)
  ultimately have "pool_inv P' us [b + 1..<b + n]"
    using inv u same Nil n by (auto simp: pool_inv_def P'_def)
  then show ?thesis
    unfolding t using u same n Nil
    by (auto simp: b_def P'_def intro!: exI [of _ "[Suc b..<b + n]"])
next
  case (Cons c rest)
  then have h: "freeListHead P = Some c" "c \<notin> set us" "c \<notin> set rest" "c < cells_end P"
      "clseg (cells P) (ch_next (cells P c)) rest None"
    using inv by (auto simp: pool_inv_def)
  have tail: "freeListTail P = None \<or> freeListTail P = last_opt (c # rest)"
    using inv Cons by (auto simp: pool_inv_def)
  show ?thesis
  proof (cases rest)
    case Nil
    then show ?thesis using h inv Cons
      by (auto simp: take_free_def Let_def pool_inv_def intro!: exI [of _ "[]"])
  next
    case (Cons d ds)
    have "last_opt (c # rest) = last_opt rest" using Cons by (simp add: last_opt_def)
    moreover have "clseg ((cells P)(d := (cells P d)\<lparr> ch_prev := None \<rparr>)) (Some d) rest None"
      using h(5) Cons by (subst clseg_cong [where c = "cells P"]) auto
    moreover have "dll ((cells P)(d := (cells P d)\<lparr> ch_prev := None \<rparr>)) None (useListHead P) us None"
      using inv Cons \<open>fs = c # rest\<close> by (auto simp: pool_inv_def)
    ultimately show ?thesis using h inv Cons \<open>fs = c # rest\<close> tail
      by (auto simp: take_free_def Let_def pool_inv_def intro!: exI [of _ "rest"])
  qed
qed


text \<open>Taking a channel out of the use list.\<close>

lemma unlink_use_fields [simp]:
  "useMap (unlink_use a P) = useMap P" "freeListHead (unlink_use a P) = freeListHead P"
  "freeListTail (unlink_use a P) = freeListTail P" "cells_end (unlink_use a P) = cells_end P"
  "maxUseCount (unlink_use a P) = maxUseCount P" "clusterList (unlink_use a P) = clusterList P"
  by (simp_all add: unlink_use_def Let_def split: option.splits)

lemma unlink_use_payload [simp]: "payload (cells (unlink_use a P) b) = payload (cells P b)"
  by (auto simp: unlink_use_def Let_def payload_def split: option.splits)

lemma unlink_use_dll:
  assumes d: "dll (cells P) None (useListHead P) (xs @ a # ys) None"
    and t: "useListTail P = last_opt (xs @ a # ys)" and "distinct (xs @ a # ys)"
  shows "dll (cells (unlink_use a P)) None (useListHead (unlink_use a P)) (xs @ ys) None"
    and "useListTail (unlink_use a P) = last_opt (xs @ ys)"
    and "b \<notin> set (xs @ ys) \<Longrightarrow> cells (unlink_use a P) b = cells P b"
proof -
  have pv: "ch_prev (cells P a) = last_opt xs" and nx: "dll (cells P) (Some a) (ch_next (cells P a)) ys None"
    using d by (auto simp: dll_append last_opt_def)
  have "(dll (cells (unlink_use a P)) None (useListHead (unlink_use a P)) (xs @ ys) None) \<and>
    useListTail (unlink_use a P) = last_opt (xs @ ys) \<and>
    (b \<notin> set (xs @ ys) \<longrightarrow> cells (unlink_use a P) b = cells P b)"
  proof (cases xs rule: rev_cases)
    case Nil
    then show ?thesis using assms pv nx
      by (cases ys) (auto simp: unlink_use_def Let_def dll_append last_opt_def)
  next
    case (snoc xs' x)
    then have "useListHead P \<noteq> Some a"
      using assms by (cases xs') (auto simp: dll_append)
    then show ?thesis using assms pv nx snoc
      by (cases ys) (auto simp: unlink_use_def Let_def dll_append last_opt_def)
  qed
  then show "dll (cells (unlink_use a P)) None (useListHead (unlink_use a P)) (xs @ ys) None"
    "useListTail (unlink_use a P) = last_opt (xs @ ys)"
    "b \<notin> set (xs @ ys) \<Longrightarrow> cells (unlink_use a P) b = cells P b" by simp_all
qed


lemma link_free_simps [simp]:
  "useMap (link_free a P) = useMap P" "useListHead (link_free a P) = useListHead P"
  "useListTail (link_free a P) = useListTail P" "cells_end (link_free a P) = cells_end P"
  "maxUseCount (link_free a P) = maxUseCount P" "clusterList (link_free a P) = clusterList P"
  "freeListTail (link_free a P) = Some a"
  by (simp_all add: link_free_def Let_def split: option.splits)

text \<open>
  A channel that is in neither list goes to the end of the free list. When the tail pointer is
  null, the list starts anew with it.
\<close>

lemma link_free_inv:
  assumes inv: "pool_inv P us fs" and a: "a \<notin> set us" "a \<notin> set fs" "a < cells_end P"
  shows "pool_inv (link_free a P) us (if freeListTail P = None then [a] else fs @ [a])"
    and "\<And>b. b \<notin> set fs \<Longrightarrow> b \<noteq> a \<Longrightarrow> cells (link_free a P) b = cells P b"
proof -
  have "pool_inv (link_free a P) us (if freeListTail P = None then [a] else fs @ [a]) \<and>
    (\<forall>b. b \<notin> set fs \<longrightarrow> b \<noteq> a \<longrightarrow> cells (link_free a P) b = cells P b)"
  proof (cases "freeListTail P")
    case None
    with inv a show ?thesis by (auto simp: link_free_def Let_def pool_inv_def last_opt_def)
  next
    case (Some t)
    with inv have "last_opt fs = Some t" by (simp add: pool_inv_def)
    then obtain fs' where fs: "fs = fs' @ [t]" by (auto simp: last_opt_Some)
    with inv a Some show ?thesis
      by (auto simp: link_free_def Let_def pool_inv_def clseg_append last_opt_def)
  qed
  then show "pool_inv (link_free a P) us (if freeListTail P = None then [a] else fs @ [a])"
    "\<And>b. b \<notin> set fs \<Longrightarrow> b \<noteq> a \<Longrightarrow> cells (link_free a P) b = cells P b" by blast+
qed

lemma payload_eqD: "payload c = payload d \<Longrightarrow> ch_id c = ch_id d"
  by (simp add: payload_def)

lemma unlink_inv:
  assumes inv: "pool_inv P (xs @ a # ys) fs"
  defines "P1 \<equiv> unlink_use a (P\<lparr> useMap := map_erase (useMap P) (ch_id (cells P a)) \<rparr>)"
  shows "pool_inv P1 (xs @ ys) fs"
    and "\<And>b. b \<notin> set (xs @ ys) \<Longrightarrow> cells P1 b = cells P b"
    and "\<And>b. payload (cells P1 b) = payload (cells P b)"
proof -
  let ?P = "P\<lparr> useMap := map_erase (useMap P) (ch_id (cells P a)) \<rparr>"
  have d: "dll (cells ?P) None (useListHead ?P) (xs @ a # ys) None"
      "useListTail ?P = last_opt (xs @ a # ys)" "distinct (xs @ a # ys)"
    using inv by (auto simp: pool_inv_def)
  note un = unlink_use_dll [OF d, folded P1_def]
  have pl: "payload (cells P1 b) = payload (cells P b)" for b by (simp add: P1_def)
  have id: "ch_id (cells P1 b) = ch_id (cells P b)" for b using pl [of b] by (rule payload_eqD)
  have "cells P1 b = cells P b" if "b \<in> set fs" for b
    using inv that un(3) [of b] by (auto simp: pool_inv_def)
  then have fr: "clseg (cells P1) (freeListHead P) fs None"
    using inv by (subst clseg_cong [where c = "cells P"]) (auto simp: pool_inv_def)
  have mp: "map_find (map_erase (useMap P) (ch_id (cells P a))) k = Some b \<longleftrightarrow>
      b \<in> set (xs @ ys) \<and> ch_id (cells P b) = k" for k b
  proof -
    have "ch_id (cells P b) \<noteq> ch_id (cells P a)" if "b \<in> set (xs @ ys)"
      using pool_id_inj [OF inv, of b a] that inv by (auto simp: pool_inv_def)
    with inv show ?thesis by (auto simp: pool_inv_def)
  qed
  show "pool_inv P1 (xs @ ys) fs"
    using inv un(1,2) fr mp unfolding pool_inv_def by (simp add: P1_def [symmetric] id) (simp add: P1_def)
  show "\<And>b. b \<notin> set (xs @ ys) \<Longrightarrow> cells P1 b = cells P b" using un(3) by simp
  show "\<And>b. payload (cells P1 b) = payload (cells P b)" by (rule pl)
qed


lemma link_use_fields [simp]:
  "useMap (link_use a P) = useMap P" "freeListHead (link_use a P) = freeListHead P"
  "freeListTail (link_use a P) = freeListTail P" "cells_end (link_use a P) = cells_end P"
  "maxUseCount (link_use a P) = maxUseCount P" "clusterList (link_use a P) = clusterList P"
  "useListTail (link_use a P) = Some a"
  by (simp_all add: link_use_def Let_def split: option.splits)

lemma link_use_dll:
  assumes "dll (cells P) None (useListHead P) us None" and "useListTail P = last_opt us"
    and "distinct us" and "c \<notin> set us"
  shows "dll (cells (link_use c P)) None (useListHead (link_use c P)) (us @ [c]) None"
    and "cells (link_use c P) c = (cells P c)\<lparr> ch_prev := last_opt us, ch_next := None,
           ch_expireTime := QYNET_MAX_TIME + 1 \<rparr>"
    and "b \<notin> set us \<Longrightarrow> b \<noteq> c \<Longrightarrow> cells (link_use c P) b = cells P b"
    and "b \<noteq> c \<Longrightarrow> payload (cells (link_use c P) b) = payload (cells P b)"
  using assms by (cases us rule: rev_cases; auto simp: link_use_def Let_def dll_append)+

text \<open>The operations of the pool.\<close>

lemma AllocChannel_eq:
  "ChannelPool_AllocChannel G P = do {
     (c, G, P) \<leftarrow> take_free G P;
     let P' = at c (\<lambda>c. c\<lparr> ch_id := fst (next_id G), ch_handler := None, ch_args := None \<rparr>) (link_use c P);
     let m = map_set (useMap P) (fst (next_id G)) c;
     Some (c, snd (next_id G), P'\<lparr> useMap := m,
       maxUseCount := if sint (maxUseCount P) < int (length m) then of_nat (length m)
                      else maxUseCount P \<rparr>) }"
  by (cases "take_free G P")
    (auto simp: ChannelPool_AllocChannel_def Let_def split: prod.splits)

lemma AllocChannel_inv:
  assumes inv: "pool_inv P us fs" and fresh: "map_find (useMap P) (fst (next_id G)) = None"
  shows "wp (ChannelPool_AllocChannel G P) (\<lambda>(c, G', P'). \<exists>fs'.
           pool_inv P' (us @ [c]) fs' \<and> c \<notin> set us \<and> (c \<in> set fs \<or> cells_end P \<le> c) \<and>
           set fs' \<subseteq> set fs \<union> {cells_end P..<cells_end P'} \<and> cells_end P \<le> cells_end P' \<and>
           cells P' c = \<lparr> ch_id = fst (next_id G), ch_args = None, ch_handler = None,
                          ch_expireTime = QYNET_MAX_TIME + 1, ch_prev = last_opt us, ch_next = None \<rparr> \<and>
           useMap P' = map_set (useMap P) (fst (next_id G)) c \<and>
           globalChannelId G' = globalChannelId (snd (next_id G)) \<and>
           (\<forall>a. a \<notin> set us \<and> a \<notin> set fs \<and> a < cells_end P \<longrightarrow> cells P' a = cells P a) \<and>
           (\<forall>a \<in> set us. payload (cells P' a) = payload (cells P a)))"
proof -
  from take_free_inv [OF inv, of G] obtain c G1 P1 fs1 where tf: "take_free G P = Some (c, G1, P1)"
    and 1: "pool_inv P1 us fs1" "c \<notin> set us" "c \<notin> set fs1" "c < cells_end P1"
      "globalChannelId G1 = globalChannelId G" "c \<in> set fs \<or> cells_end P \<le> c"
      "set fs1 \<subseteq> set fs \<union> {cells_end P..<cells_end P1}" "cells_end P \<le> cells_end P1"
      "useMap P1 = useMap P" "\<forall>a. a \<notin> set fs \<and> a < cells_end P \<longrightarrow> cells P1 a = cells P a"
    by (auto elim!: wpE)
  define i where "i = fst (next_id G)"
  have id: "fst (next_id G1) = i" "globalChannelId (snd (next_id G1)) = globalChannelId (snd (next_id G))"
    using 1(5) by (simp_all add: i_def next_id_def Let_def)
  note inv1 = 1(1)[unfolded pool_inv_def]
  have lu: "dll (cells (link_use c P1)) None (useListHead (link_use c P1)) (us @ [c]) None"
    "cells (link_use c P1) c = (cells P1 c)\<lparr> ch_prev := last_opt us, ch_next := None,
           ch_expireTime := QYNET_MAX_TIME + 1 \<rparr>"
    "\<And>b. b \<notin> set us \<Longrightarrow> b \<noteq> c \<Longrightarrow> cells (link_use c P1) b = cells P1 b"
    "\<And>b. b \<noteq> c \<Longrightarrow> payload (cells (link_use c P1) b) = payload (cells P1 b)"
    using inv1 1(2) by (auto intro!: link_use_dll)
  note D = pool_invD [OF inv] and D1 = pool_invD [OF 1(1)]
  let ?L = "link_use c P1"
  let ?C = "(cells ?L)(c := cells ?L c\<lparr> ch_id := i, ch_handler := None, ch_args := None \<rparr>)"
  have same: "cells P1 b = cells P b" if "b \<in> set us" for b
    using 1 that D(7,8) by auto
  have pl: "payload (cells ?L b) = payload (cells P b)" if "b \<in> set us" for b
    using lu(4) [of b] same [OF that] 1(2) that by auto
  have "dll ?C None (useListHead ?L) (us @ [c]) None"
    using lu(1) by (subst dll_cong [where c = "cells ?L"]) auto
  moreover have "?C b = cells P1 b" if "b \<in> set fs1" for b
    using D1(7) 1(3) lu(3) [of b] that by (auto simp: disjoint_iff)
  then have "clseg ?C (freeListHead P1) fs1 None"
    using D1(3) by (subst clseg_cong [where c = "cells P1"]) auto
  moreover have "map_find (map_set (useMap P) i c) k = Some a \<longleftrightarrow> a \<in> set (us @ [c]) \<and> ch_id (?C a) = k" for k a
    using payload_eqD [OF pl, of a] D(11) [of k a] D(11) [of i a] fresh 1(2) by (auto simp: i_def)
  ultimately have "pool_inv (at c (\<lambda>c. c\<lparr> ch_id := i, ch_handler := None, ch_args := None \<rparr>) ?L
      \<lparr> useMap := map_set (useMap P) i c, maxUseCount := m \<rparr>) (us @ [c]) fs1" for m
    using 1 D D1 by (intro pool_invI) auto
  moreover have "cells P1 a = cells P a" "cells ?L a = cells P1 a" if "a \<notin> set us" "a \<notin> set fs" "a < cells_end P" for a
    using 1 that lu(3) [of a] by auto
  ultimately show ?thesis
    unfolding AllocChannel_eq tf by (simp add: Let_def id i_def [symmetric] del: split_paired_Ex)
     (use 1 pl lu(2) in \<open>auto intro!: exI [of _ fs1]\<close>)
qed

lemma FreeChannel_inv:
  assumes inv: "pool_inv P us fs" and a: "a \<in> set us"
  shows "\<exists>P'. ChannelPool_FreeChannel P (Some a) = (True, P') \<and>
     pool_inv P' (remove1 a us) (if freeListTail P = None then [a] else fs @ [a]) \<and>
     map_find (useMap P') = (map_find (useMap P))(ch_id (cells P a) := None) \<and>
     cells_end P' = cells_end P \<and>
     (\<forall>b. b \<notin> set us \<and> b \<notin> set fs \<longrightarrow> cells P' b = cells P b) \<and> 
     (\<forall>b. b \<in> set us \<and> b \<noteq> a \<longrightarrow> payload (cells P' b) = payload (cells P b))"
proof -
  obtain xs ys where us: "us = xs @ a # ys" "a \<notin> set xs" using a by (meson split_list_first)
  have f: "map_find (useMap P) (ch_id (cells P a)) = Some a" and ok: "map_ok (useMap P)"
    and n: "a \<notin> set (xs @ ys)" "a \<notin> set fs" "a < cells_end P"
    using inv us by (auto simp: pool_inv_def)
  let ?P = "unlink_use a (P\<lparr> useMap := map_erase (useMap P) (ch_id (cells P a)) \<rparr>)"
  note un = unlink_inv [OF inv [unfolded us(1)]]
  note lf = link_free_inv [OF un(1), of a]
  have d: "set us \<inter> set fs = {}" using inv by (simp add: pool_inv_def)
  have *: "ChannelPool_FreeChannel P (Some a) = (True, link_free a ?P)"
    by (simp add: ChannelPool_FreeChannel_def f)
  have "payload (cells (link_free a ?P) b) = payload (cells P b)" if "b \<in> set us" "b \<noteq> a" for b
  proof -
    have "b \<notin> set fs" using that d by auto
    then show ?thesis using lf(2) [of b] un(3) [of b] n that by simp
  qed
  then show ?thesis unfolding * using n us un(1,2) lf ok by (auto simp: remove1_append)
qed

lemma OfferChannel_inv:
  assumes inv: "pool_inv P us fs" and a: "a \<in> set us"
  shows "\<exists>P'. ChannelPool_OfferChannel P (ch_id (cells P a)) = (Some a, P') \<and>
     pool_inv P' (remove1 a us) fs \<and> freeListTail P' = freeListTail P \<and>
     map_find (useMap P') = (map_find (useMap P))(ch_id (cells P a) := None) \<and>
     cells_end P' = cells_end P \<and>
     (\<forall>b. payload (cells P' b) = payload (cells P b)) \<and>
     (\<forall>b. b \<notin> set us \<longrightarrow> cells P' b = cells P b)"
proof -
  obtain xs ys where us: "us = xs @ a # ys" "a \<notin> set xs" using a by (meson split_list_first)
  have f: "map_find (useMap P) (ch_id (cells P a)) = Some a" and ok: "map_ok (useMap P)"
    and n: "a \<notin> set (xs @ ys)" "a \<notin> set fs" "a < cells_end P"
    using inv us by (auto simp: pool_inv_def)
  let ?P = "unlink_use a (P\<lparr> useMap := map_erase (useMap P) (ch_id (cells P a)) \<rparr>)"
  let ?P' = "at a (\<lambda>c. c\<lparr> ch_prev := None, ch_next := None \<rparr>) ?P"
  note un = unlink_inv [OF inv [unfolded us(1)]]
  have *: "ChannelPool_OfferChannel P (ch_id (cells P a)) = (Some a, ?P')"
    by (simp add: ChannelPool_OfferChannel_def f)
  have "pool_inv ?P' (xs @ ys) fs"
    using un(1) n by (auto simp: pool_inv_def)
  moreover have "payload (cells ?P' b) = payload (cells P b)" for b
    using un(3) [of b] by (auto simp: payload_def)
  ultimately show ?thesis unfolding * using n us un ok by (auto simp: remove1_append)
qed

text \<open>Channels that have expired at \<open>now\<close>.\<close>

definition ch_expired :: "(chptr \<Rightarrow> channel) \<Rightarrow> u64 \<Rightarrow> chptr \<Rightarrow> bool" where
  "ch_expired c now a \<longleftrightarrow> sint (ch_expireTime (c a)) < sint now"

lemma timeout_loop:
  assumes "clseg (cells P) p ys None"
  shows "ChannelPool_timeout_loop now P p =
           Some (if dropWhile (ch_expired (cells P) now) ys = [] then None
                 else Some (hd (dropWhile (ch_expired (cells P) now) ys)),
                 P\<lparr> useMap := fold (\<lambda>a m. map_erase m (ch_id (cells P a)))
                                (takeWhile (ch_expired (cells P) now) ys) (useMap P) \<rparr>)"
  using assms
proof (induction ys arbitrary: P p)
  case Nil
  then show ?case by (simp add: ChannelPool_timeout_loop.simps)
next
  case (Cons a ys)
  let ?P = "P\<lparr> useMap := map_erase (useMap P) (ch_id (cells P a)) \<rparr>"
  show ?case
  proof (cases "ch_expired (cells P) now a")
    case True
    then show ?thesis
      using Cons.IH [of ?P "ch_next (cells P a)"] Cons.prems
      by (subst ChannelPool_timeout_loop.simps) (simp add: ch_expired_def [of _ _ a])
  next
    case False
    then show ?thesis using Cons.prems
      by (subst ChannelPool_timeout_loop.simps) (simp add: ch_expired_def [of _ _ a])
  qed
qed

lemma find_erase_ids:
  assumes "map_ok m"
  shows "map_ok (fold (\<lambda>a m. map_erase m (f a)) es m)"
    and "map_find (fold (\<lambda>a m. map_erase m (f a)) es m) k =
           (if k \<in> f ` set es then None else map_find m k)"
  using assms by (induction es arbitrary: m) auto

text \<open>Cutting the use list in two.\<close>

lemma cut_dll:
  assumes d: "dll c None p (es @ r # rs) None" and "es \<noteq> []" and "distinct (es @ r # rs)"
  defines "c' \<equiv> c(last es := (c (last es))\<lparr> ch_next := None \<rparr>)"
  defines "c'' \<equiv> c'(r := (c' r)\<lparr> ch_prev := None \<rparr>)"
  shows "clseg c'' p es None" and "dll c'' None (Some r) (r # rs) None" and "ch_prev (c r) = Some (last es)"
    and "payload (c'' a) = payload (c a)" and "a \<notin> set (es @ r # rs) \<Longrightarrow> c'' a = c a"
proof -
  obtain es' e where es: "es = es' @ [e]" using assms(2) by (cases es rule: rev_cases) auto
  have "dll c' None p es None"
    using d assms(3) es by (auto simp: dll_append c'_def)
  then show "clseg c'' p es None"
    using assms(3) by (auto simp: c''_def dest!: dll_clseg)
  show "dll c'' None (Some r) (r # rs) None" "ch_prev (c r) = Some (last es)"
    using d assms(2,3) es by (auto simp: dll_append c''_def c'_def)
  show "payload (c'' a) = payload (c a)" by (auto simp: c''_def c'_def)
  show "a \<notin> set (es @ r # rs) \<Longrightarrow> c'' a = c a" using es by (auto simp: c''_def c'_def)
qed

lemma GetTimeoutList_inv:
  fixes now :: u64
  assumes inv: "pool_inv P us fs"
  defines "es \<equiv> takeWhile (ch_expired (cells P) now) us" and "rs \<equiv> dropWhile (ch_expired (cells P) now) us"
  shows "wp (ChannelPool_GetTimeoutList P now) (\<lambda>(list, P'). pool_inv P' rs fs \<and>
           clseg (cells P') list es None \<and> cells_end P' = cells_end P \<and>
           freeListTail P' = freeListTail P \<and>
           (\<forall>a. payload (cells P' a) = payload (cells P a)) \<and>
           (\<forall>a. a \<notin> set us \<longrightarrow> cells P' a = cells P a))"
proof -
  note D = pool_invD [OF inv]
  have us: "us = es @ rs" by (simp add: es_def rs_def)
  let ?m = "fold (\<lambda>a m. map_erase m (ch_id (cells P a))) es (useMap P)"
  have loop: "ChannelPool_timeout_loop now P (useListHead P) =
      Some (if rs = [] then None else Some (hd rs), P\<lparr> useMap := ?m \<rparr>)"
    using timeout_loop [OF dll_clseg [OF D(1)], of now] by (simp add: es_def rs_def)
  have mp: "map_ok ?m" "map_find ?m k = Some a \<longleftrightarrow> a \<in> set rs \<and> ch_id (cells P a) = k" for k a
  proof -
    have "a \<notin> set es" if "a \<in> set rs" using D(5) us that by auto
    moreover have "k \<notin> (\<lambda>a. ch_id (cells P a)) ` set es" if "a \<in> set rs" "ch_id (cells P a) = k"
      using pool_id_inj [OF inv, of a] that calculation us by fastforce
    ultimately show "map_find ?m k = Some a \<longleftrightarrow> a \<in> set rs \<and> ch_id (cells P a) = k"
      using D(10) D(11) [of k a] us by (auto simp: find_erase_ids)
  qed (rule find_erase_ids(1) [OF D(10)])
  consider "es = []" | "es \<noteq> []" "rs = []" | r rs' where "es \<noteq> []" "rs = r # rs'"
    by (cases rs) auto
  then show ?thesis
  proof cases
    case 1
    then have h: "useListHead P = (if rs = [] then None else Some (hd rs))"
      using D(1) us by (cases rs) auto
    have P: "P\<lparr> useMap := ?m \<rparr> = P" using 1 by simp
    show ?thesis using h inv loop 1 us unfolding P
      by (auto simp: ChannelPool_GetTimeoutList_def)
  next
    case 2
    then have h: "useListHead P \<noteq> None" using D(1) us by (cases es) auto
    have "pool_inv (P\<lparr> useMap := ?m, useListHead := None, useListTail := None \<rparr>) [] fs"
      using mp D 2 by (intro pool_invI) auto
    moreover have "clseg (cells P) (useListHead P) es None" using dll_clseg [OF D(1)] us 2 by simp
    ultimately show ?thesis using h loop 2
      by (auto simp: ChannelPool_GetTimeoutList_def Let_def)
  next
    case 3
    note cut = cut_dll [OF D(1) [unfolded us 3(2)] 3(1)]
    have dist: "distinct (es @ r # rs')" using D(5) us 3 by simp
    note cut = cut [OF dist]
    let ?c' = "(cells P)(last es := (cells P (last es))\<lparr> ch_next := None \<rparr>)"
    let ?c = "?c'(r := (?c' r)\<lparr> ch_prev := None \<rparr>)"
    have h: "useListHead P \<noteq> None" "useListHead P \<noteq> Some r" using D(1) us 3 dist by (cases es; auto)+
    have eq: "ChannelPool_GetTimeoutList P now =
        Some (useListHead P, P\<lparr> useMap := ?m, cells := ?c, useListHead := Some r \<rparr>)"
      using h loop 3 cut(3) by (auto simp: ChannelPool_GetTimeoutList_def Let_def at_def)
    have "last es \<in> set us" "r \<in> set us" using us 3 by simp_all
    then have "clseg ?c (freeListHead P) fs None"
      using D(3,7) by (subst clseg_cong [where c = "cells P"]) auto
    moreover have "last_opt us = last_opt (r # rs')" using us 3 by (simp add: last_opt_def)
    moreover have "ch_id (?c a) = ch_id (cells P a)" for a using payload_eqD [OF cut(4)] .
    ultimately have "pool_inv (P\<lparr> useMap := ?m, cells := ?c, useListHead := Some r \<rparr>) rs fs"
      using mp D 3 us cut(2) by (intro pool_invI) auto
    then show ?thesis unfolding eq using cut 3 us by (auto simp del: fun_upd_apply)
  qed
qed

lemma clear_loop:
  assumes "clseg (cells P) p as None" and "distinct as"
  shows "ChannelPool_clear_loop P p = Some (None, P\<lparr> cells := (\<lambda>a. if a \<in> set as
           then (cells P a)\<lparr> ch_id := 0, ch_handler := None, ch_args := None \<rparr> else cells P a) \<rparr>)"
  using assms
proof (induction as arbitrary: P p)
  case Nil
  then show ?case by (simp add: ChannelPool_clear_loop.simps)
next
  case (Cons a as)
  let ?P = "at a (\<lambda>c. c\<lparr> ch_id := 0, ch_handler := None, ch_args := None \<rparr>) P"
  have "clseg (cells ?P) (ch_next (cells ?P a)) as None" using Cons.prems by simp
  from Cons.IH [OF this] Cons.prems show ?case
    by (subst ChannelPool_clear_loop.simps)
      (auto simp: Let_def at_def fun_eq_iff intro!: channel_pool.equality)
qed

lemma AppendFreeList_inv:
  assumes inv: "pool_inv P us fs" and as: "clseg (cells P) (Some a) as None" "distinct as"
    "set as \<inter> (set us \<union> set fs) = {}" "\<forall>x \<in> set as. x < cells_end P"
  shows "wp (ChannelPool_AppendFreeList P (Some a)) (\<lambda>(r, P'). r \<and>
           pool_inv P' us (if freeListTail P = None then as else fs @ as) \<and>
           freeListTail P' = None \<and> useMap P' = useMap P \<and> cells_end P' = cells_end P \<and>
           (\<forall>b. b \<notin> set fs \<and> b \<notin> set as \<longrightarrow> cells P' b = cells P b))"
proof -
  note D = pool_invD [OF inv]
  let ?c = "\<lambda>x. if x \<in> set as then (cells P x)\<lparr> ch_id := 0, ch_handler := None, ch_args := None \<rparr> else cells P x"
  let ?c1 = "?c(a := (?c a)\<lparr> ch_prev := freeListTail P \<rparr>)"
  have a: "a \<in> set as" using as(1) by (cases as) auto
  have seg: "clseg ?c1 (Some a) as None"
    using as(1) by (subst clseg_cong [where c = "cells P"]) auto
  have use: "dll ?c1 None (useListHead P) us None"
    using D(1) as(3) a by (subst dll_cong [where c = "cells P"]) auto
  show ?thesis
  proof (cases "freeListTail P")
    case None
    have "pool_inv (P\<lparr> cells := ?c1, freeListHead := Some a, freeListTail := None \<rparr>) us as"
      using use seg D as a None by (intro pool_invI) auto
    then show ?thesis using None a
      by (auto simp: ChannelPool_AppendFreeList_def clear_loop [OF as(1,2)] Let_def at_def)
  next
    case (Some t)
    then have "last_opt fs = Some t" using D(4) by simp
    then obtain fs' where fs: "fs = fs' @ [t]" by (auto simp: last_opt_Some)
    let ?c2 = "?c1(t := (?c1 t)\<lparr> ch_next := Some a \<rparr>)"
    have t: "t \<notin> set as" "t \<notin> set us" using fs as(3) D(7) by auto
    have "clseg (cells P) (freeListHead P) fs None" by (rule D(3))
    then have "clseg ?c1 (freeListHead P) fs None"
      using as(3) a by (subst clseg_cong [where c = "cells P"]) auto
    then have "clseg ?c2 (freeListHead P) (fs @ as) None"
      using fs seg t D(6) by (auto simp: clseg_append)
    moreover have "dll ?c2 None (useListHead P) us None" using use t by simp
    ultimately have "pool_inv (P\<lparr> cells := ?c2, freeListTail := None \<rparr>) us (fs @ as)"
      using D as a t by (intro pool_invI) auto
    then show ?thesis using Some a fs t
      by (auto simp: ChannelPool_AppendFreeList_def clear_loop [OF as(1,2)] Let_def at_def)
  qed
qed

lemma at_payload_inv:
  assumes "pool_inv P us fs" and "\<And>x. ch_id (f x) = ch_id x \<and> ch_prev (f x) = ch_prev x \<and> ch_next (f x) = ch_next x"
  shows "pool_inv (at a f P) us fs"
proof -
  have "dll ((cells P)(a := f (cells P a))) None (useListHead P) us None"
    using pool_invD(1) [OF assms(1)] assms(2) by (subst dll_cong [where c = "cells P"]) auto
  moreover have "clseg ((cells P)(a := f (cells P a))) (freeListHead P) fs None"
    using pool_invD(3) [OF assms(1)] assms(2) by (subst clseg_cong [where c = "cells P"]) auto
  ultimately show ?thesis using pool_invD [OF assms(1)] assms(2) by (intro pool_invI) auto
qed

lemma SetExpireTime_inv:
  "pool_inv P us fs \<Longrightarrow> pool_inv (ChannelPool_SetExpireTime P c now) us fs"
  by (auto simp: ChannelPool_SetExpireTime_def split: option.split intro!: at_payload_inv)

section \<open>Identifiers\<close>

lemma and_28_bits: "(x :: u32) AND 0x0FFFFFFF = take_bit 28 x"
  unfolding take_bit_eq_mask by (simp add: mask_eq_exp_minus_1)

lemma unat_28_bits: "unat (take_bit 28 (x :: u32)) = unat x mod 2 ^ 28"
  by (simp only: unsigned_take_bit_eq) (simp only: take_bit_eq_mod)

lemma next_id_range: "0 < unat (fst (next_id G)) \<and> unat (fst (next_id G)) \<le> 0x0FFFFFFF"
proof -
  let ?i = "take_bit 28 (globalChannelId G)"
  have "unat ?i < 2 ^ 28" unfolding unat_28_bits by simp
  then show ?thesis
    by (auto simp: next_id_def Let_def and_28_bits unat_gt_0 simp del: take_bit_of_Suc_0)
qed

lemma next_id_below:
  assumes "0 < unat (globalChannelId G)" and "unat (globalChannelId G) \<le> 0x0FFFFFFF"
  shows "fst (next_id G) = globalChannelId G"
    and "unat (globalChannelId (snd (next_id G))) = Suc (unat (globalChannelId G))"
proof -
  have "unat (take_bit 28 (globalChannelId G)) = unat (globalChannelId G)"
    using assms(2) unfolding unat_28_bits by simp
  then have i: "take_bit 28 (globalChannelId G) = globalChannelId G"
    by (rule unsigned_word_eqI)
  have "unat (globalChannelId G + 1) = Suc (unat (globalChannelId G))"
    using assms(2) by (simp add: unat_word_ariths)
  with i assms(1) show "fst (next_id G) = globalChannelId G"
      "unat (globalChannelId (snd (next_id G))) = Suc (unat (globalChannelId G))"
    by (auto simp: next_id_def Let_def and_28_bits unat_gt_0)
qed

section \<open>Runs of the pool\<close>

text \<open>
  The pool is shared by the threads that post requests, the thread that receives replies and
  the one that checks for time-outs; each of its operations is atomic under the mutex, so that
  a run is an interleaving of the steps below. The ghost component lists the chains of
  channels that callers hold: a channel offered to a reply handler, or a list of expired
  channels. \<open>Alloc\<close> is taken as long as the shared counter has not used up its 28 bits, and
  other pools may advance the counter.
\<close>

type_synonym pool_state = "channel_globals \<times> channel_pool \<times> chptr list list"

inductive pool_step :: "pool_state \<Rightarrow> pool_state \<Rightarrow> bool" where
  Alloc: "unat (globalChannelId G) \<le> 0x0FFFFFFF \<Longrightarrow>
    ChannelPool_AllocChannel G P = Some (c, G', P') \<Longrightarrow> pool_step (G, P, hs) (G', P', hs)"
| Other: "unat (globalChannelId G) \<le> unat (globalChannelId G') \<Longrightarrow>
    pool_step (G, P, hs) (G', P, hs)"
| Free: "map_find (useMap P) (ch_id (cells P c)) = Some c \<Longrightarrow>
    ChannelPool_FreeChannel P (Some c) = (r, P') \<Longrightarrow> pool_step (G, P, hs) (G, P', hs)"
| Offer: "ChannelPool_OfferChannel P i = (Some c, P') \<Longrightarrow> pool_step (G, P, hs) (G, P', [c] # hs)"
| Offer_None: "ChannelPool_OfferChannel P i = (None, P') \<Longrightarrow> pool_step (G, P, hs) (G, P', hs)"
| Append: "ChannelPool_AppendChannel P (Some c) = Some (r, P') \<Longrightarrow>
    pool_step (G, P, hs @ [c] # hs') (G, P', hs @ hs')"
| Timeout: "ChannelPool_GetTimeoutList P now = Some (Some l, P') \<Longrightarrow>
    clseg (cells P') (Some l) es None \<Longrightarrow> pool_step (G, P, hs) (G, P', es # hs)"
| Timeout_None: "ChannelPool_GetTimeoutList P now = Some (None, P') \<Longrightarrow>
    pool_step (G, P, hs) (G, P', hs)"
| AppendList: "ChannelPool_AppendFreeList P (Some (hd es)) = Some (r, P') \<Longrightarrow>
    pool_step (G, P, hs @ es # hs') (G, P', hs @ hs')"
| SetExpire: "pool_step (G, P, hs) (G, ChannelPool_SetExpireTime P c now, hs)"
| SetHandler: "pool_step (G, P, hs) (G, at c (\<lambda>x. Channel_SetHandler x h) P, hs)"
| SetArgs: "pool_step (G, P, hs) (G, at c (\<lambda>x. Channel_SetArgs x a) P, hs)"

inductive pool_reach :: "pool_state \<Rightarrow> bool" where
  init: "0 < unat (globalChannelId G) \<Longrightarrow> pool_reach (G, ChannelPool_new m, [])"
| step: "pool_reach s \<Longrightarrow> pool_step s s' \<Longrightarrow> pool_reach s'"

definition chains_ok :: "(chptr \<Rightarrow> channel) \<Rightarrow> chptr list list \<Rightarrow> bool" where
  "chains_ok c hs \<longleftrightarrow> (\<forall>as \<in> set hs. as \<noteq> [] \<and> clseg c (Some (hd as)) as None)"

definition ids_below :: "channel_globals \<Rightarrow> channel_pool \<Rightarrow> bool" where
  "ids_below G P \<longleftrightarrow> 0 < unat (globalChannelId G) \<and>
     (\<forall>k \<in> dom (map_find (useMap P)). unat k < unat (globalChannelId G))"

fun state_inv :: "pool_state \<Rightarrow> chptr list \<Rightarrow> chptr list \<Rightarrow> bool" where
  "state_inv (G, P, hs) us fs \<longleftrightarrow> pool_inv P us fs \<and> distinct (concat hs) \<and>
     (\<forall>a \<in> set (concat hs). a \<notin> set us \<and> a \<notin> set fs \<and> a < cells_end P) \<and>
     chains_ok (cells P) hs \<and> ids_below G P"

lemma chains_cong:
  assumes "\<And>a. a \<in> set (concat hs) \<Longrightarrow> ch_next (c' a) = ch_next (c a)"
  shows "chains_ok c' hs = chains_ok c hs"
proof -
  have "clseg c' p as None = clseg c p as None" if "as \<in> set hs" for p as
    using assms that by (intro clseg_cong) auto
  then show ?thesis by (auto simp: chains_ok_def)
qed

lemma chains_ok_simps [simp]:
  "chains_ok c []"
  "chains_ok c (as # hs) \<longleftrightarrow> as \<noteq> [] \<and> clseg c (Some (hd as)) as None \<and> chains_ok c hs"
  "chains_ok c (hs @ hs') \<longleftrightarrow> chains_ok c hs \<and> chains_ok c hs'"
  by (auto simp: chains_ok_def)

lemma ids_below_mono:
  assumes "ids_below G P" and "\<And>k. map_find (useMap P) k = None \<Longrightarrow> map_find (useMap P') k = None"
  shows "ids_below G P'"
  using assms by (fastforce simp: ids_below_def dom_def)

lemma clseg_unique: "clseg c p as None \<Longrightarrow> clseg c p bs None \<Longrightarrow> as = bs"
proof (induction as arbitrary: p bs)
  case Nil
  then show ?case by (cases bs) auto
next
  case (Cons a as)
  then show ?case by (cases bs) auto
qed

lemma state_invI:
  assumes "pool_inv P us fs" and "distinct (concat hs)"
    and "\<And>a. a \<in> set (concat hs) \<Longrightarrow> a \<notin> set us" and "\<And>a. a \<in> set (concat hs) \<Longrightarrow> a \<notin> set fs"
    and "\<And>a. a \<in> set (concat hs) \<Longrightarrow> a < cells_end P"
    and "chains_ok (cells P) hs" and "ids_below G P"
  shows "state_inv (G, P, hs) us fs"
  unfolding state_inv.simps by (intro conjI ballI assms)

lemma state_invD:
  assumes "state_inv (G, P, hs) us fs"
  shows "pool_inv P us fs" and "distinct (concat hs)"
    and "\<And>a. a \<in> set (concat hs) \<Longrightarrow> a \<notin> set us" and "\<And>a. a \<in> set (concat hs) \<Longrightarrow> a \<notin> set fs"
    and "\<And>a. a \<in> set (concat hs) \<Longrightarrow> a < cells_end P"
    and "chains_ok (cells P) hs" and "ids_below G P"
  using assms unfolding state_inv.simps by blast+

lemma dom_chains_frame:
  assumes "\<And>a. a \<in> set (concat hs) \<Longrightarrow> cells P' a = cells P a" and "chains_ok (cells P) hs"
  shows "chains_ok (cells P') hs"
  using assms by (subst chains_cong [where c = "cells P"]) auto

lemma step_Alloc:
  assumes s: "state_inv (G, P, hs) us fs" and lim: "unat (globalChannelId G) \<le> 0x0FFFFFFF"
  shows "wp (ChannelPool_AllocChannel G P) (\<lambda>(c, G', P'). \<exists>fs'. state_inv (G', P', hs) (us @ [c]) fs')"
proof -
  note S = state_invD [OF s]
  have g: "0 < unat (globalChannelId G)" using S(7) by (simp add: ids_below_def)
  note id = next_id_below [OF g lim]
  have fresh: "map_find (useMap P) (fst (next_id G)) = None"
    using S(7) id(1) by (auto simp: ids_below_def dom_def)
  show ?thesis
  proof (rule wp_mono [OF AllocChannel_inv [OF S(1) fresh]], clarify, goal_cases)
    case (1 c G' P' fs')
    have "state_inv (G', P', hs) (us @ [c]) fs'"
    proof (rule state_invI)
      fix a assume a: "a \<in> set (concat hs)"
      show "a \<notin> set (us @ [c])" "a \<notin> set fs'" "a < cells_end P'"
        using 1 S(3-5) [OF a] by auto
    next
      show "chains_ok (cells P') hs" using 1 S(3-6) by (intro dom_chains_frame [of hs P' P]) auto
      show "ids_below G' P'" using S(7) 1 id by (auto simp: ids_below_def less_Suc_eq)
    qed (use 1 S(2) in auto)
    then show ?case ..
  qed
qed

lemma step_Free:
  assumes s: "state_inv (G, P, hs) us fs" and c: "map_find (useMap P) (ch_id (cells P c)) = Some c"
    and r: "ChannelPool_FreeChannel P (Some c) = (r, P')"
  shows "\<exists>us' fs'. state_inv (G, P', hs) us' fs'"
proof -
  note S = state_invD [OF s]
  have u: "c \<in> set us" using c pool_invD(11) [OF S(1)] by simp
  from FreeChannel_inv [OF S(1) u] r have
    f: "pool_inv P' (remove1 c us) (if freeListTail P = None then [c] else fs @ [c])"
      "map_find (useMap P') = (map_find (useMap P))(ch_id (cells P c) := None)"
      "cells_end P' = cells_end P" "\<forall>b. b \<notin> set us \<and> b \<notin> set fs \<longrightarrow> cells P' b = cells P b"
    by auto
  have "state_inv (G, P', hs) (remove1 c us) (if freeListTail P = None then [c] else fs @ [c])"
  proof (rule state_invI)
    fix a assume a: "a \<in> set (concat hs)"
    show "a \<notin> set (remove1 c us)" "a \<notin> set (if freeListTail P = None then [c] else fs @ [c])"
      "a < cells_end P'" using f(3) S(3-5) [OF a] u pool_invD(5) [OF S(1)]
      by (auto simp: set_remove1_eq split: if_splits)
  next
    show "chains_ok (cells P') hs" using f(4) S(3,4,6) by (intro dom_chains_frame [of hs P' P]) auto
    show "ids_below G P'" by (rule ids_below_mono [OF S(7)]) (simp add: f(2))
  qed (use f(1) S(2) in auto)
  then show ?thesis by blast
qed

lemma step_Offer:
  assumes s: "state_inv (G, P, hs) us fs" and r: "ChannelPool_OfferChannel P i = (Some c, P')"
  shows "\<exists>us' fs'. state_inv (G, P', [c] # hs) us' fs'"
proof -
  note S = state_invD [OF s]
  have "map_find (useMap P) i = Some c"
    using r by (auto simp: ChannelPool_OfferChannel_def Let_def split: option.splits)
  then have u: "c \<in> set us" and i: "i = ch_id (cells P c)" using pool_invD(11) [OF S(1)] by auto
  have nx: "ch_next (cells P' c) = None"
    using r by (auto simp: ChannelPool_OfferChannel_def Let_def split: option.splits)
  from OfferChannel_inv [OF S(1) u] r i have
    f: "pool_inv P' (remove1 c us) fs"
      "map_find (useMap P') = (map_find (useMap P))(ch_id (cells P c) := None)"
      "cells_end P' = cells_end P" "\<forall>b. b \<notin> set us \<longrightarrow> cells P' b = cells P b"
    by auto
  note D = pool_invD [OF S(1)]
  have "state_inv (G, P', [c] # hs) (remove1 c us) fs"
  proof (rule state_invI)
    fix a assume a: "a \<in> set (concat ([c] # hs))"
    then consider "a = c" | "a \<in> set (concat hs)" by auto
    then show "a \<notin> set (remove1 c us)" "a \<notin> set fs" "a < cells_end P'"
      using f(3) S(3-5) D(5,7,8) u by (cases; auto simp: set_remove1_eq)+
  next
    show "distinct (concat ([c] # hs))" using S(2) S(3) [of c] u by auto
    have "chains_ok (cells P') hs" using f(4) S(3,6) by (intro dom_chains_frame [of hs P' P]) auto
    then show "chains_ok (cells P') ([c] # hs)" using nx by simp
    show "ids_below G P'" by (rule ids_below_mono [OF S(7)]) (simp add: f(2))
  qed (rule f(1))
  then show ?thesis by blast
qed

lemma step_Append:
  assumes s: "state_inv (G, P, hs @ [c] # hs') us fs"
  shows "\<exists>fs'. state_inv (G, link_free c P, hs @ hs') us fs'"
proof -
  note S = state_invD [OF s]
  have c: "c \<in> set (concat (hs @ [c] # hs'))" by simp
  note L = link_free_inv [OF S(1) S(3-5) [OF c]]
  have "state_inv (G, link_free c P, hs @ hs') us (if freeListTail P = None then [c] else fs @ [c])"
  proof (rule state_invI)
    fix a assume a: "a \<in> set (concat (hs @ hs'))"
    then have a': "a \<in> set (concat (hs @ [c] # hs'))" "a \<noteq> c" using S(2) by auto
    show "a \<notin> set us" "a \<notin> set (if freeListTail P = None then [c] else fs @ [c])"
      "a < cells_end (link_free c P)" using S(3-5) [OF a'(1)] a'(2) by auto
  next
    have "cells (link_free c P) a = cells P a" if "a \<in> set (concat (hs @ hs'))" for a
    proof -
      have "a \<in> set (concat (hs @ [c] # hs'))" "a \<noteq> c" using S(2) that by auto
      then show ?thesis using L(2) S(4) by blast
    qed
    then show "chains_ok (cells (link_free c P)) (hs @ hs')"
      using S(6) by (intro dom_chains_frame [of _ "link_free c P" P]) auto
    show "ids_below G (link_free c P)" by (rule ids_below_mono [OF S(7)]) simp
  qed (use L(1) S(2) in auto)
  then show ?thesis by blast
qed

lemma step_Timeout:
  assumes s: "state_inv (G, P, hs) us fs"
  shows "wp (ChannelPool_GetTimeoutList P now) (\<lambda>(list, P'). \<exists>us' es. clseg (cells P') list es None \<and>
           state_inv (G, P', if es = [] then hs else es # hs) us' fs)"
proof -
  note S = state_invD [OF s] and D = pool_invD [OF state_invD(1) [OF s]]
  define es rs where "es = takeWhile (ch_expired (cells P) now) us"
    and "rs = dropWhile (ch_expired (cells P) now) us"
  have us: "us = es @ rs" by (simp add: es_def rs_def)
  show ?thesis
  proof (rule wp_mono [OF GetTimeoutList_inv [OF S(1), of now, folded es_def rs_def]], clarify, goal_cases)
    case (1 list P')
    note D' = pool_invD [OF 1(1)]
    have ids: "ch_id (cells P' a) = ch_id (cells P a)" for a using 1(5) payload_eqD by blast
    let ?hs = "if es = [] then hs else es # hs"
    have "state_inv (G, P', ?hs) rs fs"
    proof (rule state_invI)
      fix a assume "a \<in> set (concat ?hs)"
      then consider "a \<in> set es" | "a \<in> set (concat hs)" by (auto split: if_splits)
      then show "a \<notin> set rs" "a \<notin> set fs" "a < cells_end P'"
        using S(3-5) D(5,7,8) us 1(3) by (cases; auto)+
    next
      show "distinct (concat ?hs)" using S(2,3) D(5) us by auto
      have "chains_ok (cells P') hs" using S(3,6) 1(6) by (intro dom_chains_frame [of _ P' P]) auto
      moreover have "es \<noteq> [] \<Longrightarrow> clseg (cells P') (Some (hd es)) es None" using 1(2) by (cases es) auto
      ultimately show "chains_ok (cells P') ?hs" by simp
      have "map_find (useMap P') k = None" if "map_find (useMap P) k = None" for k
        using D(11) [of k] D'(11) [of k] that us ids by (metis Un_iff not_None_eq set_append)
      then show "ids_below G P'" by (rule ids_below_mono [OF S(7)])
    qed (rule 1(1))
    with 1(2) show ?case by blast
  qed
qed

lemma step_AppendList:
  assumes s: "state_inv (G, P, hs @ es # hs') us fs"
  shows "wp (ChannelPool_AppendFreeList P (Some (hd es))) (\<lambda>(r, P'). \<exists>fs'. state_inv (G, P', hs @ hs') us fs')"
proof -
  note S = state_invD [OF s]
  have es: "a \<in> set es \<Longrightarrow> a \<in> set (concat (hs @ es # hs'))" for a by simp
  have pre: "clseg (cells P) (Some (hd es)) es None" "distinct es"
      "set es \<inter> (set us \<union> set fs) = {}" "\<forall>x \<in> set es. x < cells_end P"
    using S(6) S(2) S(3-5) [OF es] by auto
  show ?thesis
  proof (rule wp_mono [OF AppendFreeList_inv [OF S(1) pre]], clarify, goal_cases)
    case (1 r P')
    let ?fs = "if freeListTail P = None then es else fs @ es"
    have out: "a \<in> set (concat (hs @ es # hs'))" "a \<notin> set es" if "a \<in> set (concat (hs @ hs'))" for a
      using S(2) that by auto
    have "state_inv (G, P', hs @ hs') us ?fs"
    proof (rule state_invI)
      fix a assume a: "a \<in> set (concat (hs @ hs'))"
      show "a \<notin> set us" "a \<notin> set ?fs" "a < cells_end P'"
        using S(3-5) [OF out(1) [OF a]] out(2) [OF a] 1(5) by auto
    next
      have "cells P' a = cells P a" if "a \<in> set (concat (hs @ hs'))" for a
        using 1(6) out [OF that] S(4) by blast
      then show "chains_ok (cells P') (hs @ hs')"
        using S(6) by (intro dom_chains_frame [of _ P' P]) auto
      show "ids_below G P'" by (rule ids_below_mono [OF S(7)]) (simp add: 1(4))
    qed (use 1(2) S(2) in auto)
    then show ?case by blast
  qed
qed

lemma step_payload:
  assumes s: "state_inv (G, P, hs) us fs"
    and f: "\<And>x. ch_id (f x) = ch_id x" "\<And>x. ch_prev (f x) = ch_prev x" "\<And>x. ch_next (f x) = ch_next x"
  shows "state_inv (G, at c f P, hs) us fs"
proof -
  note S = state_invD [OF s]
  let ?c = "(cells P)(c := f (cells P c))"
  have "pool_inv (at c f P) us fs" using f by (intro at_payload_inv [OF S(1)]) simp
  moreover have "chains_ok ?c hs" using S(6) by (subst chains_cong [where c = "cells P"]) (auto simp: f)
  ultimately show ?thesis using S(2-5,7) by (intro state_invI) (auto simp: ids_below_def)
qed

lemma pool_step_inv:
  assumes "pool_step s s'" and "\<exists>us fs. state_inv s us fs"
  shows "\<exists>us fs. state_inv s' us fs"
  using assms
proof (cases rule: pool_step.cases)
  case (Alloc G P c G' P' hs)
  with assms(2) obtain us fs where "state_inv (G, P, hs) us fs" by blast
  from step_Alloc [OF this Alloc(3)] Alloc(2,4) show ?thesis by (auto simp del: state_inv.simps)
next
  case (Other G G' P hs)
  with assms(2) obtain us fs where "state_inv (G, P, hs) us fs" by blast
  with Other(3) have "state_inv (G', P, hs) us fs"
    by (auto simp: ids_below_def intro: less_le_trans)
  with Other show ?thesis by blast
next
  case (Free P c r P' G hs)
  with assms(2) show ?thesis using step_Free by blast
next
  case (Offer P i c P' G hs)
  with assms(2) show ?thesis using step_Offer by blast
next
  case (Offer_None P i P' G hs)
  then have "P' = P" by (auto simp: ChannelPool_OfferChannel_def Let_def split: option.splits)
  with Offer_None assms(2) show ?thesis by simp
next
  case (Append P c r P' G hs hs')
  then have "P' = link_free c P" by (simp add: ChannelPool_AppendChannel_def)
  with Append assms(2) show ?thesis using step_Append by blast
next
  case (Timeout P now l P' es G hs)
  with assms(2) obtain us fs where "state_inv (G, P, hs) us fs" by blast
  from step_Timeout [OF this, of now] Timeout obtain us' es' where
    "clseg (cells P') (Some l) es' None" "state_inv (G, P', if es' = [] then hs else es' # hs) us' fs"
    by auto
  with Timeout clseg_unique [of "cells P'" "Some l" es es'] show ?thesis
    by (auto simp del: state_inv.simps split: if_splits)
next
  case (Timeout_None P now P' G hs)
  with assms(2) obtain us fs where "state_inv (G, P, hs) us fs" by blast
  from step_Timeout [OF this, of now] Timeout_None show ?thesis by (auto simp del: state_inv.simps)
next
  case (AppendList P es r P' G hs hs')
  with assms(2) obtain us fs where "state_inv (G, P, hs @ es # hs') us fs" by blast
  from step_AppendList [OF this] AppendList show ?thesis by (auto simp del: state_inv.simps)
next
  case (SetExpire G P hs c now)
  with assms(2) obtain us fs where s: "state_inv (G, P, hs) us fs" by blast
  have "state_inv (G, ChannelPool_SetExpireTime P c now, hs) us fs"
    using s step_payload [OF s, of "ch_expireTime_update (\<lambda>_. now)"]
    by (cases c) (simp_all add: ChannelPool_SetExpireTime_def del: state_inv.simps)
  with SetExpire show ?thesis by blast
next
  case (SetHandler G P hs c h)
  with assms(2) obtain us fs where s: "state_inv (G, P, hs) us fs" by blast
  have "state_inv (G, at c (\<lambda>x. Channel_SetHandler x h) P, hs) us fs"
    by (rule step_payload [OF s]) (simp_all add: Channel_SetHandler_def)
  with SetHandler show ?thesis by blast
next
  case (SetArgs G P hs c a)
  with assms(2) obtain us fs where s: "state_inv (G, P, hs) us fs" by blast
  have "state_inv (G, at c (\<lambda>x. Channel_SetArgs x a) P, hs) us fs"
    by (rule step_payload [OF s]) (simp_all add: Channel_SetArgs_def)
  with SetArgs show ?thesis by blast
qed

lemma pool_reach_inv: "pool_reach s \<Longrightarrow> \<exists>us fs. state_inv s us fs"
proof (induction rule: pool_reach.induct)
  case (init G m)
  then have "state_inv (G, ChannelPool_new m, []) [] []"
    by (simp add: pool_inv_new ids_below_def) (simp add: ChannelPool_new_def)
  then show ?case by blast
qed (rule pool_step_inv)

section \<open>The pool as a registry of pending requests\<close>

text \<open>
  What the client session relies on when replies arrive: \<open>offer\<close> returns the pending entry of
  an identifier and removes it, and touches no other entry.
\<close>

locale pending_registry =
  fixes ok :: "'p \<Rightarrow> bool"
    and pending :: "'p \<Rightarrow> 'k \<Rightarrow> 'c option"
    and offer :: "'p \<Rightarrow> 'k \<Rightarrow> 'c option \<times> 'p"
  assumes offer_ok: "ok P \<Longrightarrow> ok (snd (offer P k))"
    and offer_result: "ok P \<Longrightarrow> fst (offer P k) = pending P k"
    and offer_pending: "ok P \<Longrightarrow> pending (snd (offer P k)) = (pending P)(k := None)"
begin

fun offer_list :: "'p \<Rightarrow> 'k list \<Rightarrow> 'c option list \<times> 'p" where
  "offer_list P [] = ([], P)"
| "offer_list P (k # ks) =
     (let (r, P) = offer P k; (rs, P) = offer_list P ks in (r # rs, P))"

lemma offer_list_any_order:
  assumes "ok P" and "distinct ks"
  shows "fst (offer_list P ks) = map (pending P) ks \<and> ok (snd (offer_list P ks)) \<and>
         pending (snd (offer_list P ks)) = (\<lambda>k. if k \<in> set ks then None else pending P k)"
  using assms
proof (induction ks arbitrary: P)
  case (Cons k ks)
  obtain r P' where o: "offer P k = (r, P')" by force
  have P': "ok P'" "r = pending P k" "pending P' = (pending P)(k := None)"
    using Cons.prems(1) offer_ok [of P k] offer_result [of P k] offer_pending [of P k] o by auto
  have "map (pending P') ks = map (pending P) ks" using Cons.prems(2) P'(3) by auto
  with Cons.IH [OF P'(1)] Cons.prems(2) P' o show ?case
    by (auto simp: Let_def fun_eq_iff split: prod.splits)
qed simp

end

lemma OfferChannel_pending:
  assumes inv: "pool_inv P us fs"
  shows "fst (ChannelPool_OfferChannel P k) = map_find (useMap P) k"
    and "map_find (useMap (snd (ChannelPool_OfferChannel P k))) = (map_find (useMap P))(k := None)"
    and "\<exists>us. pool_inv (snd (ChannelPool_OfferChannel P k)) us fs"
proof -
  show "fst (ChannelPool_OfferChannel P k) = map_find (useMap P) k"
    by (auto simp: ChannelPool_OfferChannel_def Let_def split: option.splits)
  show "map_find (useMap (snd (ChannelPool_OfferChannel P k))) = (map_find (useMap P))(k := None)"
    using pool_invD(10) [OF inv]
    by (auto simp: ChannelPool_OfferChannel_def Let_def fun_eq_iff split: option.splits)
  show "\<exists>us. pool_inv (snd (ChannelPool_OfferChannel P k)) us fs"
  proof (cases "map_find (useMap P) k")
    case None
    then show ?thesis using inv by (auto simp: ChannelPool_OfferChannel_def)
  next
    case (Some a)
    then have "a \<in> set us" "ch_id (cells P a) = k" using pool_invD(11) [OF inv] by auto
    with OfferChannel_inv [OF inv, of a] show ?thesis by auto
  qed
qed

interpretation chreg: pending_registry "\<lambda>P. \<exists>us fs. pool_inv P us fs" "\<lambda>P. map_find (useMap P)"
  ChannelPool_OfferChannel
  by unfold_locales (use OfferChannel_pending in blast)+

section \<open>Properties\<close>


definition no_channel :: channel where
  "no_channel = \<lparr> ch_id = 0, ch_args = None, ch_handler = None, ch_expireTime = 0,
                  ch_prev = None, ch_next = None \<rparr>"

abbreviation sample_pool :: channel_pool where
  "sample_pool \<equiv> ChannelPool_new (\<lambda>_. no_channel)"

lemma sample_reach: "pool_reach (globals_init, sample_pool, [])"
  by (rule pool_reach.init) (simp add: globals_init_def)




text \<open>
  C29. \<open>GetTimeoutList\<close> ends and takes exactly the longest expired prefix of the use list out
  of the pool, as a null-terminated chain: a late reply to one of them finds no channel, and
  every other request in flight is still found under its identifier.
\<close>

theorem ChannelPool_GetTimeoutList_splits:
  assumes inv: "pool_inv P us fs"
  shows "wp (ChannelPool_GetTimeoutList P now) (\<lambda>(list, P').
           clseg (cells P') list (takeWhile (ch_expired (cells P) now) us) None \<and>
           pool_inv P' (dropWhile (ch_expired (cells P) now) us) fs \<and>
           (\<forall>a \<in> set us. fst (ChannelPool_OfferChannel P' (ch_id (cells P a))) =
              (if a \<in> set (takeWhile (ch_expired (cells P) now) us) then None else Some a)))"
proof (rule wp_mono [OF GetTimeoutList_inv [OF inv, of now]], clarify, goal_cases)
  case (1 list P')
  let ?es = "takeWhile (ch_expired (cells P) now) us" and ?rs = "dropWhile (ch_expired (cells P) now) us"
  have offer: "fst (ChannelPool_OfferChannel P' k) = map_find (useMap P') k" for k
    by (auto simp: ChannelPool_OfferChannel_def Let_def split: option.splits)
  have ids: "ch_id (cells P' a) = ch_id (cells P a)" for a using 1(5) payload_eqD by blast
  have us: "set us = set ?es \<union> set ?rs" by (metis set_append takeWhile_dropWhile_id)
  have dis: "set ?es \<inter> set ?rs = {}"
    using pool_invD(5) [OF inv] by (metis distinct_append takeWhile_dropWhile_id)
  have "map_find (useMap P') (ch_id (cells P a)) = (if a \<in> set ?es then None else Some a)"
    if a: "a \<in> set us" for a
  proof (cases "a \<in> set ?es")
    case True
    have "map_find (useMap P') (ch_id (cells P a)) \<noteq> Some b" for b
      using pool_invD(11) [OF 1(1), of "ch_id (cells P a)" b] pool_id_inj [OF inv, of b a] a True us dis ids
      by (metis Un_iff disjoint_iff)
    with True show ?thesis by (cases "map_find (useMap P') (ch_id (cells P a))") auto
  next
    case False
    then show ?thesis using a us pool_invD(11) [OF 1(1), of "ch_id (cells P a)" a] ids by auto
  qed
  with 1 show ?case unfolding offer by blast
qed

definition sample_pool1 :: channel_pool where
  "sample_pool1 = sample_pool\<lparr> useMap := [(1, 0)], useListHead := Some 0, useListTail := Some 0,
     cells := (\<lambda>_. no_channel)(0 := no_channel\<lparr> ch_id := 1, ch_expireTime := 3 \<rparr>), cells_end := 1 \<rparr>"

lemma sample_pool1_inv: "pool_inv sample_pool1 [0] []"
  by (auto simp: pool_inv_def sample_pool1_def ChannelPool_new_def no_channel_def last_opt_def
      map_ok_def map_find_def)

theorem ChannelPool_GetTimeoutList_splits_witness:
  "wp (ChannelPool_GetTimeoutList sample_pool1 7) (\<lambda>(list, P').
     clseg (cells P') list (takeWhile (ch_expired (cells sample_pool1) 7) [0]) None \<and>
     pool_inv P' (dropWhile (ch_expired (cells sample_pool1) 7) [0]) [] \<and>
     (\<forall>a \<in> set [0]. fst (ChannelPool_OfferChannel P' (ch_id (cells sample_pool1 a))) =
        (if a \<in> set (takeWhile (ch_expired (cells sample_pool1) 7) [0]) then None else Some a)))"
  by (rule ChannelPool_GetTimeoutList_splits [OF sample_pool1_inv])

text \<open>
  \<open>AppendFreeList\<close> leaves the tail of the free list null, so that the next channel given
  back replaces the whole free list: after it only that one channel can be reused, the channels
  that were free before and those of the appended list are never handed out again.
\<close>

theorem ChannelPool_AppendFreeList_loses:
  assumes "pool_inv P us fs" and "clseg (cells P) (Some a) as None" and "distinct as"
    and "set as \<inter> (set us \<union> set fs) = {}" and "\<forall>x \<in> set as. x < cells_end P"
    and "c \<notin> set us \<union> set fs \<union> set as" and "c < cells_end P"
  shows "wp (do { (r, P) \<leftarrow> ChannelPool_AppendFreeList P (Some a);
                  (r', P) \<leftarrow> ChannelPool_AppendChannel P (Some c); Some P })
           (\<lambda>P'. pool_inv P' us [c])"
  unfolding wp_bind
proof (rule wp_mono [OF AppendFreeList_inv [OF assms(1-5)]], clarify, goal_cases)
  case (1 r P')
  from link_free_inv(1) [OF 1(2), of c] 1 assms(6,7) show ?case
    by (auto simp: ChannelPool_AppendChannel_def split: if_splits)
qed

definition sample_pool2 :: channel_pool where
  "sample_pool2 = sample_pool\<lparr> cells_end := 3, freeListHead := Some 0, freeListTail := Some 0 \<rparr>"

theorem ChannelPool_AppendFreeList_loses_witness:
  "wp (do { (r, P) \<leftarrow> ChannelPool_AppendFreeList sample_pool2 (Some 1);
            (r', P) \<leftarrow> ChannelPool_AppendChannel P (Some 2); Some P })
     (\<lambda>P'. pool_inv P' [] [2])"
  by (rule ChannelPool_AppendFreeList_loses [where fs = "[0]" and as = "[1]"])
    (simp_all add: sample_pool2_def pool_inv_def ChannelPool_new_def no_channel_def last_opt_def)

lemma next_id_wrap:
  "globalChannelId G = 0x10000000 \<Longrightarrow> fst (next_id G) = 1 \<and> globalChannelId (snd (next_id G)) = 1"
  "globalChannelId G = 1 \<Longrightarrow> fst (next_id G) = 1"
  by (simp_all add: next_id_def Let_def)

lemma AllocChannel_again:
  assumes inv: "pool_inv P us fs"
  shows "wp (ChannelPool_AllocChannel G P) (\<lambda>(d, G', P'). d \<notin> set us \<and>
           ch_id (cells P' d) = fst (next_id G) \<and> map_find (useMap P') (fst (next_id G)) = Some d \<and>
           (\<forall>a \<in> set us. ch_id (cells P' a) = ch_id (cells P a)))"
proof -
  note D = pool_invD [OF inv]
  show ?thesis unfolding AllocChannel_eq wp_bind
  proof (rule wp_mono [OF take_free_inv [OF inv]], clarify, goal_cases)
    case (1 c G1 P1 fs1)
    note D1 = pool_invD [OF 1(1)]
    have "fst (next_id G1) = fst (next_id G)" using 1(5) by (simp add: next_id_def Let_def)
    moreover have "ch_id (cells (link_use c P1) a) = ch_id (cells P a)" if "a \<in> set us" for a
    proof -
      have "a \<noteq> c" "cells P1 a = cells P a" using that 1 D(7,8) by auto
      then show ?thesis using payload_eqD [OF link_use_dll(4) [OF D1(1,2,5) 1(2)], of a] by simp
    qed
    ultimately show ?case using 1(2) D(10) 1(9) by (auto simp: Let_def)
  qed
qed

text \<open>
  C38. When the counter reaches \<open>0x10000000\<close> the wrap-around stores 1 instead of 2: the next two
  channels both get identifier 1, the second replaces the first in the map, and the reply to the
  first request is delivered to the second.
\<close>

theorem ChannelPool_wrap_duplicate:
  assumes inv: "pool_inv P us fs" and g: "globalChannelId G = 0x10000000"
    and fresh: "map_find (useMap P) 1 = None"
  shows "wp (do { (c, G, P) \<leftarrow> ChannelPool_AllocChannel G P;
                  (d, G, P) \<leftarrow> ChannelPool_AllocChannel G P; Some (c, d, P) })
           (\<lambda>(c, d, P). c \<noteq> d \<and> ch_id (cells P c) = 1 \<and> ch_id (cells P d) = 1 \<and>
              fst (ChannelPool_OfferChannel P 1) = Some d)"
proof -
  have offer: "fst (ChannelPool_OfferChannel P' k) = map_find (useMap P') k" for P' k
    by (auto simp: ChannelPool_OfferChannel_def Let_def split: option.splits)
  have i: "fst (next_id G) = 1" "globalChannelId (snd (next_id G)) = 1" using next_id_wrap(1) [OF g] by simp_all
  have f: "map_find (useMap P) (fst (next_id G)) = None" using fresh i by simp
  show ?thesis unfolding wp_bind
  proof (rule wp_mono [OF AllocChannel_inv [OF inv f]], clarify, goal_cases)
    case (1 c G1 P1 fs1)
    have n: "fst (next_id G1) = 1" using next_id_wrap(2) 1 i by simp
    from 1 i show ?case unfolding wp_bind
      by (intro wp_mono [OF AllocChannel_again [OF 1(1), of G1]]) (auto simp: n offer)
  qed
qed

theorem ChannelPool_wrap_duplicate_witness:
  "wp (do { (c, G, P) \<leftarrow> ChannelPool_AllocChannel
                            \<lparr> globalChannelId = 0x10000000, globalTotalCount = 0 \<rparr> sample_pool;
            (d, G, P) \<leftarrow> ChannelPool_AllocChannel G P; Some (c, d, P) })
     (\<lambda>(c, d, P). c \<noteq> d \<and> ch_id (cells P c) = 1 \<and> ch_id (cells P d) = 1 \<and>
        fst (ChannelPool_OfferChannel P 1) = Some d)"
  by (rule ChannelPool_wrap_duplicate [OF pool_inv_new]) (simp_all add: ChannelPool_new_def)

text \<open>
  Replies may arrive in any order: offering any sequence of distinct identifiers to a
  well-formed pool returns for each of them the channel that was pending under it (or null),
  whatever the order, and leaves exactly the other requests pending.
\<close>

theorem ChannelPool_any_order:
  assumes "pool_inv P us fs" and "distinct ks"
  shows "fst (chreg.offer_list P ks) = map (\<lambda>k. fst (ChannelPool_OfferChannel P k)) ks \<and>
         (\<forall>k. fst (ChannelPool_OfferChannel (snd (chreg.offer_list P ks)) k) =
              (if k \<in> set ks then None else fst (ChannelPool_OfferChannel P k)))"
proof -
  have ok: "\<exists>us fs. pool_inv P us fs" using assms(1) by blast
  note any = chreg.offer_list_any_order [OF ok assms(2)]
  then obtain us' fs' where inv': "pool_inv (snd (chreg.offer_list P ks)) us' fs'" by blast
  show ?thesis
    using any by (simp add: OfferChannel_pending(1) [OF assms(1)] OfferChannel_pending(1) [OF inv'])
qed

theorem ChannelPool_any_order_witness:
  "fst (chreg.offer_list sample_pool1 [2, 1]) =
     map (\<lambda>k. fst (ChannelPool_OfferChannel sample_pool1 k)) [2, 1] \<and>
   (\<forall>k. fst (ChannelPool_OfferChannel (snd (chreg.offer_list sample_pool1 [2, 1])) k) =
        (if k \<in> set [2, 1] then None else fst (ChannelPool_OfferChannel sample_pool1 k)))"
  by (rule ChannelPool_any_order [OF sample_pool1_inv]) simp

end
