(* ===== verification/TcpClient.thy ===== *)
theory TcpClient
  imports TcpConn Sockets
begin

text \<open>
  \<open>evpp::TCPClient\<close> and \<open>evpp::Connector\<close> (\<open>thirdpartlibs/evpp/evpp/tcp_client.h\<close>,
  \<open>tcp_client.cc\<close>, \<open>connector.h\<close>, \<open>connector.cc\<close>): a client keeps at most one connection, made by a
  connector that resolves the host, connects, and tries again after a failure.

  Connectors and connections are shared objects: they live in stores of the client record, by
  number, and \<open>connector_\<close> and \<open>conn_\<close> are numbers. A connector is destroyed when nothing refers
  to it any more: not the client, not the timer of a scheduled retry (\<open>retries\<close>), and not the
  callbacks bound to it in its own timer, resolver or channel. Parameters are the calling thread
  and libevent (\<open>loop_env\<close>), \<open>inet_pton\<close>, the indeterminate bytes of a \<open>raddr_\<close> that no
  constructor wrote, and the kernel's answers to a connection attempt (\<open>connect_env\<close>).
\<close>

section \<open>State\<close>

datatype connector_status = cDisconnected | cDNSResolving | cDNSResolved | cConnecting | cConnected

record connector =
  cn_status :: connector_status
  remote_host :: string
  remote_port :: int
  raddr :: bytes
  cn_timeout :: int
  cn_fd :: int
  own_fd :: bool
  cn_chan :: "fd_channel option"
  cn_timer :: bool
  cn_dns :: bool
  dns_functor :: bool

text \<open>\<open>client_log\<close> collects the calls of the connection callback with the status it sees.\<close>

record tcp_client =
  cl_local_addr :: string
  cl_remote_addr :: string
  cl_name :: string
  auto_reconnect :: bool
  reconnect_interval :: int
  connecting_timeout :: int
  conns :: "nat \<Rightarrow> tcp_conn option"
  next_conn :: nat
  cl_conn :: "nat option"
  connectors :: "nat \<Rightarrow> connector option"
  next_connector :: nat
  cl_connector :: "nat option"
  retries :: "nat list"
  client_tasks :: nat
  disconnect_tasks :: nat
  client_log :: "(nat option \<times> conn_status) list"

record connect_env =
  new_fd :: int
  bind_errno :: "int option"
  connect_errno :: "int option"

definition EINPROGRESS :: int where "EINPROGRESS = 115"

definition ETIMEDOUT :: int where "ETIMEDOUT = 110"

definition ECONNREFUSED :: int where "ECONNREFUSED = 111"

definition EVUTIL_ERR_CONNECT_RETRIABLE :: "int \<Rightarrow> bool" where
  "EVUTIL_ERR_CONNECT_RETRIABLE e \<longleftrightarrow> e = EINTR \<or> e = EINPROGRESS"

definition EVUTIL_ERR_CONNECT_REFUSED :: "int \<Rightarrow> bool" where
  "EVUTIL_ERR_CONNECT_REFUSED e \<longleftrightarrow> e = ECONNREFUSED"

definition TCPClient_new :: "string \<Rightarrow> string \<Rightarrow> tcp_client" where
  "TCPClient_new addr n =
     \<lparr> cl_local_addr = [], cl_remote_addr = addr, cl_name = n, auto_reconnect = True,
       reconnect_interval = 3000000000, connecting_timeout = 3000000000,
       conns = (\<lambda>_. None), next_conn = 0, cl_conn = None,
       connectors = (\<lambda>_. None), next_connector = 0, cl_connector = None,
       retries = [], client_tasks = 0, disconnect_tasks = 0, client_log = [] \<rparr>"

definition TCPClient_Bind :: "tcp_client \<Rightarrow> string \<Rightarrow> tcp_client" where
  "TCPClient_Bind T addr = T\<lparr> cl_local_addr := addr \<rparr>"

definition set_auto_reconnect :: "tcp_client \<Rightarrow> bool \<Rightarrow> tcp_client" where
  "set_auto_reconnect T v = T\<lparr> auto_reconnect := v \<rparr>"

definition set_reconnect_interval :: "tcp_client \<Rightarrow> int \<Rightarrow> tcp_client" where
  "set_reconnect_interval T d = T\<lparr> reconnect_interval := d \<rparr>"

definition set_connecting_timeout :: "tcp_client \<Rightarrow> int \<Rightarrow> tcp_client" where
  "set_connecting_timeout T d = T\<lparr> connecting_timeout := d \<rparr>"

section \<open>Connections of a client\<close>

definition TCPClient_OnConnection :: "loop_env \<Rightarrow> tcp_client \<Rightarrow> int \<Rightarrow> string \<Rightarrow> tcp_client option" where
  "TCPClient_OnConnection E T sockfd laddr =
     (if sockfd < 0 then do {
        c \<leftarrow> TCPConn_new [] sockfd laddr (cl_remote_addr T) 0;
        let T = T\<lparr> client_log := client_log T @ [(None, status c)] \<rparr>;
        TCPConn_delete c;
        Some T }
      else do {
        assert_that (inLoopThread E);
        let i = next_conn T;
        c \<leftarrow> TCPConn_new (cl_name T) sockfd laddr (cl_remote_addr T) (of_nat i);
        let c = c\<lparr> type_of_conn := kOutgoing, conn_fn := True, close_fn := True \<rparr>;
        let T = T\<lparr> next_conn := Suc i, cl_conn := Some i \<rparr>;
        c \<leftarrow> OnAttachedToLoop E c;
        Some (T\<lparr> conns := (conns T)(i \<mapsto> c), client_log := client_log T @ [(Some i, status c)] \<rparr>) })"

section \<open>The connector\<close>

definition Connector_new :: "pton \<Rightarrow> bytes \<Rightarrow> tcp_client \<Rightarrow> connector option" where
  "Connector_new pton junk T = do {
     hp \<leftarrow> SplitHostPort (cl_remote_addr T);
     let C = \<lparr> cn_status = cDisconnected, remote_host = [], remote_port = 0, raddr = junk,
               cn_timeout = connecting_timeout T, cn_fd = -1, own_fd = False, cn_chan = None,
               cn_timer = False, cn_dns = False, dns_functor = False \<rparr>;
     (case hp of
        None \<Rightarrow> Some C
      | Some (host, port) \<Rightarrow> do {
          ss \<leftarrow> ParseFromIPPort_value pton (cl_remote_addr T);
          Some (C\<lparr> remote_host := host, remote_port := port, raddr := ss \<rparr>) }) }"

definition Connector_delete :: "loop_env \<Rightarrow> connector \<Rightarrow> unit option" where
  "Connector_delete E C = do {
     assert_that (inLoopThread E);
     (if cn_status C = cDNSResolving then do {
        assert_that (cn_chan C = None);
        assert_that (\<not> cn_dns C);
        assert_that (\<not> cn_timer C);
        assert_that (cn_fd C < 0) }
      else if cn_status C \<noteq> cConnected then do {
        assert_that (own_fd C);
        ch \<leftarrow> cn_chan C;
        assert_that (chan_fd ch = cn_fd C) }
      else assert_that (cn_fd C < 0)) }"

text \<open>Closing the channel of a connector, if it has one.\<close>

definition close_chan :: "loop_env \<Rightarrow> connector \<Rightarrow> connector option" where
  "close_chan E C =
     (case cn_chan C of
        None \<Rightarrow> Some C
      | Some ch \<Rightarrow> do {
          ch \<leftarrow> DisableAllEvent E ch;
          ch \<leftarrow> FdChannel_Close ch;
          Some (C\<lparr> cn_chan := Some ch \<rparr>) })"

text \<open>\<open>serrno\<close> is \<open>errno\<close> on entry; \<open>i\<close> is the number of the connector.\<close>

definition Connector_HandleError :: "loop_env \<Rightarrow> int \<Rightarrow> nat \<Rightarrow> tcp_client \<times> connector \<Rightarrow>
    (tcp_client \<times> connector) option" where
  "Connector_HandleError E serrno i = (\<lambda>(T, C). do {
     assert_that (inLoopThread E);
     let C = C\<lparr> cn_status := cDisconnected \<rparr>;
     assert_that (cn_chan C \<noteq> None \<longrightarrow> cn_fd C > 0);
     C \<leftarrow> close_chan E C;
     let C = C\<lparr> cn_dns := False, dns_functor := False \<rparr>;
     assert_that (cn_timer C);
     let C = C\<lparr> cn_timer := False \<rparr>;
     T \<leftarrow> (if EVUTIL_ERR_CONNECT_REFUSED serrno \<or> \<not> auto_reconnect T
           then TCPClient_OnConnection E T (-1) [] else Some T);
     if auto_reconnect T then do {
       C \<leftarrow> (if cn_fd C > 0 then do { assert_that (own_fd C); Some (C\<lparr> cn_fd := -1 \<rparr>) } else Some C);
       Some (T\<lparr> retries := retries T @ [i] \<rparr>, C) }
     else Some (T, C) })"

definition Connector_Connect :: "loop_env \<Rightarrow> connect_env \<Rightarrow> nat \<Rightarrow> tcp_client \<times> connector \<Rightarrow>
    (tcp_client \<times> connector) option" where
  "Connector_Connect E K i = (\<lambda>(T, C). do {
     assert_that (cn_fd C = -1);
     let C = C\<lparr> cn_fd := new_fd K, own_fd := True \<rparr>;
     assert_that (cn_fd C \<ge> 0);
     let attempt = (do {
           ch \<leftarrow> FdChannel_new (cn_fd C) False True;
           (case cn_chan C of None \<Rightarrow> Some () | Some old \<Rightarrow> FdChannel_delete old);
           ch \<leftarrow> AttachToLoop E (SetWriteCallback ch);
           Some (T, C\<lparr> cn_status := cConnecting, cn_chan := Some ch \<rparr>) });
     (case (if cl_local_addr T \<noteq> [] then bind_errno K else None) of
        Some e \<Rightarrow> Connector_HandleError E e i (T, C)
      | None \<Rightarrow>
          (case connect_errno K of
             Some e \<Rightarrow> if \<not> EVUTIL_ERR_CONNECT_RETRIABLE e then Connector_HandleError E e i (T, C) else attempt
           | None \<Rightarrow> attempt)) })"

definition Connector_Start :: "loop_env \<Rightarrow> connect_env \<Rightarrow> nat \<Rightarrow> tcp_client \<times> connector \<Rightarrow>
    (tcp_client \<times> connector) option" where
  "Connector_Start E K i = (\<lambda>(T, C). do {
     assert_that (inLoopThread E);
     let C = C\<lparr> cn_timer := True \<rparr>;
     if \<not> IsZeroAddress (raddr C) then Connector_Connect E K i (T, C)
     else Some (T, C\<lparr> cn_status := cDNSResolving, cn_dns := True, dns_functor := True \<rparr>) })"

definition Connector_Cancel :: "loop_env \<Rightarrow> tcp_client \<times> connector \<Rightarrow> (tcp_client \<times> connector) option" where
  "Connector_Cancel E = (\<lambda>(T, C). do {
     assert_that (inLoopThread E);
     let C = C\<lparr> cn_dns := False, dns_functor := False \<rparr>;
     assert_that (cn_timer C);
     let C = C\<lparr> cn_timer := False \<rparr>;
     T \<leftarrow> (if cn_status C = cDNSResolving then do {
             assert_that (cn_chan C = None);
             TCPClient_OnConnection E T (-1) [] }
           else Some T);
     assert_that (cn_chan C \<noteq> None \<longrightarrow> cn_status C \<noteq> cDNSResolving);
     C \<leftarrow> close_chan E C;
     Some (T, C) })"

text \<open>\<open>err\<close> is the pending error of the socket, 0 when the connection is made.\<close>

definition Connector_HandleWrite :: "loop_env \<Rightarrow> int \<Rightarrow> string \<Rightarrow> nat \<Rightarrow> tcp_client \<times> connector \<Rightarrow>
    (tcp_client \<times> connector) option" where
  "Connector_HandleWrite E err laddr i = (\<lambda>(T, C).
     if cn_status C = cDisconnected then Some (T, C)
     else do {
       assert_that (cn_status C = cConnecting);
       if err \<noteq> 0 then Connector_HandleError E err i (T, C)
       else do {
         ch \<leftarrow> cn_chan C;
         assert_that (cn_fd C = chan_fd ch);
         T \<leftarrow> TCPClient_OnConnection E T (chan_fd ch) laddr;
         assert_that (cn_timer C);
         let C = C\<lparr> cn_timer := False \<rparr>;
         C \<leftarrow> close_chan E C;
         Some (T, C\<lparr> own_fd := False, cn_fd := -1, cn_status := cConnected \<rparr>) } })"

definition Connector_OnConnectTimeout :: "loop_env \<Rightarrow> nat \<Rightarrow> tcp_client \<times> connector \<Rightarrow>
    (tcp_client \<times> connector) option" where
  "Connector_OnConnectTimeout E i = (\<lambda>(T, C). do {
     assert_that (cn_status C = cConnecting \<or> cn_status C = cDNSResolving);
     Connector_HandleError E ETIMEDOUT i (T, C) })"

text \<open>
  The callback of the resolver, which releases it afterwards (\<open>dns_functor\<close>, the reference in
  \<open>DNSResolver::functor_\<close>). The resolved IPv4 addresses are four bytes each; \<open>serrno\<close> is
  \<open>errno\<close> when there is none.
\<close>

definition Connector_OnDNSResolved :: "loop_env \<Rightarrow> connect_env \<Rightarrow> int \<Rightarrow> bytes list \<Rightarrow> nat \<Rightarrow>
    tcp_client \<times> connector \<Rightarrow> (tcp_client \<times> connector) option" where
  "Connector_OnDNSResolved E K serrno addrs i = (\<lambda>(T, C).
     (case addrs of
        [] \<Rightarrow> do { assert_that (cn_dns C); Connector_HandleError E serrno i (T, C) }
      | a # as \<Rightarrow> do {
          ss \<leftarrow> memwrite (raddr C) 0 (mem16 AF_INET);
          ss \<leftarrow> memwrite ss 2 (mem16 (htons (word_of_int (remote_port C))));
          ss \<leftarrow> memwrite ss 4 a;
          (T, C) \<leftarrow> Connector_Connect E K i (T, C\<lparr> raddr := ss, cn_status := cDNSResolved \<rparr>);
          Some (T, C\<lparr> dns_functor := False \<rparr>) }))"

definition Connector_StatusToString :: "connector \<Rightarrow> string" where
  "Connector_StatusToString C =
     (case cn_status C of cDisconnected \<Rightarrow> ''kDisconnected'' | cDNSResolving \<Rightarrow> ''kDNSResolving''
      | cDNSResolved \<Rightarrow> ''kDNSResolved'' | cConnecting \<Rightarrow> ''kConnecting'' | cConnected \<Rightarrow> ''kConnected'')"

section \<open>The client's operations\<close>

text \<open>Running an operation of connector \<open>i\<close>.\<close>

definition on_connector :: "(tcp_client \<times> connector \<Rightarrow> (tcp_client \<times> connector) option) \<Rightarrow> nat \<Rightarrow>
    tcp_client \<Rightarrow> tcp_client option" where
  "on_connector f i T = do {
     C \<leftarrow> connectors T i;
     (T, C) \<leftarrow> f (T, C);
     Some (T\<lparr> connectors := (connectors T)(i \<mapsto> C) \<rparr>) }"

definition referenced :: "tcp_client \<Rightarrow> nat \<Rightarrow> connector \<Rightarrow> bool" where
  "referenced T i C \<longleftrightarrow> cl_connector T = Some i \<or> i \<in> set (retries T) \<or> cn_timer C \<or> dns_functor C \<or>
     (case cn_chan C of None \<Rightarrow> False | Some ch \<Rightarrow> write_fn ch)"

text \<open>Dropping a reference: the connector is destroyed when it was the last one.\<close>

definition drop_connector :: "loop_env \<Rightarrow> nat option \<Rightarrow> tcp_client \<Rightarrow> tcp_client option" where
  "drop_connector E p T =
     (case p of
        None \<Rightarrow> Some T
      | Some i \<Rightarrow>
          (case connectors T i of
             None \<Rightarrow> Some T
           | Some C \<Rightarrow> if referenced T i C then Some T
                       else do { Connector_delete E C; Some (T\<lparr> connectors := (connectors T)(i := None) \<rparr>) }))"

definition ConnectInLoop :: "loop_env \<Rightarrow> pton \<Rightarrow> bytes \<Rightarrow> connect_env \<Rightarrow> tcp_client \<Rightarrow> tcp_client option" where
  "ConnectInLoop E pton junk K T = do {
     assert_that (inLoopThread E);
     C \<leftarrow> Connector_new pton junk T;
     let i = next_connector T;
     let old = cl_connector T;
     let T = T\<lparr> connectors := (connectors T)(i \<mapsto> C), next_connector := Suc i, cl_connector := Some i \<rparr>;
     T \<leftarrow> drop_connector E old T;
     on_connector (Connector_Start E K i) i T }"

definition TCPClient_Connect :: "loop_env \<Rightarrow> pton \<Rightarrow> bytes \<Rightarrow> connect_env \<Rightarrow> tcp_client \<Rightarrow> tcp_client option" where
  "TCPClient_Connect E pton junk K T =
     (if inLoopThread E then ConnectInLoop E pton junk K T
      else Some (T\<lparr> client_tasks := Suc (client_tasks T) \<rparr>))"

definition TCPClient_Reconnect :: "loop_env \<Rightarrow> pton \<Rightarrow> bytes \<Rightarrow> connect_env \<Rightarrow> tcp_client \<Rightarrow> tcp_client option" where
  "TCPClient_Reconnect E pton junk K T = TCPClient_Connect E pton junk K T"

definition DisconnectInLoop :: "loop_env \<Rightarrow> tcp_client \<Rightarrow> tcp_client option" where
  "DisconnectInLoop E T = do {
     assert_that (inLoopThread E);
     let T = T\<lparr> auto_reconnect := False \<rparr>;
     T \<leftarrow> (case cl_conn T of
             Some i \<Rightarrow> do {
               c \<leftarrow> conns T i;
               assert_that (status c \<noteq> kDisconnected \<and> status c \<noteq> kDisconnecting);
               Some (T\<lparr> conns := (conns T)(i \<mapsto> TCPConn_Close c) \<rparr>) }
           | None \<Rightarrow> do {
               j \<leftarrow> cl_connector T;
               C \<leftarrow> connectors T j;
               assert_that (cn_status C \<noteq> cConnected);
               Some T });
     j \<leftarrow> cl_connector T;
     C \<leftarrow> connectors T j;
     T \<leftarrow> (if cn_status C = cConnected \<or> cn_status C = cDisconnected then Some T
           else on_connector (Connector_Cancel E) j T);
     drop_connector E (Some j) (T\<lparr> cl_connector := None \<rparr>) }"

definition TCPClient_Disconnect :: "loop_env \<Rightarrow> tcp_client \<Rightarrow> tcp_client option" where
  "TCPClient_Disconnect E T =
     (if inLoopThread E then DisconnectInLoop E T
      else Some (T\<lparr> disconnect_tasks := Suc (disconnect_tasks T) \<rparr>))"

definition OnRemoveConnection :: "loop_env \<Rightarrow> pton \<Rightarrow> bytes \<Rightarrow> connect_env \<Rightarrow> nat \<Rightarrow> tcp_client \<Rightarrow>
    tcp_client option" where
  "OnRemoveConnection E pton junk K i T = do {
     assert_that (cl_conn T = Some i);
     assert_that (inLoopThread E);
     let T = T\<lparr> cl_conn := None \<rparr>;
     if auto_reconnect T then TCPClient_Reconnect E pton junk K T else Some T }"

text \<open>
  The destructor: \<open>users\<close> is the number of references to a connection that is being closed.
\<close>

definition TCPClient_delete :: "tcp_client \<Rightarrow> nat \<Rightarrow> tcp_client option" where
  "TCPClient_delete T users = do {
     assert_that (cl_connector T = None);
     let T = T\<lparr> auto_reconnect := False \<rparr>;
     (case cl_conn T of
        None \<Rightarrow> Some T
      | Some i \<Rightarrow> do {
          c \<leftarrow> conns T i;
          assert_that (status c = kDisconnected \<or> status c = kDisconnecting);
          c \<leftarrow> (if status c = kDisconnecting then do {
                 assert_that (users \<ge> 3);
                 Some (c\<lparr> close_fn := False \<rparr>) }
               else Some c);
          Some (T\<lparr> conns := (conns T)(i \<mapsto> c), cl_conn := None \<rparr>) }) }"

text \<open>The timer of a scheduled retry fires: \<open>Connector::Start\<close> runs, then the timer's reference goes.\<close>

definition run_retry :: "loop_env \<Rightarrow> connect_env \<Rightarrow> tcp_client \<Rightarrow> tcp_client option" where
  "run_retry E K T =
     (case retries T of
        [] \<Rightarrow> Some T
      | i # is \<Rightarrow> do {
          T \<leftarrow> on_connector (Connector_Start E K i) i T;
          drop_connector E (Some i) (T\<lparr> retries := remove1 i (retries T) \<rparr>) })"

text \<open>
  An operation of the connection \<open>i\<close>, then the callbacks it made: the user's connection callback
  is logged, the close callback is \<open>OnRemoveConnection\<close>.
\<close>

definition client_event :: "loop_env \<Rightarrow> pton \<Rightarrow> bytes \<Rightarrow> connect_env \<Rightarrow> nat \<Rightarrow> tcp_client \<Rightarrow> conn_event \<Rightarrow>
    tcp_client option" where
  "client_event E pton junk K i T ev =
     (case ev of
        ConnCallback st \<Rightarrow> Some (T\<lparr> client_log := client_log T @ [(Some i, st)] \<rparr>)
      | CloseCallback \<Rightarrow> OnRemoveConnection E pton junk K i T)"

definition on_conn :: "loop_env \<Rightarrow> pton \<Rightarrow> bytes \<Rightarrow> connect_env \<Rightarrow> (tcp_conn \<Rightarrow> tcp_conn option) \<Rightarrow> nat \<Rightarrow>
    tcp_client \<Rightarrow> tcp_client option" where
  "on_conn E pton junk K f i T = do {
     c \<leftarrow> conns T i;
     c' \<leftarrow> f c;
     foldM (client_event E pton junk K i) (T\<lparr> conns := (conns T)(i \<mapsto> c') \<rparr>)
       (drop (length (conn_log c)) (conn_log c')) }"

section \<open>Phases of a client that reconnects\<close>

definition idle_chan :: "connector \<Rightarrow> bool" where
  "idle_chan C \<longleftrightarrow> (case cn_chan C of None \<Rightarrow> True | Some ch \<Rightarrow> \<not> event_present ch \<and> \<not> write_fn ch)"

text \<open>Between two attempts; resolving the host; connecting; and done, with the descriptor handed over.\<close>

definition cn_waiting :: "connector \<Rightarrow> bool" where
  "cn_waiting C \<longleftrightarrow> cn_status C = cDisconnected \<and> cn_fd C = -1 \<and> \<not> cn_timer C \<and> \<not> dns_functor C \<and>
     idle_chan C \<and> length (raddr C) = 128 \<and> (IsZeroAddress (raddr C) \<longrightarrow> cn_chan C = None)"

definition cn_resolving :: "connector \<Rightarrow> bool" where
  "cn_resolving C \<longleftrightarrow> cn_status C = cDNSResolving \<and> cn_fd C = -1 \<and> cn_timer C \<and> cn_dns C \<and>
     cn_chan C = None \<and> length (raddr C) = 128"

definition cn_trying :: "connector \<Rightarrow> bool" where
  "cn_trying C \<longleftrightarrow> cn_status C = cConnecting \<and> cn_fd C > 0 \<and> own_fd C \<and> cn_timer C \<and> \<not> dns_functor C \<and>
     (\<exists>ch. cn_chan C = Some ch \<and> chan_ok ch \<and> IsWritable ch \<and> chan_fd ch = cn_fd C) \<and>
     length (raddr C) = 128 \<and> \<not> IsZeroAddress (raddr C)"

definition cn_done :: "connector \<Rightarrow> bool" where
  "cn_done C \<longleftrightarrow> cn_status C = cConnected \<and> cn_fd C = -1 \<and> \<not> cn_timer C \<and> \<not> dns_functor C \<and> idle_chan C"

definition connected :: "tcp_client \<Rightarrow> bool" where
  "connected T \<longleftrightarrow> (\<exists>i c sent j C. cl_conn T = Some i \<and> conns T i = Some c \<and> conn_inv c sent \<and>
     status c \<noteq> kDisconnected \<and> close_fn c \<and> cl_connector T = Some j \<and> connectors T j = Some C \<and>
     cn_done C \<and> retries T = [])"

definition connecting :: "tcp_client \<Rightarrow> bool" where
  "connecting T \<longleftrightarrow> cl_conn T = None \<and> retries T = [] \<and> (\<exists>j C. cl_connector T = Some j \<and>
     connectors T j = Some C \<and> (cn_resolving C \<or> cn_trying C))"

definition waiting :: "tcp_client \<Rightarrow> bool" where
  "waiting T \<longleftrightarrow> cl_conn T = None \<and> (\<exists>j C. cl_connector T = Some j \<and> connectors T j = Some C \<and>
     cn_waiting C \<and> retries T = [j])"

definition client_ok :: "tcp_client \<Rightarrow> bool" where
  "client_ok T \<longleftrightarrow> (connected T \<or> connecting T \<or> waiting T) \<and> auto_reconnect T \<and>
     SplitHostPort (cl_remote_addr T) \<noteq> None \<and> (\<forall>i \<ge> next_connector T. connectors T i = None)"

text \<open>
  The environment: libevent works, \<open>inet_pton\<close> yields at most 16 bytes, and a connection attempt
  does not fail before it is under way.
\<close>

definition client_env_ok :: "loop_env \<Rightarrow> pton \<Rightarrow> bytes \<Rightarrow> bool" where
  "client_env_ok E pton junk \<longleftrightarrow> env_ok E \<and> length junk = 128 \<and>
     (\<forall>f s a. pton f s = Some a \<longrightarrow> length a \<le> 16)"

definition attempt_ok :: "connect_env \<Rightarrow> bool" where
  "attempt_ok K \<longleftrightarrow> new_fd K > 0 \<and> bind_errno K = None \<and>
     (case connect_errno K of None \<Rightarrow> True | Some e \<Rightarrow> EVUTIL_ERR_CONNECT_RETRIABLE e)"

lemma OnConnection_fail:
  "TCPClient_OnConnection E T (-1) l = Some (T\<lparr> client_log := client_log T @ [(None, kDisconnected)] \<rparr>)"
proof -
  obtain b where b: "Buffer_new kInitialSize kCheapPrependSize = Some b"
    using wp_Buffer_new [of kInitialSize kCheapPrependSize] by (auto simp: wp_def)
  then show ?thesis by (simp add: TCPClient_OnConnection_def TCPConn_new_def TCPConn_delete_def)
qed

lemma wp_OnConnection:
  assumes E: "env_ok E" and fd: "0 < fd"
  shows "wp (TCPClient_OnConnection E T fd l) (\<lambda>T'. \<exists>c. conn_inv c [] \<and> status c = kConnected \<and> close_fn c \<and>
           T' = T\<lparr> next_conn := Suc (next_conn T), cl_conn := Some (next_conn T),
                  conns := (conns T)(next_conn T \<mapsto> c),
                  client_log := client_log T @ [(Some (next_conn T), kConnected)] \<rparr>)"
proof -
  let ?n = "cl_name T" and ?r = "cl_remote_addr T" and ?i = "of_nat (next_conn T)"
  have "wp (TCPConn_new ?n fd l ?r ?i) (\<lambda>c. wp (OnAttachedToLoop E
      (c\<lparr> type_of_conn := kOutgoing, conn_fn := True, close_fn := True \<rparr>))
      (\<lambda>c'. conn_inv c' [] \<and> status c' = kConnected \<and> close_fn c'))"
  proof -
    obtain c where c: "TCPConn_new ?n fd l ?r ?i = Some c" and
      w: "wp (OnAttachedToLoop E (c\<lparr> type_of_conn := kOutgoing, close_delay := 0, conn_fn := True,
          close_fn := True, write_complete_fn := False, high_water_mark_fn := False,
          high_water_mark := 128 * 1024 * 1024 \<rparr>)) (\<lambda>c'. conn_inv c' [] \<and> status c' = kConnected \<and> close_fn c' = True)"
      using attach_inv [OF E fd, of ?n l ?r ?i "128 * 1024 * 1024" False False True True 0 kOutgoing]
      by (auto simp: wp_def [of "TCPConn_new ?n fd l ?r ?i"])
    note d = TCPConn_new_defaults [OF c]
    have "c\<lparr> type_of_conn := kOutgoing, close_delay := 0, conn_fn := True,
          close_fn := True, write_complete_fn := False, high_water_mark_fn := False,
          high_water_mark := 128 * 1024 * 1024 \<rparr> = c\<lparr> type_of_conn := kOutgoing, conn_fn := True, close_fn := True \<rparr>"
      by (rule tcp_conn.equality) (simp_all add: d)
    with c w show ?thesis by simp
  qed
  then show ?thesis
    using fd E by (auto simp: TCPClient_OnConnection_def env_ok_def Let_def elim!: wp_mono)
qed

lemma wp_close_chan:
  assumes E: "env_ok E" and ch: "case cn_chan C of None \<Rightarrow> True | Some ch \<Rightarrow> chan_ok ch"
  shows "wp (close_chan E C) (\<lambda>C'. idle_chan C' \<and> (\<exists>p. C' = C\<lparr> cn_chan := p \<rparr> \<and> (p = None \<longleftrightarrow> cn_chan C = None)))"
proof (cases "cn_chan C")
  case None
  then show ?thesis by (auto simp: close_chan_def idle_chan_def intro: exI [of _ None])
next
  case (Some ch)
  with ch have ok: "chan_ok ch" by simp
  have fin: "wp (FdChannel_Close c) (\<lambda>c'. \<not> event_present c' \<and> \<not> write_fn c')"
    if "chan_ok c" "\<not> attached c" for c
    by (rule wp_mono [OF wp_FdChannel_Close [OF that]]) simp
  show ?thesis
    using Some by (auto simp: close_chan_def idle_chan_def
        intro!: wp_mono [OF wp_event_ops(5) [OF E ok]] wp_mono [OF fin])
qed

lemma wp_Connector_HandleError:
  assumes E: "env_ok E" and auto: "auto_reconnect T" and t: "cn_timer C"
    and ch: "case cn_chan C of None \<Rightarrow> cn_fd C = -1 | Some ch \<Rightarrow> chan_ok ch \<and> cn_fd C > 0 \<and> own_fd C"
    and r: "length (raddr C) = 128" "IsZeroAddress (raddr C) \<longrightarrow> cn_chan C = None"
  shows "wp (Connector_HandleError E e i (T, C)) (\<lambda>(T', C'). cn_waiting C' \<and>
           T'\<lparr> client_log := [] \<rparr> = T\<lparr> client_log := [], retries := retries T @ [i] \<rparr>)"
proof -
  let ?C = "C\<lparr> cn_status := cDisconnected \<rparr>"
  have c: "case cn_chan ?C of None \<Rightarrow> True | Some ch \<Rightarrow> chan_ok ch" using ch by (auto split: option.splits)
  have E': "inLoopThread E" using E by (simp add: env_ok_def)
  have fd: "cn_fd C \<le> 0 \<longrightarrow> cn_fd C = -1" "cn_fd C > 0 \<longrightarrow> own_fd C" "cn_chan C \<noteq> None \<longrightarrow> cn_fd C > 0"
    using ch by (auto split: option.splits)
  show ?thesis
    using E' t auto r fd
    by (auto simp: Connector_HandleError_def Let_def OnConnection_fail cn_waiting_def idle_chan_def
        intro!: wp_mono [OF wp_close_chan [OF E c]] split: option.splits)
qed

lemma wp_Connector_Connect:
  assumes E: "env_ok E" and K: "attempt_ok K" and t: "cn_timer C" and fd: "cn_fd C = -1"
    and ch: "idle_chan C" and r: "length (raddr C) = 128" "\<not> IsZeroAddress (raddr C)"
  shows "wp (Connector_Connect E K i (T, C)) (\<lambda>(T', C'). T' = T \<and> cn_trying (C'\<lparr> dns_functor := False \<rparr>) \<and>
           dns_functor C' = dns_functor C)"
proof -
  have attach: "wp (AttachToLoop E (SetWriteCallback c)) (\<lambda>c'. chan_ok c' \<and> IsWritable c' \<and> chan_fd c' = chan_fd c)"
    if "c = \<lparr> read_fn = False, write_fn = False, attached = False, event_present = True,
            events = kWritable, chan_fd = new_fd K \<rparr>" for c
    using E that by (simp add: AttachToLoop_def SetWriteCallback_def IsNoneEvent_def chan_ok_def mask_ok_def
        IsWritable_def env_ok_def event_consts)
  have old: "wp (case cn_chan C of None \<Rightarrow> Some () | Some old \<Rightarrow> FdChannel_delete old) (\<lambda>_. True)"
    using ch by (auto simp: idle_chan_def FdChannel_delete_def split: option.splits)
  have "wp (do { ch \<leftarrow> FdChannel_new (new_fd K) False True;
                 (case cn_chan C of None \<Rightarrow> Some () | Some old \<Rightarrow> FdChannel_delete old);
                 ch \<leftarrow> AttachToLoop E (SetWriteCallback ch);
                 Some (T, C\<lparr> cn_fd := new_fd K, own_fd := True, cn_status := cConnecting, cn_chan := Some ch \<rparr>) })
        (\<lambda>(T', C'). T' = T \<and> cn_trying (C'\<lparr> dns_functor := False \<rparr>) \<and> dns_functor C' = dns_functor C)"
    using K t r by (auto simp: attempt_ok_def FdChannel_new_def cn_trying_def
        intro!: wp_mono [OF old] wp_mono [OF attach])
  with K fd show ?thesis
    by (auto simp: Connector_Connect_def Let_def attempt_ok_def split: option.splits)
qed

lemma wp_Connector_Start:
  assumes E: "env_ok E" and K: "attempt_ok K" and C: "cn_waiting C"
  shows "wp (Connector_Start E K i (T, C)) (\<lambda>(T', C'). T' = T \<and> (cn_trying C' \<or> cn_resolving C'))"
proof (cases "IsZeroAddress (raddr C)")
  case True
  with C E show ?thesis
    by (auto simp: Connector_Start_def Let_def cn_waiting_def cn_resolving_def env_ok_def)
next
  case False
  with C have "wp (Connector_Connect E K i (T, C\<lparr> cn_timer := True \<rparr>)) (\<lambda>(T', C'). T' = T \<and> cn_trying C')"
    by (intro wp_mono [OF wp_Connector_Connect [OF E K]]) (auto simp: cn_waiting_def idle_chan_def cn_trying_def)
  with False E show ?thesis by (auto simp: Connector_Start_def Let_def env_ok_def elim!: wp_mono)
qed

lemma wp_Connector_HandleWrite:
  assumes E: "env_ok E" and C: "cn_trying C"
  shows "wp (Connector_HandleWrite E 0 l i (T, C)) (\<lambda>(T', C'). cn_done C' \<and> (\<exists>c lg. conn_inv c [] \<and>
           status c = kConnected \<and> close_fn c \<and> T' = T\<lparr> next_conn := Suc (next_conn T),
             cl_conn := Some (next_conn T), conns := (conns T)(next_conn T \<mapsto> c), client_log := lg \<rparr>))"
proof -
  obtain ch where ch: "cn_chan C = Some ch" "chan_ok ch" "chan_fd ch = cn_fd C" "cn_fd C > 0"
    using C by (auto simp: cn_trying_def)
  have c: "case cn_chan (C\<lparr> cn_timer := False \<rparr>) of None \<Rightarrow> True | Some ch \<Rightarrow> chan_ok ch" using ch by simp
  have fin: "wp (close_chan E (C\<lparr> cn_timer := False \<rparr>)) (\<lambda>C'. cn_done (C'\<lparr> own_fd := False, cn_fd := -1,
      cn_status := cConnected \<rparr>))"
    using C by (intro wp_mono [OF wp_close_chan [OF E c]]) (auto simp: cn_done_def cn_trying_def idle_chan_def)
  show ?thesis
    using C ch
    by (auto simp: Connector_HandleWrite_def cn_trying_def Let_def
        intro!: wp_mono [OF wp_OnConnection [OF E ch(4)]] wp_mono [OF fin])
qed

section \<open>Runs of a client that reconnects\<close>

text \<open>
  The events of a client: the socket of the attempt becomes writable, the time-out of the attempt
  fires, the host is resolved, the retry is due, or something happens to the connection. Every
  event comes with the kernel's answers to the attempt that it may start.
\<close>

datatype client_op =
    ClWritable int string | ClTimeout | ClResolved int "bytes list" | ClRetry | ClConn conn_op

fun client_do :: "loop_env \<Rightarrow> pton \<Rightarrow> bytes \<Rightarrow> connect_env \<Rightarrow> ksend \<Rightarrow> client_op \<Rightarrow> tcp_client \<Rightarrow>
    tcp_client option" where
  "client_do E pton junk K S (ClWritable err laddr) T =
     do { j \<leftarrow> cl_connector T; on_connector (Connector_HandleWrite E err laddr j) j T }"
| "client_do E pton junk K S ClTimeout T =
     do { j \<leftarrow> cl_connector T; on_connector (Connector_OnConnectTimeout E j) j T }"
| "client_do E pton junk K S (ClResolved serrno addrs) T =
     do { j \<leftarrow> cl_connector T; on_connector (Connector_OnDNSResolved E K serrno addrs j) j T }"
| "client_do E pton junk K S ClRetry T = run_retry E K T"
| "client_do E pton junk K S (ClConn a) T =
     do { i \<leftarrow> cl_conn T; on_conn E pton junk K (conn_do E S a) i T }"

fun client_enabled :: "client_op \<Rightarrow> tcp_client \<Rightarrow> bool" where
  "client_enabled (ClWritable err laddr) T \<longleftrightarrow>
     (\<exists>j C. cl_connector T = Some j \<and> connectors T j = Some C \<and> cn_status C = cConnecting)"
| "client_enabled ClTimeout T \<longleftrightarrow>
     (\<exists>j C. cl_connector T = Some j \<and> connectors T j = Some C \<and> cn_timer C)"
| "client_enabled (ClResolved serrno addrs) T \<longleftrightarrow> (\<forall>a \<in> set addrs. length a = 4) \<and>
     (\<exists>j C. cl_connector T = Some j \<and> connectors T j = Some C \<and> cn_status C = cDNSResolving)"
| "client_enabled ClRetry T \<longleftrightarrow> retries T \<noteq> []"
| "client_enabled (ClConn a) T \<longleftrightarrow>
     (\<exists>i c. cl_conn T = Some i \<and> conns T i = Some c \<and> conn_enabled a c)"

lemma phase_cases:
  assumes "client_ok T" and "cl_connector T = Some j" and "connectors T j = Some C"
  shows "cn_status C = cConnecting \<Longrightarrow> cn_trying C" and "cn_status C = cDNSResolving \<Longrightarrow> cn_resolving C"
    and "cn_timer C \<Longrightarrow> cn_trying C \<or> cn_resolving C"
    and "cn_trying C \<or> cn_resolving C \<Longrightarrow> cl_conn T = None \<and> retries T = []"
  using assms by (auto simp: client_ok_def connected_def connecting_def waiting_def cn_done_def
      cn_trying_def cn_resolving_def cn_waiting_def)

lemma failed_waits:
  assumes ok: "client_ok T" and E: "env_ok E" and j: "cl_connector T = Some j" "connectors T j = Some C"
    and C: "cn_trying C \<or> cn_resolving C"
  shows "wp (on_connector (Connector_HandleError E e j) j T) (\<lambda>T'. client_ok T' \<and> waiting T')"
proof -
  note p = phase_cases(4) [OF ok j C]
  have h: "wp (Connector_HandleError E e j (T, C)) (\<lambda>(T', C'). cn_waiting C' \<and>
           T'\<lparr> client_log := [] \<rparr> = T\<lparr> client_log := [], retries := retries T @ [j] \<rparr>)"
    using ok C by (intro wp_Connector_HandleError [OF E])
      (auto simp: client_ok_def cn_trying_def cn_resolving_def)
  have "client_ok (T'\<lparr> connectors := (connectors T')(j \<mapsto> C') \<rparr>) \<and>
        waiting (T'\<lparr> connectors := (connectors T')(j \<mapsto> C') \<rparr>)"
    if "cn_waiting C'" "T'\<lparr> client_log := [] \<rparr> = T\<lparr> client_log := [], retries := retries T @ [j] \<rparr>" for T' C'
  proof -
    have "cl_conn T' = None" "cl_connector T' = Some j" "retries T' = [j]" "auto_reconnect T' = auto_reconnect T"
      "cl_remote_addr T' = cl_remote_addr T" "connectors T' = connectors T" "next_connector T' = next_connector T"
      using arg_cong [OF that(2), of cl_conn] arg_cong [OF that(2), of cl_connector]
        arg_cong [OF that(2), of retries] arg_cong [OF that(2), of auto_reconnect]
        arg_cong [OF that(2), of cl_remote_addr] arg_cong [OF that(2), of connectors]
        arg_cong [OF that(2), of next_connector] p j by simp_all
    then show ?thesis using ok that(1) j by (auto simp: client_ok_def waiting_def)
  qed
  then show ?thesis using h j by (auto simp: on_connector_def elim!: wp_mono)
qed

lemma writable_connects:
  assumes ok: "client_ok T" and E: "env_ok E" and j: "cl_connector T = Some j" "connectors T j = Some C"
    and C: "cn_trying C"
  shows "wp (on_connector (Connector_HandleWrite E 0 l j) j T) (\<lambda>T'. client_ok T' \<and> connected T')"
proof -
  note p = phase_cases(4) [OF ok j disjI1 [OF C]]
  have fin: "client_ok T' \<and> connected T'"
    if "cn_done C'" "conn_inv c []" "status c = kConnected" "close_fn c"
      "T' = T\<lparr> next_conn := Suc (next_conn T), cl_conn := Some (next_conn T),
           conns := (conns T)(next_conn T \<mapsto> c), client_log := lg, connectors := (connectors T)(j \<mapsto> C') \<rparr>"
    for T' C' c lg
  proof -
    have "connected T'" unfolding connected_def that(5) using that(1-4) p j
      by (intro exI [of _ "next_conn T"] exI [of _ c] exI [of _ "[]"] exI [of _ j] exI [of _ C']) simp
    with ok j that(5) show ?thesis by (auto simp: client_ok_def)
  qed
  show ?thesis
    using j by (auto simp: on_connector_def intro!: wp_mono [OF wp_Connector_HandleWrite [OF E C]]
        fin [THEN conjunct1, OF _ _ _ _ refl] fin [THEN conjunct2, OF _ _ _ _ refl])
qed

lemma wp_ParseFromIPPort_value:
  assumes "SplitHostPort a \<noteq> None" and "\<And>f s a. pton f s = Some a \<Longrightarrow> length a \<le> 16"
  shows "wp (ParseFromIPPort_value pton a) (\<lambda>ss. length ss = 128)"
proof -
  obtain hp where "SplitHostPort a = Some hp" using assms(1) by blast
  then show ?thesis using assms(2)
    by (fastforce simp: ParseFromIPPort_value_def ParseFromIPPort_def Let_def split: option.splits)
qed

lemma wp_Connector_new:
  assumes E: "client_env_ok E pton junk" and a: "SplitHostPort (cl_remote_addr T) \<noteq> None"
  shows "wp (Connector_new pton junk T) cn_waiting"
proof -
  obtain hp where hp: "SplitHostPort (cl_remote_addr T) = Some hp" using a by blast
  show ?thesis
  proof (cases hp)
    case None
    with hp E show ?thesis by (simp add: Connector_new_def Let_def cn_waiting_def idle_chan_def client_env_ok_def)
  next
    case (Some q)
    have "wp (ParseFromIPPort_value pton (cl_remote_addr T)) (\<lambda>ss. length ss = 128)"
      using E by (intro wp_ParseFromIPPort_value [OF a]) (auto simp: client_env_ok_def)
    with hp Some show ?thesis
      by (auto simp: Connector_new_def Let_def cn_waiting_def idle_chan_def split: prod.splits elim!: wp_mono)
  qed
qed

lemma drop_done:
  assumes "env_ok E" and "connectors T j = Some C" and "cn_done C" and "cl_connector T \<noteq> Some j" and "retries T = []"
  shows "drop_connector E (Some j) T = Some (T\<lparr> connectors := (connectors T)(j := None) \<rparr>)"
  using assms by (auto simp: drop_connector_def referenced_def cn_done_def idle_chan_def Connector_delete_def
      env_ok_def split: option.splits)

lemma ConnectInLoop_ok:
  assumes E: "client_env_ok E pton junk" and K: "attempt_ok K" and a: "SplitHostPort (cl_remote_addr T) \<noteq> None"
    and T: "auto_reconnect T" "cl_conn T = None" "retries T = []" "\<forall>i \<ge> next_connector T. connectors T i = None"
    and old: "case cl_connector T of None \<Rightarrow> True | Some j \<Rightarrow> \<exists>C. connectors T j = Some C \<and> cn_done C"
  shows "wp (ConnectInLoop E pton junk K T) (\<lambda>T'. client_ok T' \<and> connecting T')"
proof -
  have E': "env_ok E" "inLoopThread E" using E by (auto simp: client_env_ok_def env_ok_def)
  let ?i = "next_connector T"
  let ?T1 = "\<lambda>C. T\<lparr> connectors := (connectors T)(?i \<mapsto> C), next_connector := Suc ?i, cl_connector := Some ?i \<rparr>"
  have drop: "wp (drop_connector E (cl_connector T) (?T1 C)) (\<lambda>T'. \<exists>cs. T' = (?T1 C)\<lparr> connectors := cs \<rparr> \<and>
      cs ?i = Some C \<and> (\<forall>i > ?i. cs i = None))" if "cn_waiting C" for C
  proof (cases "cl_connector T")
    case None
    with T show ?thesis
      by (auto simp: drop_connector_def intro!: exI [of _ "(connectors T)(?i \<mapsto> C)"])
  next
    case (Some j)
    with old obtain D where D: "connectors T j = Some D" "cn_done D" by auto
    have ne: "j \<noteq> ?i" using T(4) D(1) by auto
    have "drop_connector E (Some j) (?T1 C) = Some ((?T1 C)\<lparr> connectors := (connectors (?T1 C))(j := None) \<rparr>)"
      by (rule drop_done [OF E'(1), where C = D]) (use D ne T(3) in auto)
    with Some T ne show ?thesis
      by (auto intro!: exI [of _ "(connectors T)(?i \<mapsto> C, j := None)"])
  qed
  have start: "wp (on_connector (Connector_Start E K ?i) ?i T1) (\<lambda>T'. client_ok T' \<and> connecting T')"
    if "cn_waiting C" "T1 = (?T1 C)\<lparr> connectors := cs \<rparr>" "cs ?i = Some C" "\<forall>i > ?i. cs i = None" for C T1 cs
    using that T a by (auto simp: on_connector_def client_ok_def connecting_def
        intro!: wp_mono [OF wp_Connector_Start [OF E'(1) K that(1)]])
  show ?thesis
    using E'(2) by (auto simp: ConnectInLoop_def Let_def
        intro!: wp_mono [OF wp_Connector_new [OF E a]] wp_mono [OF drop] start)
qed

lemma resolved_connects:
  assumes ok: "client_ok T" and E: "env_ok E" and K: "attempt_ok K"
    and j: "cl_connector T = Some j" "connectors T j = Some C"
    and C: "cn_resolving C" and a: "length a = 4"
  shows "wp (on_connector (Connector_OnDNSResolved E K e (a # as) j) j T) (\<lambda>T'. client_ok T' \<and> connecting T')"
proof -
  note p = phase_cases(4) [OF ok j disjI2 [OF C]]
  let ?ss = "mem16 AF_INET @ mem16 (htons (word_of_int (remote_port C))) @ a @ drop 8 (raddr C)"
  let ?C = "C\<lparr> raddr := ?ss, cn_status := cDNSResolved \<rparr>"
  have l: "length (raddr C) = 128" using C by (simp add: cn_resolving_def)
  have ss: "length ?ss = 128" "\<not> IsZeroAddress ?ss" using l a by (simp_all add: IsZeroAddress_def mem16_def AF_INET_def)
  have "wp (Connector_Connect E K j (T, ?C)) (\<lambda>(T', C'). T' = T \<and> cn_trying (C'\<lparr> dns_functor := False \<rparr>) \<and>
      dns_functor C' = dns_functor ?C)"
    using C ss by (intro wp_Connector_Connect [OF E K]) (auto simp: cn_resolving_def idle_chan_def)
  then have "wp (Connector_OnDNSResolved E K e (a # as) j (T, C)) (\<lambda>(T', C'). T' = T \<and> cn_trying C')"
    using l a by (auto simp: Connector_OnDNSResolved_def elim!: wp_mono)
  then show ?thesis
    using ok p j by (auto simp: on_connector_def client_ok_def connecting_def elim!: wp_mono)
qed

lemma retry_connects:
  assumes ok: "client_ok T" and w: "waiting T" and E: "env_ok E" and K: "attempt_ok K"
  shows "wp (run_retry E K T) (\<lambda>T'. client_ok T' \<and> connecting T')"
proof -
  obtain j C where j: "cl_connector T = Some j" "connectors T j = Some C" "cn_waiting C" "retries T = [j]"
      "cl_conn T = None"
    using w by (auto simp: waiting_def)
  show ?thesis
    using ok j by (auto simp: run_retry_def on_connector_def drop_connector_def referenced_def client_ok_def
        connecting_def intro!: wp_mono [OF wp_Connector_Start [OF E K j(3)]])
qed

lemma events_keep:
  assumes ok: "client_ok T" and c: "connected T" and E: "client_env_ok E pton junk" and K: "attempt_ok K"
    and i: "cl_conn T = Some i" "conns T i = Some c" and c': "conn_inv c' sent" "logged c c'"
  shows "wp (foldM (client_event E pton junk K i) (T\<lparr> conns := (conns T)(i \<mapsto> c') \<rparr>)
       (drop (length (conn_log c)) (conn_log c'))) client_ok"
proof -
  obtain j C where h: "status c \<noteq> kDisconnected" "close_fn c"
      "cl_connector T = Some j" "connectors T j = Some C" "cn_done C" "retries T = []"
    using c i by (auto simp: connected_def)
  have E': "env_ok E" using E by (simp add: client_env_ok_def)
  show ?thesis
  proof (cases "status c' = kDisconnected")
    case False
    with c' h i ok show ?thesis
      by (auto simp: logged_def client_ok_def connected_def)
  next
    case True
    have "wp (ConnectInLoop E pton junk K T1) client_ok"
      if "cl_conn T1 = None" "auto_reconnect T1" "cl_remote_addr T1 = cl_remote_addr T" "retries T1 = []"
        "connectors T1 = connectors T" "next_connector T1 = next_connector T" "cl_connector T1 = Some j" for T1
      by (rule wp_mono [OF ConnectInLoop_ok [OF E K]]) (use ok h that in \<open>auto simp: client_ok_def\<close>)
    with True c'(2) h i ok E' show ?thesis
      by (auto simp: logged_def close_events_def client_event_def OnRemoveConnection_def TCPClient_Reconnect_def
          TCPClient_Connect_def env_ok_def client_ok_def Let_def)
  qed
qed

lemma conn_op_keeps:
  assumes ok: "client_ok T" and c: "connected T" and E: "client_env_ok E pton junk" and K: "attempt_ok K"
    and S: "kernel_ok S" and i: "cl_conn T = Some i" "conns T i = Some c" and a: "conn_enabled a c"
  shows "wp (on_conn E pton junk K (conn_do E S a) i T) client_ok"
proof -
  obtain sent where h: "conn_inv c sent" "status c \<noteq> kDisconnected" using c i by (auto simp: connected_def)
  have E': "env_ok E" using E by (simp add: client_env_ok_def)
  have do_op: "wp (conn_do E S a c) (\<lambda>c'. (\<exists>sent. conn_inv c' sent) \<and> logged c c')"
    using wp_conj [OF wp_conn_do [OF E' S h(1) a] wp_conn_do_logged [OF E' S h(1) a h(2)]] by (auto elim!: wp_mono)
  show ?thesis using i events_keep [OF ok c E K i] by (auto simp: on_conn_def intro!: wp_mono [OF do_op])
qed

text \<open>The callbacks of a connection start at most an attempt: they do not touch the connections.\<close>

lemma OnConnection_fail_conns: "TCPClient_OnConnection E T (-1) l = Some T' \<Longrightarrow> conns T' = conns T"
  by (auto simp: TCPClient_OnConnection_def Let_def split: Option.bind_split_asm)

lemma HandleError_conns: "Connector_HandleError E e i (T, C) = Some (T', C') \<Longrightarrow> conns T' = conns T"
  by (auto simp: Connector_HandleError_def Let_def split: Option.bind_split_asm if_split_asm
      dest!: OnConnection_fail_conns)

lemma Connector_Connect_conns: "Connector_Connect E K i (T, C) = Some (T', C') \<Longrightarrow> conns T' = conns T"
  by (auto simp: Connector_Connect_def Let_def split: Option.bind_split_asm if_split_asm option.split_asm
      dest!: HandleError_conns)

lemma Connector_Start_conns: "Connector_Start E K i (T, C) = Some (T', C') \<Longrightarrow> conns T' = conns T"
  by (auto simp: Connector_Start_def Let_def split: Option.bind_split_asm if_split_asm dest!: Connector_Connect_conns)

lemma drop_connector_conns: "drop_connector E p T = Some T' \<Longrightarrow> conns T' = conns T"
  by (auto simp: drop_connector_def split: option.split_asm if_split_asm Option.bind_split_asm)

lemma client_event_conns: "client_event E pton junk K i T ev = Some T' \<Longrightarrow> conns T' = conns T"
  by (auto simp: client_event_def OnRemoveConnection_def TCPClient_Reconnect_def TCPClient_Connect_def ConnectInLoop_def
      on_connector_def Let_def split: conn_event.split_asm Option.bind_split_asm if_split_asm
      dest!: Connector_Start_conns drop_connector_conns)

lemma events_conns: "foldM (client_event E pton junk K i) T evs = Some T' \<Longrightarrow> conns T' = conns T"
proof (induction evs arbitrary: T)
  case (Cons ev evs)
  then show ?case by (auto split: Option.bind_split_asm dest: client_event_conns)
qed simp

text \<open>A client that was told to connect, and everything that can follow.\<close>

inductive client_reach :: "loop_env \<Rightarrow> pton \<Rightarrow> bytes \<Rightarrow> tcp_client \<Rightarrow> bool" for E pton junk where
  start: "SplitHostPort addr \<noteq> None \<Longrightarrow> attempt_ok K \<Longrightarrow>
    TCPClient_Connect E pton junk K (TCPClient_Bind (TCPClient_new addr n) l) = Some T \<Longrightarrow>
    client_reach E pton junk T"
| step: "client_reach E pton junk T \<Longrightarrow> attempt_ok K \<Longrightarrow> kernel_ok S \<Longrightarrow> client_enabled a T \<Longrightarrow>
    client_do E pton junk K S a T = Some T' \<Longrightarrow> client_reach E pton junk T'"

lemma wp_client_do:
  assumes ok: "client_ok T" and E: "client_env_ok E pton junk" and K: "attempt_ok K" and S: "kernel_ok S"
    and a: "client_enabled a T"
  shows "wp (client_do E pton junk K S a T) client_ok"
proof -
  have E': "env_ok E" using E by (simp add: client_env_ok_def)
  show ?thesis
  proof (cases a)
    case (ClWritable err l)
    with a obtain j C where j: "cl_connector T = Some j" "connectors T j = Some C" "cn_status C = cConnecting"
      by auto
    note t = phase_cases(1) [OF ok j(1,2,3)]
    have "on_connector (Connector_HandleWrite E err l j) j T = on_connector (Connector_HandleError E err j) j T"
      if "err \<noteq> 0" using that j by (simp add: on_connector_def Connector_HandleWrite_def)
    with ClWritable j t writable_connects [OF ok E' j(1,2) t, of l] failed_waits [OF ok E' j(1,2), of err] show ?thesis
      by (cases "err = 0") (auto elim!: wp_mono)
  next
    case ClTimeout
    with a obtain j C where j: "cl_connector T = Some j" "connectors T j = Some C" "cn_timer C" by auto
    note t = phase_cases(3) [OF ok j]
    have "on_connector (Connector_OnConnectTimeout E j) j T = on_connector (Connector_HandleError E ETIMEDOUT j) j T"
      using t j by (auto simp: on_connector_def Connector_OnConnectTimeout_def cn_trying_def cn_resolving_def)
    with ClTimeout j failed_waits [OF ok E' j(1,2) t, of ETIMEDOUT] show ?thesis by (auto elim!: wp_mono)
  next
    case (ClResolved e as)
    with a obtain j C where j: "cl_connector T = Some j" "connectors T j = Some C" "cn_status C = cDNSResolving"
      and l: "\<forall>a \<in> set as. length a = 4" by auto
    note t = phase_cases(2) [OF ok j(1,2,3)]
    have "on_connector (Connector_OnDNSResolved E K e [] j) j T = on_connector (Connector_HandleError E e j) j T"
      using t j by (simp add: on_connector_def Connector_OnDNSResolved_def cn_resolving_def)
    with ClResolved j l t failed_waits [OF ok E' j(1,2), of e] resolved_connects [OF ok E' K j(1,2) t, of "hd as" e "tl as"]
    show ?thesis by (cases as) (auto elim!: wp_mono)
  next
    case ClRetry
    with a ok have "waiting T" by (auto simp: client_ok_def connected_def connecting_def)
    with ClRetry retry_connects [OF ok _ E' K] show ?thesis by (auto elim!: wp_mono)
  next
    case (ClConn x)
    with a obtain i c where i: "cl_conn T = Some i" "conns T i = Some c" "conn_enabled x c" by auto
    with ok have "connected T" by (auto simp: client_ok_def connecting_def waiting_def)
    with ClConn i conn_op_keeps [OF ok _ E K S i(1,2,3)] show ?thesis by simp
  qed
qed

lemma client_reach_ok:
  assumes E: "client_env_ok E pton junk" and r: "client_reach E pton junk T"
  shows "client_ok T"
  using r
proof induction
  case (start addr K n l T)
  have "wp (ConnectInLoop E pton junk K (TCPClient_Bind (TCPClient_new addr n) l)) (\<lambda>T'. client_ok T' \<and> connecting T')"
    using start(1) by (intro ConnectInLoop_ok [OF E start(2)]) (simp_all add: TCPClient_new_def TCPClient_Bind_def)
  with start E show ?case by (simp add: TCPClient_Connect_def client_env_ok_def env_ok_def wp_def)
next
  case (step T K S a T')
  from wp_client_do [OF step.IH E step.hyps(2-4)] step.hyps(5) show ?case by (simp add: wp_def)
qed

section \<open>Properties\<close>


definition sample_attempt :: connect_env where
  "sample_attempt = \<lparr> new_fd = 7, bind_errno = None, connect_errno = Some EINPROGRESS \<rparr>"

definition sample_pton :: pton where
  "sample_pton f s = Some [10, 0, 0, 7]"

definition sample_client :: tcp_client where
  "sample_client = TCPClient_Bind (TCPClient_new (''h'' @ '':'' @ to_string 80) ''c'') []"

lemma sample_client_env: "client_env_ok sample_env sample_pton (replicate 128 0)" "attempt_ok sample_attempt"
  using sample_ok(1) by (simp_all add: client_env_ok_def sample_pton_def attempt_ok_def sample_attempt_def
      EVUTIL_ERR_CONNECT_RETRIABLE_def)

lemma sample_client_host: "SplitHostPort (''h'' @ '':'' @ to_string 80) = Some (Some (''h'', int 80))"
  by (rule SplitHostPort_plain) simp_all

lemma sample_client_reach:
  "\<exists>T. TCPClient_Connect sample_env sample_pton (replicate 128 0) sample_attempt sample_client = Some T \<and>
     client_reach sample_env sample_pton (replicate 128 0) T"
proof -
  have "wp (ConnectInLoop sample_env sample_pton (replicate 128 0) sample_attempt sample_client)
      (\<lambda>T'. client_ok T' \<and> connecting T')"
    using sample_client_host
    by (intro ConnectInLoop_ok [OF sample_client_env]) (simp_all add: sample_client_def TCPClient_new_def TCPClient_Bind_def)
  then obtain T where T: "TCPClient_Connect sample_env sample_pton (replicate 128 0) sample_attempt sample_client = Some T"
    using sample_ok(1) by (auto simp: TCPClient_Connect_def env_ok_def wp_def)
  from client_reach.start [OF _ sample_client_env(2) T [unfolded sample_client_def]] sample_client_host T
  show ?thesis by auto
qed


lemma closed_chan_again:
  assumes "cn_chan C = Some ch" and "\<not> event_present ch"
  shows "close_chan E C = None"
  using assms by (auto simp: close_chan_def DisableAllEvent_def FdChannel_Update_def IsNoneEvent_def
      DetachFromLoop_def FdChannel_Close_def assert_that_def)

text \<open>An attempt that the kernel refuses at once.\<close>

definition fails_at_once :: "connect_env \<Rightarrow> bool" where
  "fails_at_once K \<longleftrightarrow> new_fd K > 0 \<and> bind_errno K = None \<and>
     (case connect_errno K of None \<Rightarrow> False | Some e \<Rightarrow> \<not> EVUTIL_ERR_CONNECT_RETRIABLE e)"

lemma Connector_Start_fails:
  assumes C: "cn_waiting C" "cn_chan C \<noteq> None" and K: "fails_at_once K"
  shows "Connector_Start E K i (T, C) = None"
proof -
  obtain ch where ch: "cn_chan C = Some ch" "\<not> event_present ch"
    using C by (auto simp: cn_waiting_def idle_chan_def)
  have "\<not> IsZeroAddress (raddr C)" using C by (auto simp: cn_waiting_def)
  with C K ch show ?thesis
    by (auto simp: Connector_Start_def Connector_Connect_def Connector_HandleError_def Let_def fails_at_once_def
        closed_chan_again cn_waiting_def assert_that_def split: option.splits)
qed

text \<open>Connectors of the three kinds for the samples.\<close>

definition sample_connector :: connector where
  "sample_connector = \<lparr> cn_status = cDisconnected, remote_host = ''h'', remote_port = 80,
     raddr = mem16 AF_INET @ replicate 126 0, cn_timeout = 0, cn_fd = -1, own_fd = False, cn_chan = None,
     cn_timer = False, cn_dns = False, dns_functor = False \<rparr>"

definition sample_trying :: connector where
  "sample_trying = sample_connector\<lparr> cn_status := cConnecting, cn_fd := 7, own_fd := True, cn_timer := True,
     cn_chan := Some \<lparr> read_fn = False, write_fn = True, attached = True, event_present = True,
                        events = kWritable, chan_fd = 7 \<rparr> \<rparr>"

definition sample_resolving :: connector where
  "sample_resolving = sample_connector\<lparr> cn_status := cDNSResolving, cn_timer := True, cn_dns := True,
     dns_functor := True \<rparr>"

lemma sample_connectors: "cn_waiting sample_connector" "cn_trying sample_trying" "cn_resolving sample_resolving"
  "\<not> own_fd sample_resolving"
  by (simp_all add: cn_waiting_def cn_trying_def cn_resolving_def sample_connector_def sample_trying_def
      sample_resolving_def idle_chan_def IsZeroAddress_def mem16_def AF_INET_def chan_ok_def mask_ok_def
      IsWritable_def event_consts)

definition sample_refused :: connect_env where
  "sample_refused = \<lparr> new_fd = 9, bind_errno = None, connect_errno = Some ECONNREFUSED \<rparr>"

lemma sample_refused_fails: "fails_at_once sample_refused"
  by (simp add: fails_at_once_def sample_refused_def EVUTIL_ERR_CONNECT_RETRIABLE_def ECONNREFUSED_def EINTR_def
      EINPROGRESS_def)

text \<open>
  A retry must not fail at once: after an attempt that failed while it was under way, the
  connector keeps its closed channel, and when \<open>::connect\<close> refuses the next attempt immediately
  \<open>HandleError\<close> closes that channel a second time, which fails the assertion of
  \<open>FdChannel::Close\<close>.
\<close>

theorem Connector_retry_fails_at_once:
  assumes "env_ok E" and "auto_reconnect T" and "cn_trying C" and "fails_at_once K"
  shows "wp (Connector_HandleError E e i (T, C)) (\<lambda>(T', C'). cn_waiting C' \<and> Connector_Start E K i (T', C') = None)"
proof -
  obtain ch where ch: "cn_chan C = Some ch" "chan_ok ch" using assms(3) by (auto simp: cn_trying_def)
  have c: "case cn_chan (C\<lparr> cn_status := cDisconnected \<rparr>) of None \<Rightarrow> True | Some ch \<Rightarrow> chan_ok ch" using ch by simp
  have h: "wp (Connector_HandleError E e i (T, C)) (\<lambda>(T', C'). cn_waiting C')"
    by (rule wp_mono [OF wp_Connector_HandleError [OF assms(1,2)]]) (use assms(3) in \<open>auto simp: cn_trying_def\<close>)
  have "wp (Connector_HandleError E e i (T, C)) (\<lambda>(T', C'). cn_chan C' \<noteq> None)"
    using assms(1-3) ch
    by (auto simp: Connector_HandleError_def Let_def OnConnection_fail cn_trying_def env_ok_def
        intro!: wp_mono [OF wp_close_chan [OF assms(1) c]] split: option.splits)
  from wp_conj [OF h this] show ?thesis
    by (rule wp_mono) (auto intro!: Connector_Start_fails [OF _ _ assms(4)])
qed

theorem Connector_retry_fails_at_once_witness:
  "wp (Connector_HandleError sample_env ETIMEDOUT 0 (sample_client, sample_trying))
     (\<lambda>(T', C'). cn_waiting C' \<and> Connector_Start sample_env sample_refused 0 (T', C') = None)"
  by (rule Connector_retry_fails_at_once [OF sample_ok(1) _ sample_connectors(2) sample_refused_fails])
    (simp add: sample_client_def TCPClient_new_def TCPClient_Bind_def)

definition sample_waiting :: tcp_client where
  "sample_waiting = sample_client\<lparr> cl_connector := Some 0, connectors := [0 \<mapsto> sample_connector], retries := [0] \<rparr>"

lemma sample_waiting_ok: "waiting sample_waiting"
  by (simp add: waiting_def sample_waiting_def sample_connectors sample_client_def TCPClient_new_def TCPClient_Bind_def)

text \<open>
  \<open>Disconnect\<close> does not stop a scheduled retry: called while the client waits, it switches
  automatic reconnection off and forgets the connector, but the timer still holds it, and when
  the timer fires a new attempt is made.
\<close>

theorem TCPClient_Disconnect_keeps_retry:
  assumes "env_ok E" and "attempt_ok K" and "waiting T"
  shows "wp (DisconnectInLoop E T) (\<lambda>T'. \<not> auto_reconnect T' \<and> cl_connector T' = None \<and>
           wp (run_retry E K T') (\<lambda>T''. \<exists>j C. connectors T'' j = Some C \<and> (cn_trying C \<or> cn_resolving C)))"
proof -
  obtain j C where j: "cl_connector T = Some j" "connectors T j = Some C" "cn_waiting C" "retries T = [j]"
      "cl_conn T = None" using assms(3) by (auto simp: waiting_def)
  have d: "DisconnectInLoop E T = Some (T\<lparr> auto_reconnect := False, cl_connector := None \<rparr>)"
    using j assms(1) by (simp add: DisconnectInLoop_def Let_def env_ok_def cn_waiting_def drop_connector_def referenced_def)
  have ref: "cn_trying C' \<Longrightarrow> cn_timer C'" "cn_resolving C' \<Longrightarrow> cn_timer C'" for C'
    by (auto simp: cn_trying_def cn_resolving_def)
  have "wp (run_retry E K (T\<lparr> auto_reconnect := False, cl_connector := None \<rparr>))
      (\<lambda>T''. connectors T'' j \<noteq> None \<and> (\<forall>C. connectors T'' j = Some C \<longrightarrow> cn_trying C \<or> cn_resolving C))"
    using j by (auto simp: run_retry_def on_connector_def drop_connector_def referenced_def
        ref intro!: wp_mono [OF wp_Connector_Start [OF assms(1,2) j(3)]])
  then show ?thesis unfolding d by (auto elim!: wp_mono)
qed

theorem TCPClient_Disconnect_keeps_retry_witness:
  "wp (DisconnectInLoop sample_env sample_waiting) (\<lambda>T'. \<not> auto_reconnect T' \<and> cl_connector T' = None \<and>
     wp (run_retry sample_env sample_attempt T')
       (\<lambda>T''. \<exists>j C. connectors T'' j = Some C \<and> (cn_trying C \<or> cn_resolving C)))"
  by (rule TCPClient_Disconnect_keeps_retry [OF sample_ok(1) sample_client_env(2) sample_waiting_ok])

definition sample_unresolved :: tcp_client where
  "sample_unresolved = sample_client\<lparr> auto_reconnect := False, cl_connector := Some 0,
     connectors := [0 \<mapsto> sample_resolving] \<rparr>"

text \<open>
  A failed name resolution without automatic reconnection cannot be cleaned up: the
  connector is left disconnected without a descriptor of its own, and the \<open>Disconnect\<close> that
  destroys it fails the assertion of its destructor.
\<close>

theorem TCPClient_Disconnect_after_failed_resolve:
  assumes "env_ok E" and "\<not> auto_reconnect T" and "cl_conn T = None" and "retries T = []"
    and "cl_connector T = Some j" and "connectors T j = Some C" and "cn_resolving C" and "\<not> own_fd C"
  shows "wp (on_connector (Connector_OnDNSResolved E K e [] j) j T) (\<lambda>T'. DisconnectInLoop E T' = None)"
  using assms
  by (auto simp: on_connector_def Connector_OnDNSResolved_def Connector_HandleError_def Let_def env_ok_def
      cn_resolving_def close_chan_def OnConnection_fail DisconnectInLoop_def drop_connector_def referenced_def
      Connector_delete_def)

theorem TCPClient_Disconnect_after_failed_resolve_witness:
  "wp (on_connector (Connector_OnDNSResolved sample_env sample_attempt 0 [] 0) 0 sample_unresolved)
     (\<lambda>T'. DisconnectInLoop sample_env T' = None)"
  by (rule TCPClient_Disconnect_after_failed_resolve [OF sample_ok(1) _ _ _ _ _ sample_connectors(3,4)])
    (simp_all add: sample_unresolved_def sample_client_def TCPClient_new_def TCPClient_Bind_def)

end
