(* ===== verification/ClientSession.thy ===== *)
theory ClientSession
  imports ChannelPool PacketQueue MessageLoop Echo TcpClient
begin

text \<open>
  The client side: \<open>ClientSession\<close> (\<open>common/net/clientsession.h\<close>, \<open>clientsession.cc\<close>). A request
  gets a channel of the session's pool, is framed with the channel's identifier and sent, or
  queued while the session is not connected; a reply is matched with its channel and handed to
  the handler and argument stored there; a request that expires is answered with the time-out
  packet.

  \<open>connPtr_\<close> is the number of a connection of the session's \<open>TCPClient\<close>; the packets of the
  process live in \<open>ss_mem\<close>, and the static counters of the pools in \<open>ss_globals\<close>. A packet
  handler is the user's code, a function on the packet, the argument and the session;
  \<open>log_handler\<close> records its calls. Every operation runs under the session's mutex, so that it is
  one atomic step. Where the code waits for other threads, \<open>others\<close> lists what they do to the
  session between two checks of the condition; when the list ends, the thread still waits.
\<close>

section \<open>State\<close>

record 'b session =
  ss_client :: tcp_client
  connPtr :: "nat option"
  defaultPacketHandler :: "nat option"
  ss_streamer :: streamer
  ss_output :: buffer
  outputQueue :: pqueue
  channelPool :: channel_pool
  queueTimeout :: u32
  queueTotalSize :: u32
  queueLimit :: u32
  ss_gotHeader :: bool
  ss_header :: packet_header
  ss_globals :: channel_globals
  ss_mem :: "'b pmem"
  loop_stopped :: bool
  ss_calls :: "(nat \<times> 'b seen \<times> nat option) list"

text \<open>What a session relies on: the event loop, the kernel, the resolver and the clock.\<close>

record session_env =
  s_loop :: loop_env
  s_pton :: pton
  s_junk :: bytes
  s_attempt :: connect_env
  s_kernel :: ksend
  s_sec :: u64
  s_usec :: u64

type_synonym 'b handler = "nat \<Rightarrow> packet_arg \<Rightarrow> nat option \<Rightarrow> 'b session \<Rightarrow> 'b session option"

definition log_handler :: "'b handler" where
  "log_handler h x args s = do {
     z \<leftarrow> seen_arg (ss_mem s) x;
     Some (s\<lparr> ss_calls := ss_calls s @ [(h, z, args)] \<rparr>) }"

definition ClientSession_new :: "streamer \<Rightarrow> string \<Rightarrow> string \<Rightarrow> (chptr \<Rightarrow> channel) \<Rightarrow> channel_globals \<Rightarrow> 'b pmem \<Rightarrow>
    'b session option" where
  "ClientSession_new S addr n memory G M = do {
     out \<leftarrow> Buffer_new kInitialSize kCheapPrependSize;
     Some \<lparr> ss_client = TCPClient_new addr n, connPtr = None, defaultPacketHandler = None, ss_streamer = S,
            ss_output = out, outputQueue = PacketQueue_new, channelPool = ChannelPool_new memory,
            queueTimeout = 5000, queueTotalSize = 0, queueLimit = 50, ss_gotHeader = False,
            ss_header = header_zero, ss_globals = G, ss_mem = M, loop_stopped = False, ss_calls = [] \<rparr> }"

definition SetDefaultPacketHandler :: "'b session \<Rightarrow> nat option \<Rightarrow> 'b session" where
  "SetDefaultPacketHandler s ph = s\<lparr> defaultPacketHandler := ph \<rparr>"

definition SetQueueLimit :: "'b session \<Rightarrow> u32 \<Rightarrow> 'b session" where
  "SetQueueLimit s limit = s\<lparr> queueLimit := limit \<rparr>"

definition SetAutoReconnect :: "'b session \<Rightarrow> int \<Rightarrow> 'b session" where
  "SetAutoReconnect s d = s\<lparr> ss_client := set_auto_reconnect (set_reconnect_interval (ss_client s) d) True \<rparr>"

definition ss_IsConnected :: "'b session \<Rightarrow> bool" where
  "ss_IsConnected s \<longleftrightarrow>
     (case connPtr s of
        None \<Rightarrow> False
      | Some i \<Rightarrow> (case conns (ss_client s) i of None \<Rightarrow> False | Some c \<Rightarrow> conn_IsConnected c))"

definition ClientSession_Stop :: "'b session \<Rightarrow> 'b session" where
  "ClientSession_Stop s = s\<lparr> loop_stopped := True \<rparr>"

definition ClientSession_Connect :: "session_env \<Rightarrow> 'b session \<Rightarrow> 'b session option" where
  "ClientSession_Connect N s = do {
     T \<leftarrow> TCPClient_Connect (s_loop N) (s_pton N) (s_junk N) (s_attempt N) (ss_client s);
     Some (s\<lparr> ss_client := T \<rparr>) }"

section \<open>Sending\<close>

text \<open>\<open>queueTotalSize_ = outputQueue_.Size() + channelPool_.GetUseListCount()\<close>.\<close>

definition count_total :: "'b session \<Rightarrow> 'b session" where
  "count_total s = s\<lparr> queueTotalSize := PacketQueue_Size (outputQueue s) + ChannelPool_GetUseListCount (channelPool s) \<rparr>"

text \<open>\<open>connPtr_->Send(&output_)\<close>, with the callbacks a failing send makes in the \<open>TCPClient\<close>.\<close>

definition session_send :: "session_env \<Rightarrow> 'b session \<Rightarrow> 'b session option" where
  "session_send N s = do {
     i \<leftarrow> connPtr s;
     c \<leftarrow> conns (ss_client s) i;
     (c', out) \<leftarrow> Send_buffer (s_loop N) (s_kernel N) c (ss_output s);
     T \<leftarrow> foldM (client_event (s_loop N) (s_pton N) (s_junk N) (s_attempt N) i)
            ((ss_client s)\<lparr> conns := (conns (ss_client s))(i \<mapsto> c') \<rparr>)
            (drop (length (conn_log c)) (conn_log c'));
     Some (s\<lparr> ss_client := T, ss_output := out \<rparr>) }"

text \<open>Encoding and sending a packet, as \<open>PostOutputQueue\<close> and \<open>PostPacket\<close> both do.\<close>

definition send_packet :: "'b packet_class \<Rightarrow> session_env \<Rightarrow> 'b session \<Rightarrow> pptr \<Rightarrow> 'b session option" where
  "send_packet cls N s p = do {
     (r, h, out) \<leftarrow> Streamer_Encode cls (ss_streamer s) (objs (ss_mem s)) p (ss_output s);
     pk \<leftarrow> h p;
     let s = s\<lparr> channelPool := ChannelPool_SetExpireTime (channelPool s) (Packet_GetChannel pk) (Packet_GetExpireTime pk),
                ss_mem := (ss_mem s)\<lparr> objs := Packet_Free cls h p \<rparr>, ss_output := out \<rparr>;
     n \<leftarrow> Buffer_length out;
     if n > 0 then session_send N s else Some s }"

partial_function (option) post_output_loop :: "'b packet_class \<Rightarrow> session_env \<Rightarrow> 'b session \<Rightarrow> 'b session option" where
  "post_output_loop cls N s =
     (if 0 < sint (PacketQueue_Size (outputQueue s)) then do {
        (p, q) \<leftarrow> PacketQueue_Pop (objs (ss_mem s)) (outputQueue s);
        p \<leftarrow> p;
        s \<leftarrow> send_packet cls N (s\<lparr> outputQueue := q \<rparr>) p;
        post_output_loop cls N s }
      else Some s)"

text \<open>The end of \<open>PostOutputQueue\<close> and of \<open>CheckTimeout\<close>; waking a waiting thread changes no state.\<close>

definition recount :: "'b session \<Rightarrow> 'b session" where
  "recount s = (if 0 < sint (queueLimit s) \<and> sint (queueTotalSize s) > sint (queueLimit s) then count_total s else s)"

definition PostOutputQueue :: "'b packet_class \<Rightarrow> session_env \<Rightarrow> 'b session \<Rightarrow> (bool \<times> 'b session) option" where
  "PostOutputQueue cls N s =
     (if \<not> ss_IsConnected s then Some (False, s)
      else if 0 < sint (PacketQueue_Size (outputQueue s)) then do {
        s \<leftarrow> post_output_loop cls N s;
        Some (True, recount s) }
      else Some (True, s))"

text \<open>The wait of a blocking \<open>PostPacket\<close>.\<close>

fun wait_output :: "('b session \<Rightarrow> 'b session) list \<Rightarrow> 'b session \<Rightarrow> 'b session option" where
  "wait_output others s =
     (let s = count_total s
      in if sint (queueTotalSize s) \<le> sint (queueLimit s) \<or> loop_stopped s \<or> \<not> ss_IsConnected s then Some s
         else case others of [] \<Rightarrow> None | f # fs \<Rightarrow> wait_output fs (f s))"

text \<open>The channel of a request, with its handler and argument, attached to the packet.\<close>

definition attach_channel :: "'b session \<Rightarrow> pptr \<Rightarrow> nat option \<Rightarrow> nat option \<Rightarrow> 'b session option" where
  "attach_channel s p packetHandler args = do {
     pk \<leftarrow> objs (ss_mem s) p;
     if ExistPacketHeader (ss_streamer s) then do {
       (c, G, P) \<leftarrow> ChannelPool_AllocChannel (ss_globals s) (channelPool s);
       let P = at c (\<lambda>c. Channel_SetHandler c packetHandler) P;
       let P = at c (\<lambda>c. Channel_SetArgs c args) P;
       let pk = Packet_SetChannel pk (Some (c, Channel_GetId (cells P c)));
       Some (s\<lparr> ss_globals := G, channelPool := P, ss_mem := (ss_mem s)\<lparr> objs := (objs (ss_mem s))(p \<mapsto> pk) \<rparr> \<rparr>) }
     else Some (s\<lparr> ss_mem := (ss_mem s)\<lparr> objs := (objs (ss_mem s))(p \<mapsto> Packet_SetChannel pk None) \<rparr> \<rparr>) }"

definition ClientSession_PostPacket :: "'b packet_class \<Rightarrow> session_env \<Rightarrow> ('b session \<Rightarrow> 'b session) list \<Rightarrow>
    'b session \<Rightarrow> pptr \<Rightarrow> nat option \<Rightarrow> nat option \<Rightarrow> bool \<Rightarrow> (bool \<times> 'b session) option" where
  "ClientSession_PostPacket cls N others s p packetHandler args noblocking =
     (if \<not> ss_IsConnected s \<and> (\<not> auto_reconnect (ss_client s) \<or> sint (PacketQueue_Size (outputQueue s)) > 10)
      then Some (False, s)
      else
        (let s = count_total s
         in if 0 < sint (queueLimit s) \<and> noblocking \<and> sint (queueTotalSize s) \<ge> sint (queueLimit s)
            then Some (False, s)
            else do {
              pk \<leftarrow> objs (ss_mem s) p;
              let pk = Packet_SetExpireTime (s_sec N) (s_usec N) pk (queueTimeout s);
              let s = s\<lparr> ss_mem := (ss_mem s)\<lparr> objs := (objs (ss_mem s))(p \<mapsto> pk) \<rparr> \<rparr>;
              s \<leftarrow> attach_channel s p packetHandler args;
              s \<leftarrow> (if \<not> ss_IsConnected s then do {
                     (h, q) \<leftarrow> PacketQueue_Push (objs (ss_mem s)) (outputQueue s) (Some p);
                     Some (s\<lparr> ss_mem := (ss_mem s)\<lparr> objs := h \<rparr>, outputQueue := q \<rparr>) }
                   else send_packet cls N s p);
              s \<leftarrow> (if 0 < sint (queueLimit s) \<and> \<not> noblocking then wait_output others s else Some s);
              Some (True, s) }))"

section \<open>The connection\<close>

text \<open>
  \<open>ClientSession::OnConnection\<close>, the connection callback of the \<open>TCPClient\<close>; the user's callback
  \<open>client_conn_cb_\<close> is called in both cases.
\<close>

definition ClientSession_OnConnection :: "'b packet_class \<Rightarrow> session_env \<Rightarrow> ('b session \<Rightarrow> 'b session option) \<Rightarrow>
    'b session \<Rightarrow> nat \<Rightarrow> 'b session option" where
  "ClientSession_OnConnection cls N cb s i = do {
     c \<leftarrow> conns (ss_client s) i;
     if conn_IsConnected c then do {
       (r, s) \<leftarrow> PostOutputQueue cls N (s\<lparr> connPtr := Some i \<rparr>);
       cb s }
     else cb s }"

section \<open>Receiving\<close>

definition ClientSession_HandlePacket :: "'b packet_class \<Rightarrow> 'b handler \<Rightarrow> buffer \<Rightarrow> packet_header \<Rightarrow> 'b session \<Rightarrow>
    (buffer \<times> 'b session) option" where
  "ClientSession_HandlePacket cls H input header s = do {
     let (channel, P) = (if ExistPacketHeader (ss_streamer s)
                         then ChannelPool_OfferChannel (channelPool s) (chid header AND 0xFFFFFFF)
                         else (None, channelPool s));
     let s = s\<lparr> channelPool := P \<rparr>;
     if ExistPacketHeader (ss_streamer s) \<and> channel = None then do {
       input \<leftarrow> Skip input (size_of_int (dataLen header));
       Some (input, s) }
     else do {
       let packetHandler = (case channel of None \<Rightarrow> None | Some c \<Rightarrow> Channel_GetHandler (cells P c));
       let args = (case channel of None \<Rightarrow> None | Some c \<Rightarrow> Channel_GetArgs (cells P c));
       (packet, M, input) \<leftarrow> Streamer_Decode cls (ss_streamer s) (ss_mem s) input header;
       (x, M) \<leftarrow> (case packet of
                  None \<Rightarrow> Some (BadPacket, M)
                | Some p \<Rightarrow> do {
                    pk \<leftarrow> objs M p;
                    Some (Regular p, M\<lparr> objs := (objs M)(p \<mapsto> Packet_SetPacketHeader pk (Some header)) \<rparr>) });
       let s = s\<lparr> ss_mem := M \<rparr>;
       h \<leftarrow> (case packetHandler of None \<Rightarrow> defaultPacketHandler s | Some h \<Rightarrow> Some h);
       s \<leftarrow> H h x args s;
       s \<leftarrow> (case channel of
              None \<Rightarrow> Some s
            | Some c \<Rightarrow> do {
                (r, P) \<leftarrow> ChannelPool_AppendChannel (at c (\<lambda>c. Channel_SetArgs c None) (channelPool s)) (Some c);
                Some (s\<lparr> channelPool := P \<rparr>) });
       Some (input, s) } }"

definition ClientSession_OnMessage :: "'b packet_class \<Rightarrow> 'b handler \<Rightarrow> buffer \<Rightarrow> 'b session \<Rightarrow>
    (buffer \<times> 'b session) option" where
  "ClientSession_OnMessage cls H input s = do {
     (input, got, header, s) \<leftarrow>
       on_message (ss_streamer s) (ClientSession_HandlePacket cls H) input (ss_gotHeader s) (ss_header s) s;
     Some (input, s\<lparr> ss_gotHeader := got, ss_header := header \<rparr>) }"

section \<open>Time-outs\<close>

text \<open>Telling the handler of a channel, or the default handler, that the request timed out.\<close>

definition notify_timeout :: "'b handler \<Rightarrow> chptr \<Rightarrow> 'b session \<Rightarrow> 'b session option" where
  "notify_timeout H c s =
     (let packetHandler = (case Channel_GetHandler (cells (channelPool s) c) of
                             None \<Rightarrow> defaultPacketHandler s | Some h \<Rightarrow> Some h)
      in case packetHandler of
           None \<Rightarrow> Some s
         | Some h \<Rightarrow> do {
             s \<leftarrow> H h TimeoutPacket (Channel_GetArgs (cells (channelPool s) c)) s;
             Some (s\<lparr> channelPool := at c (\<lambda>c. Channel_SetArgs c None) (channelPool s) \<rparr>) })"

partial_function (option) timeout_channels :: "'b handler \<Rightarrow> chptr option \<Rightarrow> 'b session \<Rightarrow> 'b session option" where
  "timeout_channels H channel s =
     (case channel of
        None \<Rightarrow> Some s
      | Some c \<Rightarrow> do {
          s \<leftarrow> notify_timeout H c s;
          timeout_channels H (Channel_GetNext (cells (channelPool s) c)) s })"

partial_function (option) timeout_packets :: "'b packet_class \<Rightarrow> 'b handler \<Rightarrow> pptr option \<Rightarrow> 'b session \<Rightarrow>
    'b session option" where
  "timeout_packets cls H packetList s =
     (case packetList of
        None \<Rightarrow> Some s
      | Some p \<Rightarrow> do {
          pk \<leftarrow> objs (ss_mem s) p;
          let s = s\<lparr> ss_mem := (ss_mem s)\<lparr> objs := Packet_Free cls (objs (ss_mem s)) p \<rparr> \<rparr>;
          s \<leftarrow> (case Packet_GetChannel pk of
                 None \<Rightarrow> Some s
               | Some c \<Rightarrow> do {
                   s \<leftarrow> notify_timeout H c s;
                   Some (s\<lparr> channelPool := snd (ChannelPool_FreeChannel (channelPool s) (Some c)) \<rparr>) });
          timeout_packets cls H (Packet_GetNext pk) s })"

definition CheckTimeout :: "'b packet_class \<Rightarrow> 'b handler \<Rightarrow> 'b session \<Rightarrow> u64 \<Rightarrow> (bool \<times> 'b session) option" where
  "CheckTimeout cls H s now = do {
     (list, P) \<leftarrow> ChannelPool_GetTimeoutList (channelPool s) now;
     let s = s\<lparr> channelPool := P \<rparr>;
     s \<leftarrow> (if list \<noteq> None then do {
            s \<leftarrow> timeout_channels H list s;
            (r, P) \<leftarrow> ChannelPool_AppendFreeList (channelPool s) list;
            Some (s\<lparr> channelPool := P \<rparr>) }
          else Some s);
     (packetList, h, q) \<leftarrow> PacketQueue_GetTimeoutList (objs (ss_mem s)) (outputQueue s) now;
     s \<leftarrow> timeout_packets cls H packetList (s\<lparr> ss_mem := (ss_mem s)\<lparr> objs := h \<rparr>, outputQueue := q \<rparr>);
     Some (True, recount s) }"

text \<open>\<open>Disconnect\<close> polls until the loop thread has closed the connection.\<close>

fun wait_disconnected :: "('b session \<Rightarrow> 'b session) list \<Rightarrow> 'b session \<Rightarrow> 'b session option" where
  "wait_disconnected [] s = None"
| "wait_disconnected (f # fs) s = (let s = f s in if ss_IsConnected s then wait_disconnected fs s else Some s)"

definition ClientSession_Disconnect :: "'b packet_class \<Rightarrow> 'b handler \<Rightarrow> session_env \<Rightarrow> ('b session \<Rightarrow> 'b session) list \<Rightarrow>
    'b session \<Rightarrow> 'b session option" where
  "ClientSession_Disconnect cls H N others s = do {
     s \<leftarrow> (if ss_IsConnected s then do {
            T \<leftarrow> TCPClient_Disconnect (s_loop N) (ss_client s);
            wait_disconnected others (s\<lparr> ss_client := T \<rparr>) }
          else Some s);
     (r, s) \<leftarrow> CheckTimeout cls H s QYNET_MAX_TIME;
     Some s }"

section \<open>Pending requests\<close>

text \<open>
  What the pool of a session promises: the requests that wait for a reply, by channel identifier,
  with the handler and the argument of each.
\<close>

definition pending_of :: "channel_pool \<Rightarrow> u32 \<Rightarrow> (nat option \<times> nat option) option" where
  "pending_of P k = map_option (\<lambda>c. (ch_handler (cells P c), ch_args (cells P c))) (map_find (useMap P) k)"

abbreviation pending :: "'b session \<Rightarrow> u32 \<Rightarrow> (nat option \<times> nat option) option" where
  "pending s \<equiv> pending_of (channelPool s)"

definition pool_ok :: "channel_pool \<Rightarrow> bool" where
  "pool_ok P \<longleftrightarrow> (\<exists>us fs. pool_inv P us fs)"

lemma payload_handler: "payload c = payload d \<Longrightarrow> ch_handler c = ch_handler d \<and> ch_args c = ch_args d"
  by (simp add: payload_def)

lemma pending_cong:
  assumes "map_find (useMap P') = m" and "\<And>k c. m k = Some c \<Longrightarrow> payload (cells P' c) = payload (cells P c)"
  shows "pending_of P' k = map_option (\<lambda>c. (ch_handler (cells P c), ch_args (cells P c))) (m k)"
proof (cases "m k")
  case (Some c)
  with assms(1) payload_handler [OF assms(2) [OF Some]] show ?thesis by (simp add: pending_of_def)
qed (use assms(1) in \<open>simp add: pending_of_def\<close>)

text \<open>Taking the channel of a reply, and giving it back after its handler has been called.\<close>

lemma offer_pending:
  assumes inv: "pool_inv P us fs" and k: "map_find (useMap P) k = Some c"
  obtains P1 where "ChannelPool_OfferChannel P k = (Some c, P1)" and "pool_inv P1 (remove1 c us) fs"
    and "c < cells_end P1" and "c \<notin> set (remove1 c us)" and "c \<notin> set fs"
    and "pending_of P k = Some (ch_handler (cells P1 c), ch_args (cells P1 c))"
    and "pending_of P1 = (pending_of P)(k := None)"
proof -
  note D = pool_invD [OF inv]
  have c: "c \<in> set us" "ch_id (cells P c) = k" using D(11) [of k c] k by simp_all
  from OfferChannel_inv [OF inv c(1)] obtain P1 where
    1: "ChannelPool_OfferChannel P k = (Some c, P1)" "pool_inv P1 (remove1 c us) fs"
      "map_find (useMap P1) = (map_find (useMap P))(k := None)" "cells_end P1 = cells_end P"
      "\<forall>b. payload (cells P1 b) = payload (cells P b)" unfolding c(2) by blast
  have "pending_of P1 j = ((pending_of P)(k := None)) j" for j
    by (subst pending_cong [OF 1(3), of P]) (use 1(5) in \<open>auto simp: pending_of_def\<close>)
  then have p: "pending_of P1 = (pending_of P)(k := None)" by blast
  have pl: "ch_handler (cells P1 c) = ch_handler (cells P c)" "ch_args (cells P1 c) = ch_args (cells P c)"
    using payload_handler [OF 1(5) [THEN spec, of c]] by simp_all
  show ?thesis
  proof (rule that [OF 1(1,2) _ _ _ _ p])
    show "c < cells_end P1" using D(8) [OF c(1)] 1(4) by simp
    show "c \<notin> set (remove1 c us)" using D(5) by simp
    show "c \<notin> set fs" using D(7) c(1) by blast
    show "pending_of P k = Some (ch_handler (cells P1 c), ch_args (cells P1 c))" using k pl by (simp add: pending_of_def)
  qed
qed

lemma append_pending:
  assumes inv: "pool_inv P us fs" and c: "c \<notin> set us" "c \<notin> set fs" "c < cells_end P"
  shows "pool_ok (link_free c (at c f P))" and "pending_of (link_free c (at c f P)) = pending_of P"
proof -
  have i: "pool_inv (at c f P) us fs" using inv c by (auto simp: pool_inv_def)
  note L = link_free_inv [OF i c(1,2)]
  show "pool_ok (link_free c (at c f P))" using L(1) c(3) by (auto simp: pool_ok_def)
  have "map_find (useMap P) k = Some b \<Longrightarrow> cells (link_free c (at c f P)) b = cells P b" for k b
    using L(2) [of b] pool_invD(7,11) [OF inv] c by auto
  then show "pending_of (link_free c (at c f P)) = pending_of P"
    by (auto simp: pending_of_def fun_eq_iff intro!: option.map_cong)
qed

section \<open>Replies\<close>

context framed_codec
begin

definition client_inv :: "'a session \<Rightarrow> bool" where
  "client_inv s \<longleftrightarrow> ss_streamer s = S \<and> pmem_ok (ss_mem s) \<and> pool_ok (channelPool s) \<and>
     (defaultPacketHandler s \<noteq> None \<or> (\<forall>k a. pending s k \<noteq> Some (None, a)))"

definition client_act :: "packet_header \<Rightarrow> bytes \<Rightarrow> 'a session \<Rightarrow> 'a session \<Rightarrow> bool" where
  "client_act hdr d s s' \<longleftrightarrow> defaultPacketHandler s' = defaultPacketHandler s \<and>
     (case pending s (chid hdr AND 0xFFFFFFF) of
        None \<Rightarrow> ss_calls s' = ss_calls s \<and> pending s' = pending s
      | Some (h, a) \<Rightarrow> (\<exists>z. arrives hdr d z \<and>
          ss_calls s' = ss_calls s @ [(the (case h of None \<Rightarrow> defaultPacketHandler s | Some h \<Rightarrow> Some h), z, a)] \<and>
          pending s' = (pending s)(chid hdr AND 0xFFFFFFF := None)))"

lemma client_handle:
  assumes i: "client_inv s" and e: "encoded hdr d" and b: "buf_ok b" "unread b = d @ r"
  shows "wp (ClientSession_HandlePacket cls log_handler b (received_header hdr d) s) (\<lambda>(b', s').
           buf_ok b' \<and> unread b' = r \<and> client_act (received_header hdr d) d s s' \<and> client_inv s')"
proof -
  let ?hdr = "received_header hdr d" and ?k = "chid hdr AND 0xFFFFFFF"
  obtain x where x: "valid x" "enc x = d" using e by (auto simp: encoded_def)
  obtain us fs where inv: "pool_inv (channelPool s) us fs" using i by (auto simp: client_inv_def pool_ok_def)
  have S: "ss_streamer s = S" "pmem_ok (ss_mem s)" using i by (simp_all add: client_inv_def)
  have [simp]: "chid ?hdr = chid hdr" by (simp add: received_header_def)
  have n: "size_of_int (dataLen ?hdr) = length d"
    using dataLen_frame(1) [of d] enc_len [OF x(1)] x(2) by (subst size_of_int_nonneg) (simp_all add: received_header_def)
  show ?thesis
  proof (cases "map_find (useMap (channelPool s)) ?k")
    case None
    then have "ChannelPool_OfferChannel (channelPool s) ?k = (None, channelPool s)" "pending s ?k = None"
      by (simp_all add: ChannelPool_OfferChannel_def pending_of_def)
    then show ?thesis
      using i S framed_streamer b n
      by (auto simp: ClientSession_HandlePacket_def ExistPacketHeader_def client_act_def
          intro!: wp_mono [OF wp_Skip])
  next
    case (Some c)
    obtain P1 where P1: "ChannelPool_OfferChannel (channelPool s) ?k = (Some c, P1)" "pool_inv P1 (remove1 c us) fs"
        "c < cells_end P1" "c \<notin> set (remove1 c us)" "c \<notin> set fs"
        "pending s ?k = Some (ch_handler (cells P1 c), ch_args (cells P1 c))"
        "pending_of P1 = (pending s)(?k := None)"
      using offer_pending [OF inv Some] by blast
    define h where "h = the (case ch_handler (cells P1 c) of None \<Rightarrow> defaultPacketHandler s | Some h \<Rightarrow> Some h)"
    have h: "(case ch_handler (cells P1 c) of None \<Rightarrow> defaultPacketHandler s | Some h \<Rightarrow> Some h) = Some h"
      using i P1(6) by (auto simp: h_def client_inv_def split: option.splits)
    note ap = append_pending [OF P1(2,4,5,3)]
    have dec: "wp (Streamer_Decode cls S (ss_mem s) b ?hdr) (\<lambda>(p, M', b'). \<exists>y.
        p = Some (next_addr (ss_mem s)) \<and> buf_ok b' \<and> unread b' = r \<and> same x y \<and>
        objs M' = (objs (ss_mem s))(next_addr (ss_mem s) \<mapsto> Packet_new y) \<and> pmem_ok M')"
      by (rule wp_mono [OF wp_Streamer_Decode [OF x(1) b(1), of r]])
        (use x b S framed_streamer in \<open>auto simp: received_header_def\<close>)
    have arr: "arrives ?hdr d (SeenPacket ?hdr y)" if "same x y" for y
      using x that by (auto simp: arrives_def)
    have inv': "client_inv (s\<lparr> ss_mem := M\<lparr> objs := (objs (ss_mem s))(next_addr (ss_mem s) \<mapsto> pk) \<rparr>, ss_calls := l,
        channelPool := link_free c (at c (\<lambda>c. Channel_SetArgs c None) P1) \<rparr>)"
      if "objs M = (objs (ss_mem s))(next_addr (ss_mem s) \<mapsto> pk')" "pmem_ok M" for M pk pk' l
      using i S ap P1(7) that by (auto simp: client_inv_def pmem_ok_def split: if_split_asm)
    show ?thesis
      using S framed_streamer P1(1,6,7) h ap(2)
      apply (simp add: ClientSession_HandlePacket_def ExistPacketHeader_def Let_def Channel_GetHandler_def
          Channel_GetArgs_def cong: option.case_cong)
      apply (rule wp_mono [OF dec], clarsimp simp: log_handler_def seen_arg_def ChannelPool_AppendChannel_def
          Packet_SetPacketHeader_def client_act_def h_def [symmetric] Packet_new_def arr cong: option.case_cong)
      apply (simp (no_asm) only: S(1), rule inv', assumption+)
      done
  qed
qed

end

text \<open>
  The calls that a sequence of replies makes, given the pending requests: a reply on a channel
  that is pending calls the handler of the request, or the default handler, with the argument of
  the request, and the request is no longer pending; other replies make no call. \<open>arr\<close> relates a
  header and body bytes to what the handler sees.
\<close>

fun answered :: "(packet_header \<Rightarrow> bytes \<Rightarrow> 'z \<Rightarrow> bool) \<Rightarrow> (u32 \<Rightarrow> (nat option \<times> nat option) option) \<Rightarrow> nat option \<Rightarrow>
    packets \<Rightarrow> (nat \<times> 'z \<times> nat option) list \<Rightarrow> bool" where
  "answered arr pend dflt [] calls \<longleftrightarrow> calls = []"
| "answered arr pend dflt ((hdr, d) # fs) calls \<longleftrightarrow>
     (case pend (chid hdr AND 0xFFFFFFF) of
        None \<Rightarrow> answered arr pend dflt fs calls
      | Some (h, a) \<Rightarrow> (\<exists>z rest. calls = (the (case h of None \<Rightarrow> dflt | Some h \<Rightarrow> Some h), z, a) # rest \<and>
          arr (received_header hdr d) d z \<and> answered arr (pend(chid hdr AND 0xFFFFFFF := None)) dflt fs rest))"

definition channels_of :: "packets \<Rightarrow> u32 set" where
  "channels_of fs = (\<lambda>(hdr, d). chid hdr AND 0xFFFFFFF) ` set fs"

sublocale framed_codec \<subseteq> client: message_handler S "ClientSession_HandlePacket cls log_handler"
  client_inv encoded client_act
  by unfold_locales (use framed_streamer enc_len client_handle in \<open>auto simp: encoded_def\<close>)

context framed_codec
begin

lemma client_acts:
  assumes "client.acts fs s s'"
  shows "\<exists>calls. ss_calls s' = ss_calls s @ calls \<and> answered arrives (pending s) (defaultPacketHandler s) fs calls \<and>
     pending s' = (\<lambda>k. if k \<in> channels_of fs then None else pending s k)"
  using assms
proof (induction fs arbitrary: s)
  case Nil
  then show ?case by (simp add: channels_of_def)
next
  case (Cons f fs)
  obtain hdr d where f: "f = (hdr, d)" by force
  let ?k = "chid hdr AND 0xFFFFFFF"
  from Cons.prems f obtain s1 where 1: "client_act (received_header hdr d) d s s1" "client.acts fs s1 s'" by auto
  from Cons.IH [OF 1(2)] obtain calls where
    c: "ss_calls s' = ss_calls s1 @ calls" "answered arrives (pending s1) (defaultPacketHandler s1) fs calls"
      "pending s' = (\<lambda>k. if k \<in> channels_of fs then None else pending s1 k)" by blast
  have k: "chid (received_header hdr d) = chid hdr" by (simp add: received_header_def)
  show ?case
  proof (cases "pending s ?k")
    case None
    with 1(1) have "ss_calls s1 = ss_calls s" "pending s1 = pending s" "defaultPacketHandler s1 = defaultPacketHandler s"
      by (simp_all add: client_act_def k)
    with c f None show ?thesis by (auto simp: channels_of_def fun_eq_iff)
  next
    case (Some ha)
    then obtain h a where ha: "pending s ?k = Some (h, a)" by (cases ha) auto
    with 1(1) obtain z where "arrives (received_header hdr d) d z"
        "ss_calls s1 = ss_calls s @ [(the (case h of None \<Rightarrow> defaultPacketHandler s | Some h \<Rightarrow> Some h), z, a)]"
        "pending s1 = (pending s)(?k := None)" "defaultPacketHandler s1 = defaultPacketHandler s"
      by (auto simp: client_act_def k)
    with c f ha show ?thesis by (auto simp: channels_of_def fun_eq_iff)
  qed
qed

lemma client_receives:
  assumes "\<And>hdr d. (hdr, d) \<in> set fs \<Longrightarrow> encoded hdr d" and "client_inv s" and "buf_ok b" and "unread b = []"
    and "concat cs = frames S fs" and "\<forall>c \<in> set cs. length c \<le> 2 ^ 30"
  shows "wp (feed S (ClientSession_HandlePacket cls log_handler) (b, False, hdr0, s) cs)
           (\<lambda>(b', got, hdr', s'). unread b' = [] \<and> client_inv s' \<and>
              (\<exists>calls. ss_calls s' = ss_calls s @ calls \<and> answered arrives (pending s) (defaultPacketHandler s) fs calls) \<and>
              pending s' = (\<lambda>k. if k \<in> channels_of fs then None else pending s k))"
  by (rule wp_mono [OF client.feed_chunks [OF assms(1-3), where got = False and header = hdr0 and cs = cs]])
    (use assms(4-6) in \<open>simp_all split: prod.splits\<close>, use client_acts in blast)

end

section \<open>Handlers and the stored header\<close>

definition put_session :: "bool \<Rightarrow> packet_header \<Rightarrow> 'b session \<Rightarrow> 'b session" where
  "put_session g h s = s\<lparr> ss_gotHeader := g, ss_header := h \<rparr>"

lemma put_session_simps [simp]:
  "ss_client (put_session g h s) = ss_client s" "connPtr (put_session g h s) = connPtr s"
  "defaultPacketHandler (put_session g h s) = defaultPacketHandler s" "ss_streamer (put_session g h s) = ss_streamer s"
  "channelPool (put_session g h s) = channelPool s" "ss_mem (put_session g h s) = ss_mem s"
  "ss_calls (put_session g h s) = ss_calls s" "ss_gotHeader (put_session g h s) = g" "ss_header (put_session g h s) = h"
  "(put_session g h s)\<lparr> channelPool := P \<rparr> = put_session g h (s\<lparr> channelPool := P \<rparr>)"
  "(put_session g h s)\<lparr> ss_mem := M \<rparr> = put_session g h (s\<lparr> ss_mem := M \<rparr>)"
  "(put_session g h s)\<lparr> ss_calls := l \<rparr> = put_session g h (s\<lparr> ss_calls := l \<rparr>)"
  by (simp_all add: put_session_def)

locale framed_handler =
  fixes H :: "'b handler"
  assumes handler_framed: "H h x a (put_session g hdr s) = map_option (put_session g hdr) (H h x a s)"
    and handler_streamer: "H h x a s = Some s' \<Longrightarrow> ss_streamer s' = ss_streamer s"
begin

lemma handle_put_session:
  "ClientSession_HandlePacket cls H b x (put_session g h s) =
   map_option (\<lambda>(b', s'). (b', put_session g h s')) (ClientSession_HandlePacket cls H b x s)"
proof -
  obtain ch P where o: "(if ExistPacketHeader (ss_streamer s) then ChannelPool_OfferChannel (channelPool s) (chid x AND 0xFFFFFFF)
      else (None, channelPool s)) = (ch, P)" by force
  show ?thesis
  proof (cases "ExistPacketHeader (ss_streamer s) \<and> ch = None")
    case True
    then show ?thesis
      unfolding ClientSession_HandlePacket_def Let_def put_session_simps o by (simp split: Option.bind_split)
  next
    case False
    show ?thesis
    proof (cases "Streamer_Decode cls (ss_streamer s) (ss_mem s) b x")
      case None
      with False show ?thesis
        unfolding ClientSession_HandlePacket_def Let_def put_session_simps o by auto
    next
      case (Some r)
      then obtain pk M b' where r: "Streamer_Decode cls (ss_streamer s) (ss_mem s) b x = Some (pk, M, b')" by (cases r) auto
      show ?thesis
        using False r unfolding ClientSession_HandlePacket_def Let_def put_session_simps o
        by (cases pk; cases ch) (auto simp: handler_framed split: Option.bind_split)
    qed
  qed
qed

lemma handle_session_streamer:
  "ClientSession_HandlePacket cls H b x s = Some (b', s') \<Longrightarrow> ss_streamer s' = ss_streamer s"
  unfolding ClientSession_HandlePacket_def Let_def
  by (auto split: Option.bind_split_asm option.split_asm if_split_asm prod.split_asm dest!: handler_streamer)

end

sublocale framed_handler \<subseteq> sess: stored_header ss_streamer "ClientSession_HandlePacket cls H"
  ss_gotHeader ss_header put_session for cls
  by unfold_locales (use handle_put_session handle_session_streamer in \<open>auto simp: put_session_def\<close>)

context framed_handler
begin

lemma OnMessage_session: "ClientSession_OnMessage cls H = sess.on_object cls"
  by (intro ext) (simp add: ClientSession_OnMessage_def sess.on_object_def put_session_def)

lemmas wp_session_OnMessage = sess.wp_receives [folded OnMessage_session]

end

interpretation log_sess: framed_handler log_handler
  by unfold_locales (auto simp: log_handler_def split: Option.bind_split Option.bind_split_asm)

interpretation echo_cl: framed_codec ClientEcho echo_valid ClientEchoPacket_GetString echo_same "DefaultPacketStreamer_new True"
  by unfold_locales (simp_all add: DefaultPacketStreamer_new_def)

section \<open>Requests\<close>

definition net_ok :: "session_env \<Rightarrow> bool" where
  "net_ok N \<longleftrightarrow> client_env_ok ((s_loop N)\<lparr> inLoopThread := True \<rparr>) (s_pton N) (s_junk N) \<and> attempt_ok (s_attempt N) \<and>
     kernel_ok (s_kernel N)"

text \<open>A connected session that has handed over its output; \<open>c\<close> is connection \<open>i\<close>, with bytes \<open>sent\<close>.\<close>

definition session_ready :: "nat \<Rightarrow> tcp_conn \<Rightarrow> bytes \<Rightarrow> 'b session \<Rightarrow> bool" where
  "session_ready i c sent s \<longleftrightarrow> client_ok (ss_client s) \<and> buf_ok (ss_output s) \<and> unread (ss_output s) = [] \<and>
     connPtr s = Some i \<and> cl_conn (ss_client s) = Some i \<and> conns (ss_client s) i = Some c \<and> conn_inv c sent \<and>
     status c = kConnected"

text \<open>
  What sending the bytes \<open>d\<close> does to the connection: the loop thread hands them over at once,
  another thread queues them as a task of the loop.
\<close>

definition handed :: "session_env \<Rightarrow> tcp_conn \<Rightarrow> bytes \<Rightarrow> bytes \<Rightarrow> tcp_conn \<Rightarrow> bool" where
  "handed N c sent d c' \<longleftrightarrow> (if inLoopThread (s_loop N) then conn_inv c' (sent @ d) else c' = queue_task (SendTask d) c)"

lemma wp_Send_session:
  assumes N: "net_ok N" and c: "conn_inv c sent" "status c = kConnected" and b: "buf_ok b"
  shows "wp (Send_buffer (s_loop N) (s_kernel N) c b) (\<lambda>(c', b'). buf_ok b' \<and> unread b' = [] \<and>
           handed N c sent (unread b) c' \<and> logged c c' \<and> (\<exists>sent'. conn_inv c' sent'))"
proof (cases "inLoopThread (s_loop N)")
  case True
  then have E: "env_ok (s_loop N)" and K: "kernel_ok (s_kernel N)"
    using N by (simp_all add: net_ok_def client_env_ok_def env_ok_def)
  have ok: "conn_ok c" using c by (simp add: conn_inv_def)
  have "wp (SendInLoop (s_loop N) (s_kernel N) c (unread b)) (stream_step c (unread b))"
    by (rule wp_mono [OF wp_SendInLoop [OF E K, of c "unread b"]]) (use ok c in auto)
  then have "wp (SendInLoop (s_loop N) (s_kernel N) c (unread b)) (\<lambda>c'. conn_inv c' (sent @ unread b) \<and> logged c c')"
    by (rule wp_mono) (use c conn_inv_stream [OF c(1)] stream_logged [of c] in auto)
  with True c b show ?thesis by (auto simp: Send_buffer_def handed_def elim!: wp_mono)
next
  case False
  have "conn_inv (queue_task (SendTask d) c) sent" for d using c by (auto simp: conn_inv_def queue_task_def conn_ok_def)
  moreover have "logged c (queue_task (SendTask d) c)" for d using c by (auto simp: logged_def)
  ultimately show ?thesis
    using False c b by (auto simp: Send_buffer_def handed_def NextAllString_def intro!: exI [of _ sent] wp_mono [OF wp_NextAll])
qed


lemma wp_session_send:
  assumes N: "net_ok N" and r: "session_ready i c sent s" and b: "buf_ok b"
  shows "wp (session_send N (s\<lparr> ss_output := b \<rparr>)) (\<lambda>s'. \<exists>c'. conns (ss_client s') i = Some c' \<and>
           handed N c sent (unread b) c' \<and> client_ok (ss_client s') \<and> buf_ok (ss_output s') \<and>
           unread (ss_output s') = [] \<and> channelPool s' = channelPool s \<and> queueLimit s' = queueLimit s)"
proof -
  let ?T = "ss_client s" and ?E = "(s_loop N)\<lparr> inLoopThread := True \<rparr>"
  have R: "client_ok ?T" "connPtr s = Some i" "cl_conn ?T = Some i" "conns ?T i = Some c" "conn_inv c sent"
      "status c = kConnected" using r by (simp_all add: session_ready_def)
  have "connected ?T" using R(1,3) by (auto simp: client_ok_def connecting_def waiting_def)
  then have keep: "wp (foldM (client_event ?E (s_pton N) (s_junk N) (s_attempt N) i) (?T\<lparr> conns := (conns ?T)(i \<mapsto> c') \<rparr>)
       (drop (length (conn_log c)) (conn_log c'))) client_ok" if "conn_inv c' sent'" "logged c c'" for c' sent'
    using N R that by (intro events_keep) (auto simp: net_ok_def)
  have quiet: "conn_log c' = conn_log c" if "\<not> inLoopThread (s_loop N)" "handed N c sent d c'" for c' d
    using that by (auto simp: handed_def)
  have evs: "wp (foldM (client_event (s_loop N) (s_pton N) (s_junk N) (s_attempt N) i) (?T\<lparr> conns := (conns ?T)(i \<mapsto> c') \<rparr>)
       (drop (length (conn_log c)) (conn_log c'))) (\<lambda>T'. client_ok T' \<and> conns T' i = Some c')"
    if h: "handed N c sent d c'" "conn_inv c' sent'" "logged c c'" for c' sent' d
  proof -
    have "wp (foldM (client_event (s_loop N) (s_pton N) (s_junk N) (s_attempt N) i) (?T\<lparr> conns := (conns ?T)(i \<mapsto> c') \<rparr>)
       (drop (length (conn_log c)) (conn_log c'))) client_ok"
    proof (cases "inLoopThread (s_loop N)")
      case True
      then have "?E = s_loop N" by simp
      with keep [OF h(2,3)] show ?thesis by simp
    next
      case False
      with keep [OF h(2,3)] quiet [OF False h(1)] show ?thesis by simp
    qed
    then obtain T' where T': "foldM (client_event (s_loop N) (s_pton N) (s_junk N) (s_attempt N) i)
        (?T\<lparr> conns := (conns ?T)(i \<mapsto> c') \<rparr>) (drop (length (conn_log c)) (conn_log c')) = Some T'" "client_ok T'"
      by (auto simp: wp_def)
    with events_conns [OF T'(1)] show ?thesis by simp
  qed
  show ?thesis
    unfolding session_send_def using R(2,4)
    apply simp
    apply (rule wp_mono [OF wp_Send_session [OF N R(5,6) b]], clarsimp)
    apply (rule wp_mono [OF evs], assumption+, clarsimp)
    done
qed

text \<open>Allocating the channel of a request.\<close>

lemma alloc_pending:
  assumes ok: "pool_ok P" and fresh: "pending_of P (fst (next_id G)) = None"
  shows "wp (ChannelPool_AllocChannel G P) (\<lambda>(c, G', P'). ch_id (cells P' c) = fst (next_id G) \<and> pool_ok P' \<and>
           map_find (useMap P') = (map_find (useMap P))(fst (next_id G) \<mapsto> c) \<and>
           (\<forall>k b. map_find (useMap P) k = Some b \<longrightarrow> b \<noteq> c \<and> payload (cells P' b) = payload (cells P b)))"
proof -
  obtain us fs where inv: "pool_inv P us fs" using ok by (auto simp: pool_ok_def)
  have f: "map_find (useMap P) (fst (next_id G)) = None" using fresh by (simp add: pending_of_def)
  show ?thesis
    by (rule wp_mono [OF AllocChannel_inv [OF inv f]])
      (use pool_invD(11) [OF inv] in \<open>auto simp: pool_ok_def\<close>)
qed

lemma pool_ok_at:
  "pool_ok P \<Longrightarrow> (\<And>x. ch_id (f x) = ch_id x \<and> ch_prev (f x) = ch_prev x \<and> ch_next (f x) = ch_next x) \<Longrightarrow> pool_ok (at c f P)"
  unfolding pool_ok_def by (blast intro: at_payload_inv)

lemma wp_attach_channel:
  assumes ok: "pool_ok (channelPool s)" and fresh: "pending s (fst (next_id (ss_globals s))) = None"
    and S: "existPacketHeader (ss_streamer s)" and p: "objs (ss_mem s) p = Some pk"
  shows "wp (attach_channel s p h a) (\<lambda>s'. \<exists>c G P.
           s' = s\<lparr> ss_globals := G, channelPool := P, ss_mem := (ss_mem s)\<lparr> objs := (objs (ss_mem s))(p \<mapsto>
                  Packet_SetChannel pk (Some (c, fst (next_id (ss_globals s))))) \<rparr> \<rparr> \<and>
           pool_ok P \<and> pending_of P = (pending s)(fst (next_id (ss_globals s)) \<mapsto> (h, a)))"
proof -
  let ?k = "fst (next_id (ss_globals s))"
  have fin: "pool_ok (at c (\<lambda>c. Channel_SetArgs c a) (at c (\<lambda>c. Channel_SetHandler c h) P)) \<and>
      pending_of (at c (\<lambda>c. Channel_SetArgs c a) (at c (\<lambda>c. Channel_SetHandler c h) P)) = (pending s)(?k \<mapsto> (h, a))"
    if "pool_ok P" "map_find (useMap P) = (map_find (useMap (channelPool s)))(?k \<mapsto> c)"
      "\<forall>k b. map_find (useMap (channelPool s)) k = Some b \<longrightarrow> b \<noteq> c \<and> payload (cells P b) = payload (cells (channelPool s) b)"
    for c P
  proof
    show "pool_ok (at c (\<lambda>c. Channel_SetArgs c a) (at c (\<lambda>c. Channel_SetHandler c h) P))"
      using that(1) by (auto intro!: pool_ok_at simp: Channel_SetArgs_def Channel_SetHandler_def)
    show "pending_of (at c (\<lambda>c. Channel_SetArgs c a) (at c (\<lambda>c. Channel_SetHandler c h) P)) = (pending s)(?k \<mapsto> (h, a))"
    proof
      fix k
      show "pending_of (at c (\<lambda>c. Channel_SetArgs c a) (at c (\<lambda>c. Channel_SetHandler c h) P)) k = ((pending s)(?k \<mapsto> (h, a))) k"
      proof (cases "map_find (useMap (channelPool s)) k")
        case None
        then show ?thesis using that(2) by (auto simp: pending_of_def Channel_SetArgs_def Channel_SetHandler_def)
      next
        case (Some b)
        with that(3) have "b \<noteq> c" "payload (cells P b) = payload (cells (channelPool s) b)" by auto
        then show ?thesis using Some that(2) fresh payload_handler [of "cells P b" "cells (channelPool s) b"]
          by (auto simp: pending_of_def Channel_SetArgs_def Channel_SetHandler_def)
      qed
    qed
  qed
  show ?thesis
    using p S unfolding attach_channel_def ExistPacketHeader_def
    apply (simp add: Let_def)
    apply (rule wp_mono [OF alloc_pending [OF ok fresh]], clarify)
    subgoal for c G P
      using fin [of P c]
      by (auto simp: Channel_GetId_def Channel_SetArgs_def Channel_SetHandler_def)
    done
qed

context framed_codec
begin

lemma wp_send_packet:
  assumes N: "net_ok N" and r: "session_ready i c sent s" and S: "ss_streamer s = S"
    and p: "objs (ss_mem s) p = Some pk" and v: "valid (body pk)"
  shows "wp (send_packet cls N s p) (\<lambda>s'. \<exists>c'. conns (ss_client s') i = Some c' \<and>
           handed N c sent (frame S (packetHeader pk) (enc (body pk))) c' \<and> client_ok (ss_client s') \<and>
           channelPool s' = ChannelPool_SetExpireTime (channelPool s) (packet_channel pk) (packet_expireTime pk) \<and>
           unread (ss_output s') = [] \<and> queueLimit s' = queueLimit s)"
proof -
  have enc: "wp (Streamer_Encode cls S (objs (ss_mem s)) p (ss_output s)) (\<lambda>(ok, h', out'). buf_ok out' \<and>
      unread out' = frame S (packetHeader pk) (enc (body pk)) \<and> (\<exists>hd. h' p = Some (pk\<lparr> packetHeader := hd \<rparr>)))"
    by (rule wp_mono [OF wp_Streamer_Encode [of "objs (ss_mem s)" p pk "ss_output s" S, OF p v]])
      (use r framed_streamer in \<open>auto simp: session_ready_def\<close>)
  have snd: "wp (session_send N (s\<lparr> channelPool := P, ss_mem := M, ss_output := out \<rparr>)) (\<lambda>s'. \<exists>c'.
      conns (ss_client s') i = Some c' \<and> handed N c sent (unread out) c' \<and> client_ok (ss_client s') \<and>
      channelPool s' = P \<and> unread (ss_output s') = [] \<and> queueLimit s' = queueLimit s)" if "buf_ok out" for P M out
  proof -
    have "session_ready i c sent (s\<lparr> channelPool := P, ss_mem := M \<rparr>)" using r by (simp add: session_ready_def)
    from wp_session_send [OF N this that] show ?thesis
      by (rule wp_mono) auto
  qed
  have pos: "frame S hd d \<noteq> []" for hd d using length_frame [of S hd d] by (metis list.size(3) add_is_0 zero_neq_numeral)
  show ?thesis
    unfolding send_packet_def S
    apply simp
    apply (rule wp_mono [OF enc], clarsimp simp: Let_def pos Packet_GetChannel_def Packet_GetExpireTime_def)
    apply (rule wp_mono [OF snd], assumption, clarsimp)
    done
qed

end

lemma wp_session_receives:
  assumes "packet_codec cls valid enc same" and "existPacketHeader (ss_streamer s)" and "has_factory (ss_streamer s)"
    and "pmem_ok (ss_mem s)" and "pool_ok (channelPool s)" and "defaultPacketHandler s \<noteq> None" and "\<not> ss_gotHeader s"
    and "\<And>hdr x. (hdr, x) \<in> set ps \<Longrightarrow> valid x" and "buf_ok b" and "unread b = []"
    and "concat cs = frames (ss_streamer s) (map (\<lambda>(hdr, x). (hdr, enc x)) ps)" and "\<forall>c \<in> set cs. length c \<le> 2 ^ 30"
  shows "wp (receives (ClientSession_OnMessage cls log_handler) (b, s) cs) (\<lambda>(b', s'). unread b' = [] \<and>
           (\<exists>calls. ss_calls s' = ss_calls s @ calls \<and>
              answered (\<lambda>hdr d z. \<exists>x y. valid x \<and> enc x = d \<and> same x y \<and> z = SeenPacket hdr y)
                (pending_of (channelPool s)) (defaultPacketHandler s) (map (\<lambda>(hdr, x). (hdr, enc x)) ps) calls) \<and>
           pending_of (channelPool s') = (\<lambda>k. if k \<in> channels_of (map (\<lambda>(hdr, x). (hdr, enc x)) ps)
             then None else pending_of (channelPool s) k))"
proof (rule log_sess.wp_session_OnMessage)
  have H: "framed_codec cls valid enc same (ss_streamer s)"
    using assms(1-3) by (simp add: framed_codec_def framed_codec_axioms_def)
  have arr: "framed_codec.arrives valid enc same = (\<lambda>hdr d z. \<exists>x y. valid x \<and> enc x = d \<and> same x y \<and> z = SeenPacket hdr y)"
    by (intro ext) (simp add: framed_codec.arrives_def [OF H])
  show "wp (feed (ss_streamer s) (ClientSession_HandlePacket cls log_handler) (b, ss_gotHeader s, ss_header s, s) cs)
     (\<lambda>(b', g', h', s'). unread b' = [] \<and>
           (\<exists>calls. ss_calls (put_session g' h' s') = ss_calls s @ calls \<and>
              answered (\<lambda>hdr d z. \<exists>x y. valid x \<and> enc x = d \<and> same x y \<and> z = SeenPacket hdr y)
                (pending_of (channelPool s)) (defaultPacketHandler s) (map (\<lambda>(hdr, x). (hdr, enc x)) ps) calls) \<and>
           pending_of (channelPool (put_session g' h' s')) = (\<lambda>k. if k \<in> channels_of (map (\<lambda>(hdr, x). (hdr, enc x)) ps)
             then None else pending_of (channelPool s) k))"
    using assms(7)
    by (simp, intro wp_mono [OF framed_codec.client_receives [OF H, where s = s and b = b and cs = cs
            and fs = "map (\<lambda>(hdr, x). (hdr, enc x)) ps", unfolded arr]])
      (use assms in \<open>auto simp: framed_codec.encoded_def [OF H] framed_codec.client_inv_def [OF H]\<close>)
qed

section \<open>Properties\<close>

text \<open>
  C3. Replies find their requests: for every packet class that satisfies the codec laws, whatever
  replies arrive, in any order and cut into chunks at any boundaries, the session consumes them
  all; a reply on the channel of a pending request calls the handler of that request exactly once
  (or the default handler, if the request has none) with the reply and the request's argument,
  in the order of the stream; replies on other channels are skipped. Afterwards exactly the
  answered requests are no longer pending.
\<close>

theorem ClientSession_answers:
  assumes "packet_codec cls valid enc same" and "existPacketHeader (ss_streamer s)" and "has_factory (ss_streamer s)"
    and "pmem_ok (ss_mem s)" and "pool_ok (channelPool s)" and "defaultPacketHandler s \<noteq> None" and "\<not> ss_gotHeader s"
    and "\<And>hdr x. (hdr, x) \<in> set ps \<Longrightarrow> valid x" and "buf_ok b" and "unread b = []"
    and "concat cs = frames (ss_streamer s) (map (\<lambda>(hdr, x). (hdr, enc x)) ps)" and "\<forall>c \<in> set cs. length c \<le> 2 ^ 30"
  shows "wp (receives (ClientSession_OnMessage cls log_handler) (b, s) cs) (\<lambda>(b', s'). unread b' = [] \<and>
           (\<exists>calls. ss_calls s' = ss_calls s @ calls \<and>
              answered (\<lambda>hdr d z. \<exists>x y. valid x \<and> enc x = d \<and> same x y \<and> z = SeenPacket hdr y)
                (pending_of (channelPool s)) (defaultPacketHandler s) (map (\<lambda>(hdr, x). (hdr, enc x)) ps) calls) \<and>
           pending_of (channelPool s') = (\<lambda>k. if k \<in> channels_of (map (\<lambda>(hdr, x). (hdr, enc x)) ps)
             then None else pending_of (channelPool s) k))"
  using assms by (rule wp_session_receives)

definition sample_session :: "channel_pool \<Rightarrow> tcp_client \<Rightarrow> echo_packet session" where
  "sample_session P T = \<lparr> ss_client = T, connPtr = Some 0, defaultPacketHandler = Some 9,
     ss_streamer = DefaultPacketStreamer_new True, ss_output = sample_buffer, outputQueue = PacketQueue_new,
     channelPool = P, queueTimeout = 5000, queueTotalSize = 0, queueLimit = 50, ss_gotHeader = False,
     ss_header = header_zero, ss_globals = globals_init, ss_mem = \<lparr> objs = [0 \<mapsto> hello_packet], next_addr = 1 \<rparr>,
     loop_stopped = False, ss_calls = [] \<rparr>"

text \<open>A pool with one request, on channel 3, of handler 4 with argument 5.\<close>

definition asked_pool :: channel_pool where
  "asked_pool = sample_pool\<lparr> useMap := [(3, 0)], useListHead := Some 0, useListTail := Some 0, cells_end := 1,
     cells := (\<lambda>_. no_channel\<lparr> ch_id := 3, ch_handler := Some 4, ch_args := Some 5, ch_prev := None, ch_next := None \<rparr>) \<rparr>"

lemma asked_pool_ok: "pool_ok asked_pool" "pending_of asked_pool = [3 \<mapsto> (Some 4, Some 5)]"
proof -
  have "pool_inv asked_pool [0] []"
    by (auto simp: pool_inv_def asked_pool_def ChannelPool_new_def map_ok_def map_find_def last_opt_def)
  then show "pool_ok asked_pool" by (auto simp: pool_ok_def)
  show "pending_of asked_pool = [3 \<mapsto> (Some 4, Some 5)]"
    by (auto simp: pending_of_def asked_pool_def map_find_def)
qed

theorem ClientSession_answers_witness:
  "wp (receives (ClientSession_OnMessage ClientEcho log_handler) (sample_buffer, sample_session asked_pool sample_client)
         [frame (DefaultPacketStreamer_new True) (header_zero\<lparr> chid := 8 \<rparr>) [104],
          frame (DefaultPacketStreamer_new True) (header_zero\<lparr> chid := 3 \<rparr>) [104]])
     (\<lambda>(b', s'). unread b' = [] \<and> (\<exists>z. ss_calls s' = [(4, z, Some 5)]) \<and> pending_of (channelPool s') 3 = None)"
proof -
  let ?x = "ClientEchoPacket_SetString ClientEchoPacket_new [104]"
  have x: "echo_valid ?x" by (rule echo_valid_SetString) (simp add: ClientEchoPacket_new_def)
  have e: "ClientEchoPacket_GetString ?x = [104]"
    by (rule Client_GetString_SetString) (simp_all add: DATA_MAX_SIZE_def)
  show ?thesis
    by (rule wp_mono [OF ClientSession_answers [OF echo.packet_codec_axioms,
          where ps = "[(header_zero\<lparr> chid := 8 \<rparr>, ?x), (header_zero\<lparr> chid := 3 \<rparr>, ?x)]"]])
      (use x in \<open>auto simp: sample_session_def e pmem_ok_def DefaultPacketStreamer_new_def asked_pool_ok channels_of_def\<close>)
qed


definition sample_online :: "tcp_conn \<Rightarrow> tcp_client" where
  "sample_online c = sample_client\<lparr> cl_conn := Some 0, conns := [0 \<mapsto> c], next_conn := 1, cl_connector := Some 0,
     connectors := [0 \<mapsto> sample_connector\<lparr> cn_status := cConnected \<rparr>], next_connector := 1 \<rparr>"

definition sample_net :: session_env where
  "sample_net = \<lparr> s_loop = sample_env, s_pton = sample_pton, s_junk = replicate 128 0, s_attempt = sample_attempt,
     s_kernel = sample_kernel, s_sec = 1500000000, s_usec = 7 \<rparr>"

lemma sample_online_ready:
  "\<exists>c. session_ready 0 c [] (sample_session P (sample_online c))"
proof -
  obtain c where c: "conn_inv c []" "status c = kConnected" "close_fn c"
    using attach_inv [OF sample_ok(1), of 5 "''c''" "''l''" "''r''" 1 100 False True True True 0 kIncoming]
    by (auto simp: wp_def)
  have d: "cn_done (sample_connector\<lparr> cn_status := cConnected \<rparr>)"
    by (simp add: cn_done_def sample_connector_def idle_chan_def)
  have "connected (sample_online c)"
    unfolding connected_def sample_online_def using c d
    by (intro exI [of _ 0] exI [of _ c] exI [of _ "[]"] exI [of _ "sample_connector\<lparr> cn_status := cConnected \<rparr>"])
      (simp add: sample_client_def TCPClient_new_def TCPClient_Bind_def)
  then have "client_ok (sample_online c)"
    using sample_client_host
    by (auto simp: client_ok_def sample_online_def sample_client_def TCPClient_new_def TCPClient_Bind_def)
  with c show ?thesis by (intro exI [of _ c]) (simp add: session_ready_def sample_session_def sample_online_def)
qed

lemma sample_net_ok: "net_ok sample_net"
proof -
  have "sample_env\<lparr> inLoopThread := True \<rparr> = sample_env" by (simp add: sample_env_def)
  then show ?thesis using sample_client_env sample_ok(2) by (simp add: net_ok_def sample_net_def)
qed


section \<open>Time-outs of requests\<close>

text \<open>The call that tells a request's handler, or the default handler, that it timed out.\<close>

definition notice :: "nat option \<Rightarrow> (nat option \<times> nat option) option \<Rightarrow> nat \<times> 'b seen \<times> nat option" where
  "notice dflt r = (case r of Some (h, a) \<Rightarrow>
     (the (case h of None \<Rightarrow> dflt | Some h \<Rightarrow> Some h), SeenControl CMD_TIMEOUT_PACKET, a))"

lemma notify_log:
  assumes "defaultPacketHandler s \<noteq> None"
  shows "notify_timeout log_handler c s = Some (s\<lparr> ss_calls := ss_calls s @ [notice (defaultPacketHandler s)
           (Some (ch_handler (cells (channelPool s) c), ch_args (cells (channelPool s) c)))],
           channelPool := at c (\<lambda>c. Channel_SetArgs c None) (channelPool s) \<rparr>)"
  using assms by (auto simp: notify_timeout_def log_handler_def seen_arg_def TimeoutPacket_def notice_def Let_def
      Channel_GetHandler_def Channel_GetArgs_def split: option.splits)

lemma timeout_channels_log:
  assumes "clseg (cells (channelPool s)) list es None" and "distinct es" and "defaultPacketHandler s \<noteq> None"
  shows "timeout_channels log_handler list s = Some (s\<lparr>
      ss_calls := ss_calls s @ map (\<lambda>c. notice (defaultPacketHandler s)
        (Some (ch_handler (cells (channelPool s) c), ch_args (cells (channelPool s) c)))) es,
      channelPool := (channelPool s)\<lparr> cells := (\<lambda>a. if a \<in> set es then (cells (channelPool s) a)\<lparr> ch_args := None \<rparr>
        else cells (channelPool s) a) \<rparr> \<rparr>)"
  using assms
proof (induction es arbitrary: s list)
  case Nil
  then show ?case by (subst timeout_channels.simps) simp
next
  case (Cons e es)
  let ?s = "s\<lparr> ss_calls := ss_calls s @ [notice (defaultPacketHandler s)
           (Some (ch_handler (cells (channelPool s) e), ch_args (cells (channelPool s) e)))],
           channelPool := at e (\<lambda>c. Channel_SetArgs c None) (channelPool s) \<rparr>"
  have l: "list = Some e" "clseg (cells (channelPool ?s)) (ch_next (cells (channelPool ?s) e)) es None"
    using Cons.prems by (auto simp: Channel_SetArgs_def)
  have n: "e \<notin> set es" using Cons.prems by simp
  have c: "map (\<lambda>c. notice (defaultPacketHandler s)
        (Some (ch_handler (cells (channelPool ?s) c), ch_args (cells (channelPool ?s) c)))) es =
      map (\<lambda>c. notice (defaultPacketHandler s)
        (Some (ch_handler (cells (channelPool s) c), ch_args (cells (channelPool s) c)))) es"
    using n by (intro map_cong) auto
  have p: "(channelPool ?s)\<lparr> cells := (\<lambda>a. if a \<in> set es then (cells (channelPool ?s) a)\<lparr> ch_args := None \<rparr>
        else cells (channelPool ?s) a) \<rparr> =
      (channelPool s)\<lparr> cells := (\<lambda>a. if a \<in> set (e # es) then (cells (channelPool s) a)\<lparr> ch_args := None \<rparr>
        else cells (channelPool s) a) \<rparr>"
    using n by (auto simp: at_def Channel_SetArgs_def fun_eq_iff)
  have "timeout_channels log_handler list s = timeout_channels log_handler (ch_next (cells (channelPool ?s) e)) ?s"
    by (subst timeout_channels.simps) (use l(1) Cons.prems(3) in \<open>simp add: notify_log Channel_GetNext_def\<close>)
  also have "\<dots> = Some (?s\<lparr> ss_calls := ss_calls ?s @ map (\<lambda>c. notice (defaultPacketHandler s)
        (Some (ch_handler (cells (channelPool ?s) c), ch_args (cells (channelPool ?s) c)))) es,
      channelPool := (channelPool ?s)\<lparr> cells := (\<lambda>a. if a \<in> set es then (cells (channelPool ?s) a)\<lparr> ch_args := None \<rparr>
        else cells (channelPool ?s) a) \<rparr> \<rparr>)"
    using Cons.IH [OF l(2)] Cons.prems by simp
  finally show ?case unfolding c p by simp
qed

lemma free_pending:
  assumes inv: "pool_inv P us fs" and a: "a \<in> set us"
  obtains fs' where "pool_inv (snd (ChannelPool_FreeChannel P (Some a))) (remove1 a us) fs'"
    and "pending_of (snd (ChannelPool_FreeChannel P (Some a))) = (pending_of P)(ch_id (cells P a) := None)"
    and "\<And>b. b \<in> set us \<Longrightarrow> b \<noteq> a \<Longrightarrow> ch_id (cells (snd (ChannelPool_FreeChannel P (Some a))) b) = ch_id (cells P b)"
proof -
  obtain P' where P': "ChannelPool_FreeChannel P (Some a) = (True, P')"
      "pool_inv P' (remove1 a us) (if freeListTail P = None then [a] else fs @ [a])"
      "map_find (useMap P') = (map_find (useMap P))(ch_id (cells P a) := None)"
      "\<forall>b. b \<in> set us \<and> b \<noteq> a \<longrightarrow> payload (cells P' b) = payload (cells P b)"
    using FreeChannel_inv [OF inv a] by blast
  note D = pool_invD [OF inv]
  have pl: "payload (cells P' c) = payload (cells P c)"
    if "((map_find (useMap P))(ch_id (cells P a) := None)) k = Some c" for k c
    using that P'(4) D(11) [of k c] by (auto split: if_split_asm)
  have "pending_of P' k = ((pending_of P)(ch_id (cells P a) := None)) k" for k
    by (subst pending_cong [OF P'(3), of P]) (use pl in \<open>auto simp: pending_of_def\<close>)
  then have "pending_of P' = (pending_of P)(ch_id (cells P a) := None)" by blast
  then show ?thesis
    using that [of "if freeListTail P = None then [a] else fs @ [a]"] P'(1,2) payload_eqD [OF P'(4) [rule_format, OF conjI]]
    by simp
qed


lemma wp_timeout_packets:
  assumes "plseg (objs (ss_mem s)) list ps None" and "distinct ps" and "pool_inv (channelPool s) us fs"
    and "defaultPacketHandler s \<noteq> None" and "distinct (map ch ps)"
    and "\<forall>p \<in> set ps. ch p \<in> set us \<and> (\<exists>pk. objs (ss_mem s) p = Some pk \<and> packet_channel pk = Some (ch p))"
  shows "wp (timeout_packets cls log_handler list s) (\<lambda>s'.
           ss_calls s' = ss_calls s @ map (\<lambda>p. notice (defaultPacketHandler s) (pending s (ch_id (cells (channelPool s) (ch p))))) ps \<and>
           pending s' = (\<lambda>k. if k \<in> (\<lambda>p. ch_id (cells (channelPool s) (ch p))) ` set ps then None else pending s k))"
  using assms
proof (induction ps arbitrary: s list us fs)
  case Nil
  then show ?case by (subst timeout_packets.simps) simp
next
  case (Cons p ps)
  let ?P = "channelPool s" and ?c = "ch p"
  define id where "id q = ch_id (cells ?P (ch q))" for q
  obtain pk where pk: "objs (ss_mem s) p = Some pk" "packet_channel pk = Some ?c" "?c \<in> set us"
      "list = Some p" "plseg (objs (ss_mem s)) (packet_next pk) ps None"
    using Cons.prems(1,6) by auto
  define P1 where "P1 = at ?c (\<lambda>c. Channel_SetArgs c None) ?P"
  define P2 where "P2 = snd (ChannelPool_FreeChannel P1 (Some ?c))"
  note D = pool_invD [OF Cons.prems(3)]
  have i1: "pool_inv P1 us fs"
    unfolding P1_def by (rule at_payload_inv [OF Cons.prems(3)]) (simp add: Channel_SetArgs_def)
  have id1: "ch_id (cells P1 b) = ch_id (cells ?P b)" for b by (simp add: P1_def Channel_SetArgs_def)
  obtain fs' where P2: "pool_inv P2 (remove1 ?c us) fs'" "pending_of P2 = (pending_of P1)(id p := None)"
      "\<And>b. b \<in> set us \<Longrightarrow> b \<noteq> ?c \<Longrightarrow> ch_id (cells P2 b) = ch_id (cells ?P b)"
    using free_pending [OF i1 pk(3)] by (auto simp: P2_def id1 id_def)
  have find: "map_find (useMap ?P) (id p) = Some ?c" using D(11) pk(3) by (simp add: id_def)
  have "(pending_of P1)(id p := None) = (pending s)(id p := None)"
    using D(11) by (auto simp: pending_of_def P1_def id_def fun_eq_iff intro!: option.map_cong)
  with P2(2) have pend: "pending_of P2 = (pending s)(id p := None)" by simp
  have other: "ch q \<noteq> ?c" "id q \<noteq> id p" "ch q \<in> set us" if "q \<in> set ps" for q
  proof -
    show "ch q \<in> set us" using Cons.prems(6) that by simp
    have "?c \<notin> ch ` set ps" using Cons.prems(5) by simp
    then show n: "ch q \<noteq> ?c" using that by (metis imageI)
    show "id q \<noteq> id p" using pool_id_inj [OF Cons.prems(3) \<open>ch q \<in> set us\<close> pk(3)] n by (auto simp: id_def)
  qed
  let ?n = "notice (defaultPacketHandler s) (pending s (id p))"
  let ?s = "s\<lparr> ss_mem := (ss_mem s)\<lparr> objs := Packet_Free cls (objs (ss_mem s)) p \<rparr>, ss_calls := ss_calls s @ [?n],
               channelPool := P2 \<rparr>"
  have step: "timeout_packets cls log_handler list s = timeout_packets cls log_handler (packet_next pk) ?s"
    by (subst timeout_packets.simps)
      (use pk Cons.prems(4) find in \<open>simp add: notify_log Packet_GetChannel_def Packet_GetNext_def Let_def
        P2_def P1_def pending_of_def\<close>)
  have n: "p \<notin> set ps" using Cons.prems(2) by simp
  have "wp (timeout_packets cls log_handler (packet_next pk) ?s) (\<lambda>s'.
      ss_calls s' = ss_calls ?s @ map (\<lambda>p. notice (defaultPacketHandler ?s) (pending ?s (ch_id (cells (channelPool ?s) (ch p))))) ps \<and>
      pending s' = (\<lambda>k. if k \<in> (\<lambda>p. ch_id (cells (channelPool ?s) (ch p))) ` set ps then None else pending ?s k))"
  proof (rule Cons.IH)
    show "plseg (objs (ss_mem ?s)) (packet_next pk) ps None" using pk(5) n by (simp add: Packet_Free_def)
    show "pool_inv (channelPool ?s) (remove1 ?c us) fs'" using P2(1) by simp
    show "\<forall>q \<in> set ps. ch q \<in> set (remove1 ?c us) \<and> (\<exists>pk. objs (ss_mem ?s) q = Some pk \<and> packet_channel pk = Some (ch q))"
      using Cons.prems(6) other n by (auto simp: Packet_Free_def)
  qed (use Cons.prems in auto)
  moreover have "map (\<lambda>p. notice (defaultPacketHandler ?s) (pending ?s (ch_id (cells (channelPool ?s) (ch p))))) ps =
      map (\<lambda>p. notice (defaultPacketHandler s) (pending s (id p))) ps"
    using other P2(3) pend by (intro map_cong) (auto simp: id_def)
  moreover have "(\<lambda>p. ch_id (cells (channelPool ?s) (ch p))) ` set ps = id ` set ps"
    using other P2(3) by (intro image_cong) (auto simp: id_def)
  ultimately show ?case
    unfolding step id_def [symmetric] by (elim wp_mono) (auto simp: pend fun_eq_iff)
qed

lemma pool_inv_cells:
  assumes "pool_inv P us fs" and "\<And>a. a \<in> set us \<union> set fs \<Longrightarrow> c a = cells P a"
  shows "pool_inv (P\<lparr> cells := c \<rparr>) us fs"
proof -
  note D = pool_invD [OF assms(1)]
  have "dll c None (useListHead P) us None" using D(1) assms(2) by (subst dll_cong [where c = "cells P"]) auto
  moreover have "clseg c (freeListHead P) fs None" using D(3) assms(2) by (subst clseg_cong [where c = "cells P"]) auto
  ultimately show ?thesis using D assms(2) by (intro pool_invI) auto
qed

text \<open>What is pending once the channels \<open>es\<close> have left the use list.\<close>

lemma pending_rest:
  assumes inv: "pool_inv P (es @ rs) fs" and inv': "pool_inv P' rs fs'"
    and pl: "\<And>b. b \<in> set rs \<Longrightarrow> payload (cells P' b) = payload (cells P b)"
  shows "pending_of P' = (\<lambda>k. if k \<in> (\<lambda>c. ch_id (cells P c)) ` set es then None else pending_of P k)"
proof
  fix k
  note D = pool_invD [OF inv] and D' = pool_invD [OF inv']
  have id: "ch_id (cells P' b) = ch_id (cells P b)" if "b \<in> set rs" for b using payload_eqD [OF pl [OF that]] .
  have dis: "set es \<inter> set rs = {}" using D(5) by simp
  show "pending_of P' k = (if k \<in> (\<lambda>c. ch_id (cells P c)) ` set es then None else pending_of P k)"
  proof (cases "map_find (useMap P') k")
    case (Some b)
    then have b: "b \<in> set rs" "ch_id (cells P b) = k" using D'(11) id by auto
    then have "map_find (useMap P) k = Some b" using D(11) by simp
    moreover have "k \<notin> (\<lambda>c. ch_id (cells P c)) ` set es"
      using pool_id_inj [OF inv, of _ b] b dis by fastforce
    ultimately show ?thesis using Some payload_handler [OF pl [OF b(1)]] by (simp add: pending_of_def)
  next
    case None
    have "map_find (useMap P) k = None" if "k \<notin> (\<lambda>c. ch_id (cells P c)) ` set es"
    proof (rule ccontr)
      assume "map_find (useMap P) k \<noteq> None"
      then obtain b where b: "b \<in> set (es @ rs)" "ch_id (cells P b) = k" using D(11) by auto
      with that have "b \<in> set rs" by auto
      with b id D'(11) [of k b] None show False by simp
    qed
    with None show ?thesis by (simp add: pending_of_def)
  qed
qed

definition timeout_use :: "'b handler \<Rightarrow> 'b session \<Rightarrow> u64 \<Rightarrow> 'b session option" where
  "timeout_use H s now = do {
     (list, P) \<leftarrow> ChannelPool_GetTimeoutList (channelPool s) now;
     let s = s\<lparr> channelPool := P \<rparr>;
     if list \<noteq> None then do {
       s \<leftarrow> timeout_channels H list s;
       (r, P) \<leftarrow> ChannelPool_AppendFreeList (channelPool s) list;
       Some (s\<lparr> channelPool := P \<rparr>) }
     else Some s }"

lemma CheckTimeout_eq:
  "CheckTimeout cls H s now = do {
     s \<leftarrow> timeout_use H s now;
     (packetList, h, q) \<leftarrow> PacketQueue_GetTimeoutList (objs (ss_mem s)) (outputQueue s) now;
     s \<leftarrow> timeout_packets cls H packetList (s\<lparr> ss_mem := (ss_mem s)\<lparr> objs := h \<rparr>, outputQueue := q \<rparr>);
     Some (True, recount s) }"
  by (simp add: CheckTimeout_def timeout_use_def Let_def split_def Option.bind_assoc)

text \<open>The expired channels go to the free list once their arguments are cleared.\<close>

lemma append_expired:
  assumes inv: "pool_inv P (es @ rs) fs"
    and P1: "pool_inv P1 rs fs" "clseg (cells P1) (Some e) es None" "cells_end P1 = cells_end P"
  shows "wp (ChannelPool_AppendFreeList (P1\<lparr> cells := \<lambda>a. if a \<in> set es then (cells P1 a)\<lparr> ch_args := None \<rparr> else cells P1 a \<rparr>) (Some e))
      (\<lambda>(r, P'). \<exists>fs'. pool_inv P' rs fs' \<and> (\<forall>b \<in> set rs. cells P' b = cells P1 b))"
proof -
  let ?P2 = "P1\<lparr> cells := \<lambda>a. if a \<in> set es then (cells P1 a)\<lparr> ch_args := None \<rparr> else cells P1 a \<rparr>"
  note D = pool_invD [OF inv]
  have dis: "set es \<inter> (set rs \<union> set fs) = {}" "distinct es" "\<forall>x \<in> set es. x < cells_end P1"
    using D(5,7,8) P1(3) by auto
  have i2: "pool_inv ?P2 rs fs" using dis(1) by (intro pool_inv_cells [OF P1(1)]) auto
  have c2: "clseg (cells ?P2) (Some e) es None" using P1(2) by (subst clseg_cong [where c = "cells P1"]) auto
  have n: "b \<notin> set fs" "b \<notin> set es" if "b \<in> set rs" for b using that dis(1) D(7) by auto
  show ?thesis
    by (rule wp_mono [OF AppendFreeList_inv [OF i2 c2 dis(2)]]) (use dis n in auto)
qed

lemma wp_timeout_use:
  assumes inv: "pool_inv (channelPool s) (es @ rs) fs" and d: "defaultPacketHandler s \<noteq> None"
    and es: "es = takeWhile (ch_expired (cells (channelPool s)) now) (es @ rs)"
  shows "wp (timeout_use log_handler s now) (\<lambda>s'.
           ss_calls s' = ss_calls s @ map (\<lambda>c. notice (defaultPacketHandler s) (pending s (ch_id (cells (channelPool s) c)))) es \<and>
           ss_mem s' = ss_mem s \<and> outputQueue s' = outputQueue s \<and> defaultPacketHandler s' = defaultPacketHandler s \<and>
           (\<exists>fs'. pool_inv (channelPool s') rs fs') \<and>
           (\<forall>b \<in> set rs. payload (cells (channelPool s') b) = payload (cells (channelPool s) b)))"
proof -
  let ?P = "channelPool s" and ?u = "es @ rs"
  note D = pool_invD [OF inv]
  have rs: "rs = dropWhile (ch_expired (cells ?P) now) ?u"
    using es by (metis append_same_eq takeWhile_dropWhile_id same_append_eq)
  have g: "wp (ChannelPool_GetTimeoutList ?P now) (\<lambda>(list, P'). pool_inv P' rs fs \<and>
           clseg (cells P') list es None \<and> cells_end P' = cells_end ?P \<and>
           (\<forall>a. payload (cells P' a) = payload (cells ?P a)) \<and> (\<forall>a. a \<notin> set ?u \<longrightarrow> cells P' a = cells ?P a))"
    by (rule wp_mono [OF GetTimeoutList_inv [OF inv, of now, folded rs es]]) auto
  have find: "pending s (ch_id (cells ?P c)) = Some (ch_handler (cells ?P c), ch_args (cells ?P c))" if "c \<in> set es" for c
    using D(11) [of "ch_id (cells ?P c)" c] that by (simp add: pending_of_def)
  have pl: "notice d (Some (ch_handler (cells P1 c), ch_args (cells P1 c))) = notice d (pending s (ch_id (cells ?P c)))"
    if "\<forall>a. payload (cells P1 a) = payload (cells ?P a)" "c \<in> set es" for P1 c d
    using find [OF that(2)] payload_handler [OF that(1) [rule_format, of c]] by simp
  have ne: "es = []" if "clseg c None es None" for c using that by simp
  show ?thesis
    unfolding timeout_use_def wp_bind
    apply (rule wp_mono [OF g], clarify)
    subgoal for list P1
    proof -
      assume 1: "pool_inv P1 rs fs" "clseg (cells P1) list es None" "cells_end P1 = cells_end ?P"
        "\<forall>a. payload (cells P1 a) = payload (cells ?P a)"
      show ?thesis
      proof (cases list)
        case None
        then have "es = []" using 1(2) ne by blast
        with None 1 show ?thesis by (auto simp: Let_def)
      next
        case (Some e)
        have t: "timeout_channels log_handler list (s\<lparr> channelPool := P1 \<rparr>) = Some (s\<lparr>
            ss_calls := ss_calls s @ map (\<lambda>c. notice (defaultPacketHandler s) (pending s (ch_id (cells ?P c)))) es,
            channelPool := P1\<lparr> cells := (\<lambda>a. if a \<in> set es then (cells P1 a)\<lparr> ch_args := None \<rparr> else cells P1 a) \<rparr> \<rparr>)"
        proof -
          have m: "map (\<lambda>c. notice (defaultPacketHandler s) (Some (ch_handler (cells P1 c), ch_args (cells P1 c)))) es =
              map (\<lambda>c. notice (defaultPacketHandler s) (pending s (ch_id (cells ?P c)))) es"
            by (rule map_cong [OF refl pl [OF 1(4)]])
          show ?thesis
            using timeout_channels_log [of "s\<lparr> channelPool := P1 \<rparr>" list es] 1(2) d D(5) by (simp add: m cong: if_cong)
        qed
        show ?thesis
          using Some 1(4) append_expired [OF inv 1(1) 1(2) [unfolded Some] 1(3)]
          by (auto simp: Let_def t [unfolded Some] elim!: wp_mono)
      qed
    qed
    done
qed

text \<open>The second half of the scan: the expired packets \<open>qs\<close> at the front of the output queue.\<close>

lemma wp_timeout_queue:
  assumes pq: "pq_rel (objs M) Q ps" and d: "defaultPacketHandler t \<noteq> None" and ch: "distinct (map ch ps)"
    and pk: "\<forall>p \<in> set ps. \<exists>pk. objs M p = Some pk \<and> packet_channel pk = Some (ch p)"
    and t: "pool_inv (channelPool t) rs fs"
    and qs_def: "qs = takeWhile (expired (objs M) now) ps" and qrs: "\<And>p. p \<in> set qs \<Longrightarrow> ch p \<in> set rs"
  shows "wp (PacketQueue_GetTimeoutList (objs M) Q now) (\<lambda>(list, h, q).
      wp (timeout_packets cls log_handler list (t\<lparr> ss_mem := M\<lparr> objs := h \<rparr>, outputQueue := q \<rparr>))
        (\<lambda>s'. ss_calls s' = ss_calls t @ map (\<lambda>p. notice (defaultPacketHandler t) (pending t (ch_id (cells (channelPool t) (ch p))))) qs \<and>
           pending s' = (\<lambda>k. if k \<in> (\<lambda>p. ch_id (cells (channelPool t) (ch p))) ` set qs then None else pending t k)))"
proof (rule wp_mono [OF wp_GetTimeoutList [OF pq, of now, folded qs_def]], clarify, goal_cases)
  case (1 list h q')
  have sub: "set qs \<subseteq> set ps" by (auto simp: qs_def dest: set_takeWhileD)
  have "map ch ps = map ch qs @ map ch (dropWhile (expired (objs M) now) ps)"
    unfolding qs_def map_append [symmetric] takeWhile_dropWhile_id ..
  then have q: "distinct (map ch qs)" using ch by simp
  have pk': "\<exists>pk. h p = Some pk \<and> packet_channel pk = Some (ch p)" if "p \<in> set qs" for p
  proof -
    from subsetD [OF sub that] obtain pk where pk: "objs M p = Some pk" "packet_channel pk = Some (ch p)" using pk by auto
    with 1(3) have "map_option (packet_next_update (\<lambda>_. None)) (h p) = Some (pk\<lparr> packet_next := None \<rparr>)" by simp
    then obtain pk' where pk': "h p = Some pk'" "pk'\<lparr> packet_next := None \<rparr> = pk\<lparr> packet_next := None \<rparr>" by auto
    have "packet_channel pk' = packet_channel pk" using arg_cong [OF pk'(2), of packet_channel] by simp
    with pk(2) pk'(1) show ?thesis by simp
  qed
  let ?t = "t\<lparr> ss_mem := M\<lparr> objs := h \<rparr>, outputQueue := q' \<rparr>"
  have "wp (timeout_packets cls log_handler list ?t) (\<lambda>s'.
         ss_calls s' = ss_calls ?t @ map (\<lambda>p. notice (defaultPacketHandler ?t) (pending ?t (ch_id (cells (channelPool ?t) (ch p))))) qs \<and>
         pending s' = (\<lambda>k. if k \<in> (\<lambda>p. ch_id (cells (channelPool ?t) (ch p))) ` set qs then None else pending ?t k))"
    by (rule wp_timeout_packets [where us = rs and fs = fs]) (use 1(1) t d q qrs pk' distinct_map in auto)
  then show ?case by (simp cong: if_cong)
qed

text \<open>Channels that stay in use keep their identifiers and requests when \<open>es\<close> leave.\<close>

lemma pending_queued:
  assumes inv: "pool_inv P (es @ rs) fs" and P': "pool_inv P' rs fs'" "\<forall>b \<in> set rs. payload (cells P' b) = payload (cells P b)"
    and qrs: "\<And>p. p \<in> set qs \<Longrightarrow> ch p \<in> set rs"
  shows "map (\<lambda>p. notice d (pending_of P' (ch_id (cells P' (ch p))))) qs = map (\<lambda>p. notice d (pending_of P (ch_id (cells P (ch p))))) qs"
    and "(\<lambda>p. ch_id (cells P' (ch p))) ` set qs = (\<lambda>p. ch_id (cells P (ch p))) ` set qs"
    and "pending_of P' = (\<lambda>k. if k \<in> (\<lambda>c. ch_id (cells P c)) ` set es then None else pending_of P k)"
proof -
  show r: "pending_of P' = (\<lambda>k. if k \<in> (\<lambda>c. ch_id (cells P c)) ` set es then None else pending_of P k)"
    using pending_rest [OF inv P'(1)] P'(2) by blast
  have id: "ch_id (cells P' (ch p)) = ch_id (cells P (ch p))" if "p \<in> set qs" for p
    using payload_eqD P'(2) qrs [OF that] by blast
  have "ch_id (cells P (ch p)) \<notin> (\<lambda>c. ch_id (cells P c)) ` set es" if "p \<in> set qs" for p
  proof
    assume "ch_id (cells P (ch p)) \<in> (\<lambda>c. ch_id (cells P c)) ` set es"
    then obtain e where e: "e \<in> set es" "ch_id (cells P e) = ch_id (cells P (ch p))" by force
    then have "e = ch p" by (intro pool_id_inj [OF inv]) (use e qrs [OF that] in simp_all)
    with e(1) qrs [OF that] pool_invD(5) [OF inv] show False by auto
  qed
  with id show "map (\<lambda>p. notice d (pending_of P' (ch_id (cells P' (ch p))))) qs =
    map (\<lambda>p. notice d (pending_of P (ch_id (cells P (ch p))))) qs" by (intro map_cong) (auto simp: r)
  show "(\<lambda>p. ch_id (cells P' (ch p))) ` set qs = (\<lambda>p. ch_id (cells P (ch p))) ` set qs" using id by (intro image_cong) auto
qed




text \<open>
  C37. A connection that breaks in the middle of a reply spoils the next one: the header that was
  read (\<open>gotHeader_\<close>, \<open>packetHeader_\<close>) is not forgotten when the session connects again, so that the
  first bytes of the new connection are taken for the body of the old reply. When the request of the
  old reply is no longer pending, they are skipped: a whole new reply of that length is lost, and
  its handler is not called.
\<close>

theorem ClientSession_stale_header:
  assumes "existPacketHeader (ss_streamer s)" and "conns (ss_client s) i = Some c" and "conn_IsConnected c"
    and "PacketQueue_Empty (outputQueue s)" and "ss_gotHeader s" and "pending_of (channelPool s) (chid (ss_header s) AND 0xFFFFFFF) = None"
    and "buf_ok b" and "unread b = frame (ss_streamer s) hdr d" and "dataLen (ss_header s) = of_nat (length (unread b))"
    and "length (unread b) < 2 ^ 31"
  shows "wp (ClientSession_OnConnection cls N Some s i) (\<lambda>s1.
           wp (ClientSession_OnMessage cls log_handler b s1) (\<lambda>(b', s'). unread b' = [] \<and> ss_calls s' = ss_calls s))"
proof -
  let ?s = "s\<lparr> connPtr := Some i \<rparr>" and ?n = "length (unread b)"
  have conn: "ClientSession_OnConnection cls N Some s i = Some ?s"
    using assms(2-4) by (simp add: ClientSession_OnConnection_def PostOutputQueue_def ss_IsConnected_def
        PacketQueue_Empty_def PacketQueue_Size_def)
  have l: "sint (of_nat ?n :: u32) = int ?n" by (rule sint32_of_nat [OF assms(10)])
  then have z: "size_of_int (of_nat ?n) = ?n" by (subst size_of_int_nonneg) simp_all
  have pos: "?n \<noteq> 0" using assms(8) by simp
  have off: "ChannelPool_OfferChannel (channelPool s) (chid (ss_header s) AND 0xFFFFFFF) = (None, channelPool s)"
    using assms(6) by (simp add: pending_of_def ChannelPool_OfferChannel_def)
  have skip: "wp (ClientSession_HandlePacket cls log_handler b (ss_header s) ?s)
      (\<lambda>(b', s'). buf_ok b' \<and> unread b' = [] \<and> s' = ?s)"
    using assms(1,7,9) off z by (auto simp: ClientSession_HandlePacket_def ExistPacketHeader_def intro!: wp_mono [OF wp_Skip])
  have again: "wp (on_message_loop S H b' False h t) (\<lambda>(b', got, h, br, s'). unread b' = [] \<and> s' = t)"
    if "buf_ok b'" "unread b' = []" for S H b' h and t :: "'b session"
    using that by (subst on_message_loop.simps) simp
  have "wp (on_message_loop (ss_streamer s) (ClientSession_HandlePacket cls log_handler) b True (ss_header s) ?s)
      (\<lambda>(b', got, h, br, s'). unread b' = [] \<and> s' = ?s)"
    by (subst on_message_loop.simps)
      (use assms(5,7,9) l pos skip again in \<open>auto simp del: length_greater_0_conv length_0_conv elim!: wp_mono\<close>)
  then show ?thesis
    unfolding conn using assms(5) by (auto simp: ClientSession_OnMessage_def on_message_def elim!: wp_mono)
qed

theorem ClientSession_stale_header_witness:
  "\<exists>c. wp (Buffer_Append sample_buffer (frame (DefaultPacketStreamer_new True) (header_zero\<lparr> chid := 3 \<rparr>) [104, 105])) (\<lambda>b.
     wp (ClientSession_OnConnection ClientEcho sample_net Some
          ((sample_session asked_pool (sample_online c))\<lparr> ss_gotHeader := True, ss_header := header_zero\<lparr> chid := 2, dataLen := 18 \<rparr> \<rparr>) 0)
       (\<lambda>s1. wp (ClientSession_OnMessage ClientEcho log_handler b s1) (\<lambda>(b', s'). unread b' = [] \<and> ss_calls s' = [])))"
proof -
  obtain c where r: "session_ready 0 c [] (sample_session asked_pool (sample_online c))" using sample_online_ready by blast
  let ?f = "frame (DefaultPacketStreamer_new True) (header_zero\<lparr> chid := 3 \<rparr>) [104, 105]"
  let ?s = "(sample_session asked_pool (sample_online c))\<lparr> ss_gotHeader := True, ss_header := header_zero\<lparr> chid := 2, dataLen := 18 \<rparr> \<rparr>"
  have s: "conns (ss_client ?s) 0 = Some c" "conn_IsConnected c" "ss_calls ?s = []"
    using r by (simp_all add: session_ready_def conn_IsConnected_def sample_session_def)
  have "wp (ClientSession_OnConnection ClientEcho sample_net Some ?s 0)
       (\<lambda>s1. wp (ClientSession_OnMessage ClientEcho log_handler b s1) (\<lambda>(b', s'). unread b' = [] \<and> ss_calls s' = ss_calls ?s))"
    if "buf_ok b" "unread b = ?f" for b
    by (rule ClientSession_stale_header [OF _ s(1,2)])
      (use that in \<open>simp_all add: sample_session_def asked_pool_ok DefaultPacketStreamer_new_def PacketQueue_new_def
        PacketQueue_Empty_def\<close>)
  then show ?thesis unfolding s(3)
    by (intro exI [of _ c] wp_mono [OF wp_Buffer_Append]) auto
qed

end
