(* ===== verification/Config.thy ===== *)
theory Config
  imports CString StdMap "HOL-Library.List_Lexorder" "HOL-Library.Char_ord"
begin

text \<open>
  The configuration file (\<open>common/sys/config.h\<close>, \<open>config.cpp\<close>, the branch for systems other than
  Windows). The object keeps the sections as a \<open>std::map\<close> of maps and the path of the file; the
  files are a map from paths to contents, all of which can be read and written. The map of a
  section belongs to its section alone, so the pointer \<open>pMap\<close> of \<open>Load\<close> is the name of the
  section it was found or inserted for. \<open>None\<close> is a failing \<open>assert\<close>, an operation on a null
  \<open>FILE\<close> or an overflow of a buffer on the stack.
\<close>

section \<open>Data\<close>

type_synonym section_map = "(string, string) stdmap"
type_synonym ini_map = "(string, section_map) stdmap"
type_synonym files = "string \<rightharpoonup> string"

record config =
  m_ConfigMap :: ini_map
  m_FilePath :: string

definition QY_LIGHT_CONTROL_SUCCESS :: int where "QY_LIGHT_CONTROL_SUCCESS = 0"

definition QY_LIGHT_CONTROL_FAIL :: int where "QY_LIGHT_CONTROL_FAIL = -1"

definition QY_LIGHT_CONTROL_ERROR :: int where "QY_LIGHT_CONTROL_ERROR = -2"

definition CConfig_new :: config where
  "CConfig_new = \<lparr>m_ConfigMap = [], m_FilePath = []\<rparr>"

definition CConfig_new_file :: "string \<Rightarrow> config" where
  "CConfig_new_file rFilename = \<lparr>m_ConfigMap = [], m_FilePath = rFilename\<rparr>"

section \<open>Parsing a row\<close>

text \<open>
  \<open>_ParseValue\<close> and \<open>_GetSectionName\<close> change the string they are given; they return their code
  and the final values of their reference parameters.
\<close>

definition CConfig_ParseValue ::
  "string \<Rightarrow> string \<Rightarrow> string \<Rightarrow> (int \<times> string \<times> string \<times> string) option" where
  "CConfig_ParseValue rStr rKey rValue =
     (if rStr = [] then Some (QY_LIGHT_CONTROL_FAIL, rStr, rKey, rValue)
      else
        (let rStr = Trim rStr
         in if rStr = [] \<or> hd rStr = CHR ''#'' \<or> hd rStr = CHR '';''
            then Some (QY_LIGHT_CONTROL_FAIL, rStr, rKey, rValue)
            else case find_char (CHR ''='') rStr of
              None \<Rightarrow> Some (QY_LIGHT_CONTROL_ERROR, rStr, rKey, rValue)
            | Some pos \<Rightarrow> do {
                rKey \<leftarrow> substr rStr 0 pos;
                let rKey = Trim rKey;
                rValue \<leftarrow>
                  (case find_char (CHR ''#'') rStr of
                     Some pos1 \<Rightarrow> do {
                       assert_that (size_diff pos1 pos > 1);
                       substr rStr (pos + 1) (size_diff pos1 pos - 1) }
                   | None \<Rightarrow> substr rStr (pos + 1) (length rStr - pos - 1));
                Some (QY_LIGHT_CONTROL_SUCCESS, rStr, rKey, Trim rValue) }))"

definition CConfig_GetSectionName :: "string \<Rightarrow> string \<Rightarrow> int \<times> string \<times> string" where
  "CConfig_GetSectionName rStr rSectionName =
     (let rStr = TrimLeft rStr
      in if rStr = [] \<or> length rStr \<le> 2 \<or> hd rStr \<noteq> CHR ''[''
         then (QY_LIGHT_CONTROL_FAIL, rStr, rSectionName)
         else
           (let rStr = TrimRight rStr
            in if last rStr \<noteq> CHR '']'' then (QY_LIGHT_CONTROL_ERROR, rStr, rSectionName)
               else (QY_LIGHT_CONTROL_SUCCESS, rStr,
                     Trim (take (length rStr - 2) (drop 1 rStr)))))"

section \<open>Loading\<close>

text \<open>\<open>std::map::insert\<close> keeps an element that is there.\<close>

definition map_insert :: "('k::linorder, 'v) stdmap \<Rightarrow> 'k \<Rightarrow> 'v \<Rightarrow> ('k, 'v) stdmap" where
  "map_insert m k v = (case map_find m k of None \<Rightarrow> map_set m k v | Some _ \<Rightarrow> m)"

text \<open>The loop of \<open>Load\<close> over the rows of the file.\<close>

fun load_rows :: "string list \<Rightarrow> ini_map \<Rightarrow> string option \<Rightarrow> (int \<times> ini_map) option" where
  "load_rows [] cfg pMap = Some (QY_LIGHT_CONTROL_SUCCESS, cfg)"
| "load_rows (data # rows) cfg pMap =
     (let (sectionRet, dataStr, sectionName) = CConfig_GetSectionName (c_str data) []
      in if sectionRet = QY_LIGHT_CONTROL_SUCCESS
         then load_rows rows (map_insert cfg sectionName []) (Some sectionName)
         else if sectionRet = QY_LIGHT_CONTROL_ERROR then Some (QY_LIGHT_CONTROL_FAIL, cfg)
         else do {
           (contextRet, dataStr, key, val) \<leftarrow> CConfig_ParseValue dataStr [] [];
           if contextRet = QY_LIGHT_CONTROL_SUCCESS then do {
             sec \<leftarrow> pMap;
             m \<leftarrow> map_find cfg sec;
             load_rows rows (map_set cfg sec (map_insert m key val)) pMap }
           else if contextRet = QY_LIGHT_CONTROL_ERROR then Some (QY_LIGHT_CONTROL_FAIL, cfg)
           else load_rows rows cfg pMap })"

definition CConfig_Load :: "files \<Rightarrow> string \<Rightarrow> config \<Rightarrow> (int \<times> config) option" where
  "CConfig_Load fs rFilename C = do {
     let C = C\<lparr>m_FilePath := rFilename\<rparr>;
     content \<leftarrow> fs rFilename;
     (ret, cfg) \<leftarrow> load_rows (file_rows content) (m_ConfigMap C) None;
     Some (ret, C\<lparr>m_ConfigMap := cfg\<rparr>) }"

section \<open>Queries\<close>

text \<open>The return code and the value stored in \<open>rValue\<close>.\<close>

definition CConfig_GetString :: "config \<Rightarrow> string \<Rightarrow> string \<Rightarrow> string \<Rightarrow> int \<times> string" where
  "CConfig_GetString C rSection rKey rDefaultValue =
     (case map_find (m_ConfigMap C) rSection of
        None \<Rightarrow> (QY_LIGHT_CONTROL_FAIL, rDefaultValue)
      | Some m \<Rightarrow>
          (case map_find m rKey of
             None \<Rightarrow> (QY_LIGHT_CONTROL_FAIL, rDefaultValue)
           | Some v \<Rightarrow> (QY_LIGHT_CONTROL_SUCCESS, v)))"

text \<open>\<open>std::to_string\<close> of an \<open>int\<close>; \<open>std::atoi\<close> is defined for numbers in the range of \<open>int\<close> only.\<close>

definition int_to_string :: "int \<Rightarrow> string" where
  "int_to_string i = (if i < 0 then CHR ''-'' # to_string (nat (- i)) else to_string (nat i))"

definition CConfig_GetInt :: "config \<Rightarrow> string \<Rightarrow> string \<Rightarrow> int \<Rightarrow> int option" where
  "CConfig_GetInt C rSection rKey defaultValue =
     (let (rc, numStr) = CConfig_GetString C rSection rKey (int_to_string defaultValue)
      in if rc \<noteq> QY_LIGHT_CONTROL_SUCCESS then Some defaultValue
         else do {
           let i = atoi (c_str numStr);
           assert_that (- (2 ^ 31) \<le> i \<and> i < 2 ^ 31);
           Some i })"

definition CConfig_GetSectionKey :: "config \<Rightarrow> string \<Rightarrow> string list \<Rightarrow> int \<times> string list" where
  "CConfig_GetSectionKey C rSection rKeyVec =
     (case map_find (m_ConfigMap C) rSection of
        None \<Rightarrow> (QY_LIGHT_CONTROL_FAIL, rKeyVec)
      | Some m \<Rightarrow> (QY_LIGHT_CONTROL_SUCCESS, rKeyVec @ map fst m))"

definition CConfig_SectionNames :: "config \<Rightarrow> string list \<Rightarrow> int \<times> string list" where
  "CConfig_SectionNames C rSectionVec =
     (QY_LIGHT_CONTROL_SUCCESS, rSectionVec @ map fst (m_ConfigMap C))"

definition entry_string :: "string \<times> string \<Rightarrow> string" where
  "entry_string e = ''    '' @ fst e @ '' = '' @ snd e @ [newline]"

definition section_string :: "string \<times> section_map \<Rightarrow> string" where
  "section_string s = ''['' @ fst s @ '']'' @ [newline] @ concat (map entry_string (snd s))"

definition CConfig_ToString :: "config \<Rightarrow> string" where
  "CConfig_ToString C = concat (map section_string (m_ConfigMap C)) @ [newline]"

section \<open>Writing\<close>

definition CConfig_SetCfgToMap :: "string \<Rightarrow> string \<Rightarrow> string \<Rightarrow> config \<Rightarrow> config" where
  "CConfig_SetCfgToMap rSection rKey rValue C =
     (case map_find (m_ConfigMap C) rSection of
        None \<Rightarrow> C\<lparr>m_ConfigMap := map_insert (m_ConfigMap C) rSection (map_insert [] rKey rValue)\<rparr>
      | Some m \<Rightarrow>
          (case map_find m rKey of
             None \<Rightarrow> C\<lparr>m_ConfigMap := map_set (m_ConfigMap C) rSection (map_insert m rKey rValue)\<rparr>
           | Some _ \<Rightarrow> C\<lparr>m_ConfigMap := map_set (m_ConfigMap C) rSection (map_set m rKey rValue)\<rparr>))"

text \<open>The text of an entry as \<open>WriteProfileString\<close> prints it.\<close>

definition entry_row :: "string \<Rightarrow> string \<Rightarrow> string" where
  "entry_row k v = k @ '' = '' @ v @ [newline]"

text \<open>
  The loop of \<open>WriteProfileString\<close>: the new content so far, \<open>nSectionPos\<close> and \<open>nKeyPos\<close>.
\<close>

fun write_rows ::
  "string \<Rightarrow> string \<Rightarrow> string \<Rightarrow> string list \<Rightarrow> string \<Rightarrow> nat option \<Rightarrow> nat option
   \<Rightarrow> (string \<times> nat option \<times> nat option) option" where
  "write_rows tmpSection fileKey fileValue [] fileContext nSectionPos nKeyPos =
     Some (fileContext, nSectionPos, nKeyPos)"
| "write_rows tmpSection fileKey fileValue (data # rows) fileContext nSectionPos nKeyPos =
     (let strRow = Trim (c_str data)
      in if nSectionPos = None \<and> find_str tmpSection strRow \<noteq> None then
           (let fileContext = fileContext @ tmpSection @ [newline]
            in write_rows tmpSection fileKey fileValue rows fileContext
                 (Some (length fileContext)) None)
         else if nKeyPos = None \<and> find_str fileKey strRow \<noteq> None then do {
           (_, _, key, _) \<leftarrow> CConfig_ParseValue strRow [] [];
           let row = (if key = fileKey then entry_row fileKey fileValue else strRow @ [newline]);
           write_rows tmpSection fileKey fileValue rows (fileContext @ row)
             nSectionPos (find_str fileKey strRow) }
         else
           write_rows tmpSection fileKey fileValue rows (fileContext @ strRow @ [newline])
             nSectionPos nKeyPos)"

definition CConfig_WriteProfileString ::
  "files \<Rightarrow> string \<Rightarrow> string \<Rightarrow> string \<Rightarrow> config \<Rightarrow> (int \<times> files \<times> config) option" where
  "CConfig_WriteProfileString fs rSection rKey rValue C =
     (if m_FilePath C = [] then Some (QY_LIGHT_CONTROL_ERROR, fs, C)
      else do {
        let fileSection = Trim rSection;
        let fileKey = Trim rKey;
        let fileValue = Trim rValue;
        let C = CConfig_SetCfgToMap fileSection fileKey fileValue C;
        content \<leftarrow> fs (m_FilePath C);
        let tmpSection = take 99 (''['' @ c_str fileSection @ '']'');
        (fileContext, nSectionPos, nKeyPos) \<leftarrow>
          write_rows tmpSection fileKey fileValue (file_rows content) [] None (Some 0);
        fileContext \<leftarrow>
          (if nSectionPos = None \<and> nKeyPos = Some 0 then do {
             let data = tmpSection @ [newline] @ entry_row (c_str fileKey) (c_str fileValue);
             assert_that (length data < 4096);
             Some (fileContext @ data) }
           else case nSectionPos of
             Some pos \<Rightarrow>
               (if nKeyPos = None
                then Some (take pos fileContext @ entry_row fileKey fileValue @ drop pos fileContext)
                else Some fileContext)
           | None \<Rightarrow> Some fileContext);
        Some (QY_LIGHT_CONTROL_SUCCESS, fs(m_FilePath C \<mapsto> fileContext), C) })"


section \<open>Lemmas\<close>

lemmas config_codes = QY_LIGHT_CONTROL_SUCCESS_def QY_LIGHT_CONTROL_FAIL_def QY_LIGHT_CONTROL_ERROR_def

text \<open>
  The names and values that survive being printed: no blank at an end, no newline, no null
  character, no comment sign; a key has no equality sign either and does not look like a section
  or a comment; a row fits into the buffer of \<open>fgets\<close>.
\<close>

definition plain :: "string \<Rightarrow> bool" where
  "plain s \<longleftrightarrow> trimmed s \<and> set s \<inter> {newline, CHR 0x00} = {}"

definition section_ok :: "string \<Rightarrow> bool" where
  "section_ok s \<longleftrightarrow> plain s \<and> length s + 3 \<le> 4095"

definition key_ok :: "string \<Rightarrow> bool" where
  "key_ok k \<longleftrightarrow> plain k \<and> k \<noteq> [] \<and> CHR ''='' \<notin> set k \<and> CHR ''#'' \<notin> set k \<and>
     hd k \<noteq> CHR '';'' \<and> hd k \<noteq> CHR ''[''"

definition entry_ok :: "string \<times> string \<Rightarrow> bool" where
  "entry_ok e \<longleftrightarrow> key_ok (fst e) \<and> plain (snd e) \<and> CHR ''#'' \<notin> set (snd e) \<and>
     length (fst e) + length (snd e) + 8 \<le> 4095"

definition config_ok :: "ini_map \<Rightarrow> bool" where
  "config_ok cfg \<longleftrightarrow> map_ok cfg \<and>
     list_all (\<lambda>(s, m). section_ok s \<and> map_ok m \<and> list_all entry_ok m) cfg"

lemma key_ok_trimmed: "key_ok k \<Longrightarrow> k \<noteq> [] \<and> hd k \<notin> set blanks \<and> last k \<notin> set blanks"
  by (auto simp: key_ok_def plain_def trimmed_def)

text \<open>The row of an entry, with blanks in front or without, parses to the entry.\<close>

lemma Trim_entry:
  assumes k: "key_ok k" and v: "plain v" and p: "set p \<subseteq> set blanks" and q: "set q \<subseteq> set blanks"
  shows "Trim (p @ k @ '' = '' @ v @ q) = (if v = [] then k @ '' ='' else k @ '' = '' @ v)"
proof -
  have b: "set ('' '' @ q) \<subseteq> set blanks" using q by simp
  have e: "CHR ''='' \<notin> set blanks" by (simp add: blanks_def)
  show ?thesis
  proof (cases "v = []")
    case True
    have "trimmed (k @ '' ='')" using key_ok_trimmed [OF k] e by (simp add: trimmed_def)
    with Trim_append [OF p b, of "k @ '' =''"] True show ?thesis by simp
  next
    case False
    then have "trimmed (k @ '' = '' @ v)"
      using key_ok_trimmed [OF k] v by (simp add: trimmed_def plain_def)
    with Trim_append [OF p q, of "k @ '' = '' @ v"] False show ?thesis by simp
  qed
qed

lemma ParseValue_entry:
  assumes k: "key_ok k" and v: "plain v" "CHR ''#'' \<notin> set v"
    and p: "set p \<subseteq> set blanks" and q: "set q \<subseteq> set blanks"
  shows "\<exists>r. CConfig_ParseValue (p @ k @ '' = '' @ v @ q) a b = Some (QY_LIGHT_CONTROL_SUCCESS, r, k, v)"
proof -
  let ?row = "if v = [] then k @ '' ='' else k @ '' = '' @ v"
  have hd: "k \<noteq> []" "hd k \<noteq> CHR ''#''" "hd k \<noteq> CHR '';''"
    using k by (cases k; auto simp: key_ok_def)+
  have "CHR ''='' \<notin> set (k @ '' '')" using k by (simp add: key_ok_def)
  from find_char_append [OF this, of "if v = [] then [] else '' '' @ v"]
  have pos: "find_char (CHR ''='') ?row = Some (length k + 1)" by auto
  have no: "find_char (CHR ''#'') ?row = None"
    using k v(2) by (auto simp: find_char_None key_ok_def)
  have tk: "Trim (k @ '' '') = k"
    using Trim_append [of "[]" "'' ''" k] k by (simp add: key_ok_def plain_def)
  have tv: "Trim ('' '' @ v) = v"
    using Trim_append [of "'' ''" "[]" v] v(1) by (simp add: plain_def)
  have "Trim [] = []" by (simp add: trimmed_def)
  then show ?thesis
    using hd pos no tk tv Trim_entry [OF k v(1) p q]
    by (auto simp: CConfig_ParseValue_def Let_def split: if_splits)
qed

lemma GetSectionName_entry:
  assumes "key_ok k" and "set p \<subseteq> set blanks"
  shows "CConfig_GetSectionName (p @ k @ '' = '' @ r) s = (QY_LIGHT_CONTROL_FAIL, k @ '' = '' @ r, s)"
proof -
  have "TrimLeft (p @ k @ '' = '' @ r) = k @ '' = '' @ r"
    using TrimLeft_blanks [OF assms(2)] TrimLeft_id [of "k @ '' = '' @ r"] key_ok_trimmed [OF assms(1)]
    by simp
  then show ?thesis using assms(1) by (simp add: CConfig_GetSectionName_def key_ok_def Let_def)
qed

lemma GetSectionName_header:
  assumes "plain s" and "set p \<subseteq> set blanks" and "set q \<subseteq> set blanks" and "q \<noteq> [] \<or> s \<noteq> []"
  shows "CConfig_GetSectionName (p @ ''['' @ s @ '']'' @ q) t = (QY_LIGHT_CONTROL_SUCCESS, ''['' @ s @ '']'', s)"
proof -
  have b: "CHR ''['' \<notin> set blanks" "CHR '']'' \<notin> set blanks" by (simp_all add: blanks_def)
  have l: "TrimLeft (p @ ''['' @ s @ '']'' @ q) = ''['' @ s @ '']'' @ q"
    using TrimLeft_blanks [OF assms(2)] TrimLeft_id [of "''['' @ s @ '']'' @ q"] b by simp
  have r: "TrimRight (''['' @ s @ '']'' @ q) = ''['' @ s @ '']''"
    using TrimRight_blanks [OF assms(3), of "''['' @ s @ '']''"] TrimRight_id [of "''['' @ s @ '']''"] b
    by simp
  have "2 < length (''['' @ s @ '']'' @ q)" using assms(4) by auto
  then show ?thesis
    using l r assms(1) by (auto simp: CConfig_GetSectionName_def Let_def plain_def)
qed


text \<open>Inserting behind the last key of a map.\<close>

lemma map_set_end:
  assumes "map_ok (m @ (k, v) # r)"
  shows "map_set m k w = m @ [(k, w)]" and "map_set (m @ [(k, u)]) k w = m @ [(k, w)]"
    and "map_find m k = None" and "map_find (m @ [(k, u)]) k = Some u"
proof -
  have n: "map_of m k = None"
    using map_ok_distinct [OF assms] by (simp add: map_of_eq_None_iff)
  then show "map_find m k = None" "map_find (m @ [(k, u)]) k = Some u"
    by (simp_all add: map_find_def map_add_def)
  have "\<forall>x\<in>fst ` set m. x < k" using assms by (auto simp: map_ok_def sorted_wrt_append)
  then show "map_set m k w = m @ [(k, w)]" "map_set (m @ [(k, u)]) k w = m @ [(k, w)]"
    by (induction m) auto
qed

lemma plain_c_str: "plain s \<Longrightarrow> CHR 0x00 \<notin> set s \<and> newline \<notin> set s"
  by (auto simp: plain_def)

lemma entry_row_c_str:
  assumes "entry_ok (k, v)"
  shows "c_str (''    '' @ k @ '' = '' @ v @ [newline]) = ''    '' @ k @ '' = '' @ v @ [newline]"
    and "newline \<notin> set (''    '' @ k @ '' = '' @ v)" "length (''    '' @ k @ '' = '' @ v) < 4095"
  using assms plain_c_str [of k] plain_c_str [of v]
  by (auto intro!: c_str_id simp: entry_ok_def key_ok_def newline_def)

text \<open>Loading the rows of one entry, of all entries of a section, of a section.\<close>

lemma load_entry:
  assumes e: "entry_ok (k, v)" and s: "map_ok (pre @ [(s, m)])" and m: "map_ok (m @ (k, v) # r)"
  shows "load_rows (file_rows (entry_string (k, v) @ rest)) (pre @ [(s, m)]) (Some s) =
         load_rows (file_rows rest) (pre @ [(s, m @ [(k, v)])]) (Some s)"
proof -
  let ?l = "''    '' @ k @ '' = '' @ v"
  have ok: "key_ok k" "plain v" "CHR ''#'' \<notin> set v" using e by (simp_all add: entry_ok_def)
  have rows: "file_rows (entry_string (k, v) @ rest) = (?l @ [newline]) # file_rows rest"
    using file_rows_line [OF entry_row_c_str(2,3) [OF e], of rest] by (simp add: entry_string_def)
  obtain x where p: "CConfig_ParseValue (k @ '' = '' @ v @ [newline]) [] [] =
      Some (QY_LIGHT_CONTROL_SUCCESS, x, k, v)"
    using ParseValue_entry [OF ok, of "[]" "[newline]" "[]" "[]"] by auto
  have g: "CConfig_GetSectionName (?l @ [newline]) [] =
      (QY_LIGHT_CONTROL_FAIL, k @ '' = '' @ v @ [newline], [])"
    using GetSectionName_entry [OF ok(1), of "''    ''" "v @ [newline]" "[]"] by simp
  have f: "map_find (pre @ [(s, m)]) s = Some m" "map_set (pre @ [(s, m)]) s w = pre @ [(s, w)]"
    "map_insert m k v = m @ [(k, v)]" for w
    using map_set_end [OF s] map_set_end [OF m] by (simp_all add: map_insert_def)
  show ?thesis
    unfolding rows using p g f entry_row_c_str(1) [OF e] by (simp add: config_codes)
qed

lemma load_entries:
  assumes "list_all entry_ok es" and "map_ok (m @ es)" and "map_ok (pre @ [(s, m)])"
  shows "load_rows (file_rows (concat (map entry_string es) @ rest)) (pre @ [(s, m)]) (Some s) =
         load_rows (file_rows rest) (pre @ [(s, m @ es)]) (Some s)"
  using assms
proof (induction es arbitrary: m)
  case (Cons e es)
  obtain k v where e: "e = (k, v)" by force
  have "map_ok (pre @ [(s, m @ [e])])" using Cons.prems(3) by (simp add: map_ok_def)
  with Cons e load_entry [of k v pre s m es "concat (map entry_string es) @ rest"] show ?case by simp
qed simp

lemma load_section:
  assumes "section_ok s" and "list_all entry_ok m" and "map_ok m" and "map_ok (pre @ (s, m) # r)"
  shows "load_rows (file_rows (section_string (s, m) @ rest)) pre p =
         load_rows (file_rows rest) (pre @ [(s, m)]) (Some s)"
proof -
  let ?es = "concat (map entry_string m) @ rest"
  have n: "newline \<notin> set (''['' @ s @ '']'')" "length (''['' @ s @ '']'') < 4095"
    using assms(1) by (auto simp: section_ok_def plain_def newline_def)
  then have rows: "file_rows (section_string (s, m) @ rest) = (''['' @ s @ '']'' @ [newline]) # file_rows ?es"
    using file_rows_line [OF n, of ?es] by (simp add: section_string_def)
  have c: "c_str (''['' @ s @ '']'' @ [newline]) = ''['' @ s @ '']'' @ [newline]"
    using assms(1) by (intro c_str_id) (auto simp: section_ok_def plain_def newline_def)
  have g: "CConfig_GetSectionName (''['' @ s @ '']'' @ [newline]) [] =
      (QY_LIGHT_CONTROL_SUCCESS, ''['' @ s @ '']'', s)"
    using GetSectionName_header [of s "[]" "[newline]" "[]"] assms(1) by (simp add: section_ok_def)
  have i: "map_insert pre s [] = pre @ [(s, [])]"
    using map_set_end [OF assms(4)] by (simp add: map_insert_def)
  have "map_ok (pre @ [(s, [])])"
    using assms(4) by (auto simp: map_ok_def sorted_wrt_append)
  with rows c g i show ?thesis
    using load_entries [OF assms(2), of "[]" pre s rest] assms(3) by (simp add: config_codes)
qed

lemma load_sections:
  assumes "map_ok (pre @ cfg)"
    and "list_all (\<lambda>(s, m). section_ok s \<and> map_ok m \<and> list_all entry_ok m) cfg"
  shows "load_rows (file_rows (concat (map section_string cfg) @ [newline])) pre p =
         Some (QY_LIGHT_CONTROL_SUCCESS, pre @ cfg)"
  using assms
proof (induction cfg arbitrary: pre p)
  case Nil
  have "file_rows [newline] = [[newline]]" using file_rows_line [of "[]" "[]"] by simp
  moreover have "c_str [newline] = [newline]" by (simp add: c_str_def newline_def)
  moreover have "TrimLeft [newline] = []" using TrimLeft_blanks [of "[newline]" "[]"] by (simp add: TrimLeft_id)
  ultimately show ?case
    by (simp add: CConfig_GetSectionName_def CConfig_ParseValue_def config_codes Let_def)
next
  case (Cons c cfg)
  obtain s m where c: "c = (s, m)" by force
  with Cons load_section [of s m pre cfg "concat (map section_string cfg) @ [newline]" p]
  show ?case by simp
qed


text \<open>A file as its rows, without their newlines.\<close>

definition unrows :: "string list \<Rightarrow> string" where
  "unrows ls = concat (map (\<lambda>l. l @ [newline]) ls)"

definition row_ok :: "string \<Rightarrow> bool" where
  "row_ok l \<longleftrightarrow> set l \<inter> {newline, CHR 0x00} = {} \<and> length l < 4095"

lemma unrows_simps [simp]:
  "unrows [] = []" "unrows (l # ls) = l @ newline # unrows ls" "unrows (xs @ ys) = unrows xs @ unrows ys"
  by (simp_all add: unrows_def)

lemma file_rows_unrows: "list_all row_ok ls \<Longrightarrow> file_rows (unrows ls) = map (\<lambda>l. l @ [newline]) ls"
  by (induction ls) (auto simp: row_ok_def file_rows_line)

lemma Trim_row [simp]: "row_ok l \<Longrightarrow> Trim (c_str (l @ [newline])) = Trim l"
proof -
  assume "row_ok l"
  then have "c_str (l @ [newline]) = l @ [newline]"
    by (intro c_str_id) (auto simp: row_ok_def newline_def)
  then show ?thesis using TrimRight_blanks [of "[newline]" l] by (simp add: Trim_def)
qed

text \<open>
  What the loop of \<open>WriteProfileString\<close> does with a block of rows: rows in front of the section,
  rows of the section that do not contain the key, and rows behind the row where the search for
  the key stopped are copied; the header is printed anew; the row where the search stops is
  replaced only if its key is the one to write.
\<close>

abbreviation wrows where
  "wrows sec k v ls \<equiv> write_rows sec k v (map (\<lambda>l. l @ [newline]) ls)"

lemma write_before:
  assumes "list_all row_ok ls" and "list_all (\<lambda>l. find_str sec (Trim l) = None) ls"
  shows "write_rows sec k v (map (\<lambda>l. l @ [newline]) ls @ rows) ctx None (Some q) =
         write_rows sec k v rows (ctx @ unrows (map Trim ls)) None (Some q)"
  using assms by (induction ls arbitrary: ctx) (simp_all add: Let_def)

lemma write_section:
  assumes "list_all row_ok ls" and "list_all (\<lambda>l. find_str k (Trim l) = None) ls"
  shows "write_rows sec k v (map (\<lambda>l. l @ [newline]) ls @ rows) ctx (Some p) None =
         write_rows sec k v rows (ctx @ unrows (map Trim ls)) (Some p) None"
  using assms by (induction ls arbitrary: ctx) (simp_all add: Let_def)

lemma write_behind:
  assumes "list_all row_ok ls"
  shows "wrows sec k v ls ctx (Some p) (Some q) = Some (ctx @ unrows (map Trim ls), Some p, Some q)"
  using assms by (induction ls arbitrary: ctx) (simp_all add: Let_def)

lemma write_header:
  assumes "row_ok h" and "find_str sec (Trim h) \<noteq> None"
  shows "write_rows sec k v ((h @ [newline]) # rows) ctx None q =
         write_rows sec k v rows (ctx @ unrows [sec]) (Some (length (ctx @ unrows [sec]))) None"
  using assms by (simp add: Let_def)

lemma write_stop:
  assumes "row_ok e" and "find_str k (Trim e) = Some q"
    and "CConfig_ParseValue (Trim e) [] [] = Some (rc, r, key, val)"
  shows "write_rows sec k v ((e @ [newline]) # rows) ctx (Some p) None =
         write_rows sec k v rows (ctx @ unrows [if key = k then k @ '' = '' @ v else Trim e]) (Some p) (Some q)"
  using assms by (simp add: Let_def entry_row_def)

text \<open>The rows of a file in which the search for key \<open>k\<close> of section \<open>s\<close> stops at row \<open>e\<close>.\<close>

definition search_stops :: "string \<Rightarrow> string \<Rightarrow> string list \<Rightarrow> string \<Rightarrow> string list \<Rightarrow> string \<Rightarrow> bool" where
  "search_stops s k pre h mid e \<longleftrightarrow>
     list_all (\<lambda>l. find_str (''['' @ s @ '']'') (Trim l) = None) pre \<and>
     find_str (''['' @ s @ '']'') (Trim h) \<noteq> None \<and>
     list_all (\<lambda>l. find_str k (Trim l) = None) mid \<and> find_str k (Trim e) \<noteq> None"

lemma WriteProfileString_stops:
  assumes rows: "list_all row_ok (pre @ h # mid @ e # post)" and s: "plain s" "length s \<le> 97"
    and k: "trimmed k" and v: "trimmed v" and st: "search_stops s k pre h mid e"
    and parse: "CConfig_ParseValue (Trim e) [] [] = Some (rc, r, key, val)"
    and path: "m_FilePath C \<noteq> []" "fs (m_FilePath C) = Some (unrows (pre @ h # mid @ e # post))"
  shows "CConfig_WriteProfileString fs s k v C =
    Some (QY_LIGHT_CONTROL_SUCCESS,
      fs(m_FilePath C \<mapsto> unrows (map Trim pre @ [''['' @ s @ '']''] @ map Trim mid @
           [if key = k then k @ '' = '' @ v else Trim e] @ map Trim post)),
      CConfig_SetCfgToMap s k v C)"
proof -
  have c: "c_str s = s" "Trim s = s" using s by (auto intro!: c_str_id simp: plain_def)
  have t: "take 99 (''['' @ c_str s @ '']'') = ''['' @ s @ '']''" using c s(2) by simp
  have p: "m_FilePath (CConfig_SetCfgToMap s k v C) = m_FilePath C"
    by (simp add: CConfig_SetCfgToMap_def split: option.splits)
  obtain q where q: "find_str k (Trim e) = Some q" using st by (auto simp: search_stops_def)
  let ?pre = "unrows (map Trim pre) @ unrows [''['' @ s @ '']'']"
  have "write_rows (''['' @ s @ '']'') k v (file_rows (unrows (pre @ h # mid @ e # post))) [] None (Some 0) =
    Some (?pre @ unrows (map Trim mid) @ unrows [if key = k then k @ '' = '' @ v else Trim e] @
            unrows (map Trim post), Some (length ?pre), Some q)"
    using rows st unfolding file_rows_unrows [OF rows] search_stops_def
    by (simp add: write_before write_section write_behind write_header write_stop [OF _ q parse]
        del: write_rows.simps append.append_Cons)
  with path p c t k v show ?thesis by (simp add: CConfig_WriteProfileString_def Let_def)
qed

lemma GetString_SetCfgToMap:
  assumes "map_ok (m_ConfigMap C)"
  shows "CConfig_GetString (CConfig_SetCfgToMap s k v C) s k d = (QY_LIGHT_CONTROL_SUCCESS, v)"
proof -
  have "map_find [(k, v)] k = Some v" by (simp add: map_find_def)
  then show ?thesis
    by (auto simp: CConfig_GetString_def CConfig_SetCfgToMap_def map_insert_def split: option.splits)
qed

lemma atoi_int_to_string: "atoi (int_to_string i) = i"
proof (cases "i < 0")
  case True
  have t: "takeWhile is_digit (to_string n) = to_string n" for n
    by (rule takeWhile_eq_all_conv [THEN iffD2]) (use to_string_digits [of n] in \<open>simp only: list_all_iff\<close>)
  from True show ?thesis by (simp add: int_to_string_def atoi_def isspace_def t)
qed (simp add: int_to_string_def)

lemma GetInt_SetCfgToMap:
  assumes "map_ok (m_ConfigMap C)" and "- (2 ^ 31) \<le> i" and "i < 2 ^ 31"
  shows "CConfig_GetInt (CConfig_SetCfgToMap s k (int_to_string i) C) s k d = Some i"
proof -
  have "CHR 0x00 \<notin> set (to_string n)" for n
    by (rule digits_no [OF to_string_digits]) (simp add: is_digit_def)
  then have "c_str (int_to_string i) = int_to_string i"
    by (intro c_str_id) (simp add: int_to_string_def)
  with assms show ?thesis
    by (simp add: CConfig_GetInt_def GetString_SetCfgToMap atoi_int_to_string)
qed


text \<open>
  Reading a row, abstractly: a header, an entry, a row to skip or a malformed row. Loading
  succeeds exactly when the rows, taken one after the other, can be applied to the map and the
  current section.
\<close>

datatype row = Header string | Entry string string | Skip | Bad

definition row_of :: "string \<Rightarrow> row option" where
  "row_of data =
     (let (rc, d, n) = CConfig_GetSectionName (c_str data) []
      in if rc = QY_LIGHT_CONTROL_SUCCESS then Some (Header n)
         else if rc = QY_LIGHT_CONTROL_ERROR then Some Bad
         else do {
           (rc, _, k, v) \<leftarrow> CConfig_ParseValue d [] [];
           Some (if rc = QY_LIGHT_CONTROL_SUCCESS then Entry k v
                 else if rc = QY_LIGHT_CONTROL_ERROR then Bad else Skip) })"

fun apply_row :: "row \<Rightarrow> ini_map \<times> string option \<Rightarrow> (ini_map \<times> string option) option" where
  "apply_row (Header s) (cfg, p) = Some (map_insert cfg s [], Some s)"
| "apply_row (Entry k v) (cfg, p) = do {
     sec \<leftarrow> p; m \<leftarrow> map_find cfg sec; Some (map_set cfg sec (map_insert m k v), p) }"
| "apply_row Skip st = Some st"
| "apply_row Bad st = None"

definition load_state :: "string list \<Rightarrow> ini_map \<times> string option \<Rightarrow> (ini_map \<times> string option) option" where
  "load_state rows st = foldM (\<lambda>st d. row_of d \<bind> (\<lambda>r. apply_row r st)) st rows"

lemma load_state_simps [simp]:
  "load_state [] st = Some st"
  "load_state (d # rows) st = row_of d \<bind> (\<lambda>r. apply_row r st \<bind> load_state rows)"
  "load_state (xs @ ys) st = load_state xs st \<bind> load_state ys"
  by (simp_all add: load_state_def [abs_def] foldM_append bind_assoc)

lemma load_rows_state:
  "load_rows rows cfg p = Some (QY_LIGHT_CONTROL_SUCCESS, c) \<longleftrightarrow> (\<exists>p'. load_state rows (cfg, p) = Some (c, p'))"
proof (induction rows cfg p rule: load_rows.induct)
  case (2 data rows cfg p)
  obtain rc d n where g: "CConfig_GetSectionName (c_str data) [] = (rc, d, n)"
    by (metis prod_cases3)
  show ?case
  proof (cases "rc = QY_LIGHT_CONTROL_SUCCESS \<or> rc = QY_LIGHT_CONTROL_ERROR")
    case True
    then show ?thesis using 2(1) g by (auto simp: row_of_def config_codes)
  next
    case False
    show ?thesis
    proof (cases "CConfig_ParseValue d [] []")
      case None
      then show ?thesis using False g by (simp add: row_of_def)
    next
      case (Some r)
      obtain rc' d' k v where r: "r = (rc', d', k, v)" by (metis prod_cases4)
      show ?thesis
        using False g Some r 2(2-)
        by (auto simp: row_of_def config_codes Let_def split: bind_splits)
    qed
  qed
qed simp

text \<open>Trimming a row does not change what it says.\<close>

lemma ParseValue_Trim:
  assumes "Trim r = Trim r'"
  shows "map_option (\<lambda>(rc, _, k, v). (rc, k, v)) (CConfig_ParseValue r a b) =
         map_option (\<lambda>(rc, _, k, v). (rc, k, v)) (CConfig_ParseValue r' a b)"
proof -
  have t: "Trim (Trim r) = Trim r" "Trim [] = []" for r by (simp, simp add: trimmed_def)
  have e: "map_option (\<lambda>(rc, _, k, v). (rc, k, v)) (CConfig_ParseValue r a b) =
      (if Trim r = [] then Some (QY_LIGHT_CONTROL_FAIL, a, b)
       else map_option (\<lambda>(rc, _, k, v). (rc, k, v)) (CConfig_ParseValue (Trim r) a b))" for r
    by (simp add: CConfig_ParseValue_def Let_def t)
  show ?thesis using assms e [of r] e [of r'] by simp
qed

lemma row_of_parse:
  "row_of data =
     (let (rc, d, n) = CConfig_GetSectionName (c_str data) []
      in if rc = QY_LIGHT_CONTROL_SUCCESS then Some (Header n)
         else if rc = QY_LIGHT_CONTROL_ERROR then Some Bad
         else map_option (\<lambda>(rc, k, v). if rc = QY_LIGHT_CONTROL_SUCCESS then Entry k v
                 else if rc = QY_LIGHT_CONTROL_ERROR then Bad else Skip)
           (map_option (\<lambda>(rc, _, k, v). (rc, k, v)) (CConfig_ParseValue d [] [])))"
  by (cases "CConfig_GetSectionName (c_str data) []"; cases "CConfig_ParseValue (fst (snd (CConfig_GetSectionName (c_str data) []))) [] []")
    (auto simp: row_of_def Let_def)


lemma Trim_decomp: "\<exists>p q. set p \<subseteq> set blanks \<and> set q \<subseteq> set blanks \<and> s = p @ Trim s @ q"
proof -
  have l: "\<exists>p. set p \<subseteq> set blanks \<and> s = p @ TrimLeft s" for s
    by (rule exI [of _ "takeWhile (\<lambda>c. c \<in> set blanks) s"])
      (auto simp: TrimLeft_dropWhile dest: set_takeWhileD)
  obtain q where q: "set q \<subseteq> set blanks" "rev s = q @ TrimLeft (rev s)" using l by blast
  then have s: "s = TrimRight s @ rev q" by (metis TrimRight_rev rev_append rev_rev_ident)
  obtain p where "set p \<subseteq> set blanks" "TrimRight s = p @ Trim s" using l by (auto simp: Trim_def)
  with q(1) s show ?thesis by (metis append.assoc set_rev)
qed

lemma Trim_subset: "set (Trim s) \<subseteq> set s"
  using Trim_decomp [of s] by (metis set_append sup_ge1 sup_ge2 order_trans)

lemma row_of_blanks:
  assumes t: "trimmed t" and p: "set p \<subseteq> set blanks" and q: "set q \<subseteq> set blanks" "q \<noteq> []"
    and z: "CHR 0x00 \<notin> set t"
  shows "row_of (p @ t @ q) = row_of (t @ [newline])"
proof -
  have b: "CHR 0x00 \<notin> set blanks" "CHR 0x00 \<noteq> newline" by (simp_all add: blanks_def newline_def)
  have c: "c_str (p @ t @ q) = p @ t @ q" "c_str (t @ [newline]) = t @ [newline]"
    using z p q b by (auto intro!: c_str_id)
  have T: "Trim (t @ q) = t" "Trim (t @ [newline]) = t"
    using Trim_append [of "[]" q t] Trim_append [of "[]" "[newline]" t] t q(1) by simp_all
  show ?thesis
  proof (cases "t = []")
    case True
    have "TrimLeft (p @ q) = []" "TrimLeft [newline] = []"
      using TrimLeft_blanks [of "p @ q" "[]"] TrimLeft_blanks [of "[newline]" "[]"] p q
      by (simp_all add: TrimLeft_id)
    with True c show ?thesis by (simp add: row_of_def CConfig_GetSectionName_def Let_def)
  next
    case False
    then have L: "TrimLeft (p @ t @ q) = t @ q" "TrimLeft (t @ [newline]) = t @ [newline]"
      using TrimLeft_blanks [OF p, of "t @ q"] TrimLeft_id [of "t @ q"] TrimLeft_id [of "t @ [newline]"] t
      by (auto simp: trimmed_def)
    have R: "TrimRight (t @ q) = t" "TrimRight (t @ [newline]) = t"
      using TrimRight_blanks [OF q(1), of t] TrimRight_blanks [of "[newline]" t] TrimRight_id [of t] t
      by (auto simp: trimmed_def)
    have P: "map_option (\<lambda>(rc, _, k, v). (rc, k, v)) (CConfig_ParseValue (t @ q) [] []) =
             map_option (\<lambda>(rc, _, k, v). (rc, k, v)) (CConfig_ParseValue (t @ [newline]) [] [])"
      using ParseValue_Trim T by metis
    show ?thesis
    proof (cases "hd t = CHR ''[''")
      case no: False
      with False c L P show ?thesis by (simp add: row_of_parse CConfig_GetSectionName_def Let_def)
    next
      case yes: True
      show ?thesis
      proof (cases "length t = 1")
        case True
        then have t1: "t = ''[''" using yes by (cases t) auto
        have "map_option (\<lambda>(rc, _, k, v). (rc, k, v)) (CConfig_ParseValue (t @ q) [] []) =
            Some (QY_LIGHT_CONTROL_ERROR, [], [])"
          using T(1) t1 by (simp add: CConfig_ParseValue_def Let_def)
        with t1 c L R P show ?thesis
          by (auto simp: row_of_parse CConfig_GetSectionName_def Let_def config_codes)
      next
        case long: False
        then have "2 < length (t @ q)" "2 < length (t @ [newline])"
          using False q(2) by (cases t; cases q; auto simp: Suc_lessI)+
        with False yes c L R show ?thesis
          by (simp add: row_of_parse CConfig_GetSectionName_def Let_def config_codes)
      qed
    qed
  qed
qed

lemma row_of_Trim:
  assumes "row_ok l"
  shows "row_of (Trim l @ [newline]) = row_of (l @ [newline])"
proof -
  obtain p q where d: "set p \<subseteq> set blanks" "set q \<subseteq> set blanks" "l = p @ Trim l @ q"
    using Trim_decomp by blast
  have z: "CHR 0x00 \<notin> set (Trim l)" using assms Trim_subset [of l] by (auto simp: row_ok_def)
  have "row_of (p @ Trim l @ (q @ [newline])) = row_of (Trim l @ [newline])"
    by (rule row_of_blanks) (use d z in auto)
  then show ?thesis using d(3) by (metis append.assoc)
qed


lemma load_state_Trim:
  "list_all row_ok ls \<Longrightarrow>
     load_state (map (\<lambda>l. l @ [newline]) (map Trim ls)) st = load_state (map (\<lambda>l. l @ [newline]) ls) st"
proof (induction ls arbitrary: st)
  case (Cons l ls)
  then have "load_state (map (\<lambda>l. l @ [newline]) (map Trim ls)) = load_state (map (\<lambda>l. l @ [newline]) ls)"
    by (simp add: fun_eq_iff)
  with Cons.prems show ?case by (simp add: row_of_Trim)
qed simp

text \<open>The entry of a row is what \<open>_ParseValue\<close> finds in it, and its key occurs in the row.\<close>

lemma row_of_Entry:
  assumes "row_of (l @ [newline]) = Some (Entry k v)" and l: "row_ok l"
  shows "\<exists>r. CConfig_ParseValue (Trim l) [] [] = Some (QY_LIGHT_CONTROL_SUCCESS, r, k, v)"
proof -
  have c: "c_str (Trim l @ [newline]) = Trim l @ [newline]"
    using l Trim_subset [of l] by (intro c_str_id) (auto simp: row_ok_def newline_def)
  have "row_of (Trim l @ [newline]) = Some (Entry k v)" using assms row_of_Trim by simp
  then obtain rc d n where g: "CConfig_GetSectionName (Trim l @ [newline]) [] = (rc, d, n)"
    "rc \<noteq> QY_LIGHT_CONTROL_SUCCESS" "rc \<noteq> QY_LIGHT_CONTROL_ERROR"
    and r: "map_option (\<lambda>(rc, k, v). if rc = QY_LIGHT_CONTROL_SUCCESS then Entry k v
                 else if rc = QY_LIGHT_CONTROL_ERROR then Bad else Skip)
           (map_option (\<lambda>(rc, _, k, v). (rc, k, v)) (CConfig_ParseValue d [] [])) = Some (Entry k v)"
    by (cases "CConfig_GetSectionName (Trim l @ [newline]) []") (auto simp: row_of_parse c split: if_splits)
  have "d = TrimLeft (Trim l @ [newline])"
    using g by (auto simp: CConfig_GetSectionName_def Let_def split: if_splits)
  then have "Trim d = Trim (Trim l)"
    using TrimLeft_id [of "Trim l @ [newline]"] trimmed_Trim [of l] TrimLeft_blanks [of "[newline]" "[]"]
      Trim_append [of "[]" "[newline]" "Trim l"]
    by (cases "Trim l = []") (auto simp: trimmed_def TrimLeft_id)
  from ParseValue_Trim [OF this, of "[]" "[]"] r show ?thesis by (auto split: if_splits)
qed

lemma row_of_key:
  assumes "row_of (l @ [newline]) = Some (Entry k v)" and "row_ok l"
  shows "find_str k (Trim l) \<noteq> None"
proof -
  obtain pos where "k = Trim (take pos (Trim l))"
    using row_of_Entry [OF assms]
    by (auto simp: CConfig_ParseValue_def config_codes Let_def split: if_splits option.splits bind_splits)
  then obtain a b where "take pos (Trim l) = a @ k @ b" using Trim_decomp by metis
  then have "Trim l = a @ k @ (b @ drop pos (Trim l))" by (metis append.assoc append_take_drop_id)
  then show ?thesis using find_str_found by metis
qed

text \<open>Two maps with the same elements are equal.\<close>

lemma map_ok_ext:
  assumes "map_ok a" and "map_ok b" and "map_find a = map_find b"
  shows "a = b"
proof -
  have e: "m = map (\<lambda>k. (k, the (map_of m k))) (map fst m)" if "map_ok m" for m :: "('a \<times> 'b) list"
    using map_ok_distinct [OF that] by (auto intro!: map_idI [symmetric] simp: comp_def map_of_is_SomeI)
  have "set (map fst a) = set (map fst b)"
    using assms(3) by (metis map_find_def dom_map_of_conv_image_fst set_map)
  then have "map fst a = map fst b"
    using assms(1,2) by (simp add: map_ok_def strict_sorted_equal)
  then show ?thesis using e [OF assms(1)] e [OF assms(2)] assms(3) by (metis map_find_def)
qed

definition ini_ok :: "ini_map \<Rightarrow> bool" where
  "ini_ok cfg \<longleftrightarrow> map_ok cfg \<and> (\<forall>t m. map_find cfg t = Some m \<longrightarrow> map_ok m)"

lemma map_insert_ok [simp]: "map_ok m \<Longrightarrow> map_ok (map_insert m k v)"
  by (simp add: map_insert_def split: option.splits)

lemma map_find_insert:
  "map_find (map_insert m k v) = (if map_find m k = None then (map_find m)(k \<mapsto> v) else map_find m)"
  by (auto simp: map_insert_def split: option.splits)

lemma ini_ok_apply_row: "apply_row r (cfg, p) = Some (cfg', p') \<Longrightarrow> ini_ok cfg \<Longrightarrow> ini_ok cfg'"
  by (cases r) (auto simp: ini_ok_def map_find_insert split: bind_splits if_splits)


text \<open>
  Storing a value in the map, as \<open>_SetCfgToMap\<close> does. Once section and key are there, the rows
  that follow do not touch the value, so it can be stored before or after them.
\<close>

definition put_value :: "string \<Rightarrow> string \<Rightarrow> string \<Rightarrow> ini_map \<Rightarrow> ini_map" where
  "put_value s k v cfg = map_set cfg s (map_set (the (map_find cfg s)) k v)"

definition has_value :: "string \<Rightarrow> string \<Rightarrow> ini_map \<Rightarrow> bool" where
  "has_value s k cfg \<longleftrightarrow> (\<exists>m w. map_find cfg s = Some m \<and> map_find m k = Some w)"

lemma ini_ext:
  assumes "ini_ok a" and "ini_ok b"
    and "\<And>t. map_option map_find (map_find a t) = map_option map_find (map_find b t)"
  shows "a = b"
proof (rule map_ok_ext)
  show "map_find a = map_find b"
  proof (rule ext)
    fix t
    show "map_find a t = map_find b t"
      using assms(1,2) assms(3) [of t]
      by (cases "map_find a t"; cases "map_find b t") (auto simp: ini_ok_def intro: map_ok_ext)
  qed
qed (use assms in \<open>auto simp: ini_ok_def\<close>)

lemma ini_ok_put: "ini_ok cfg \<Longrightarrow> has_value s k cfg \<Longrightarrow> ini_ok (put_value s k v cfg)"
  by (auto simp: ini_ok_def put_value_def has_value_def)

lemma apply_row_put:
  assumes "ini_ok cfg" and "has_value s k cfg" and "apply_row r (cfg, p) = Some (cfg', p')"
  shows "apply_row r (put_value s k v cfg, p) = Some (put_value s k v cfg', p')"
    and "has_value s k cfg'"
proof -
  show h: "has_value s k cfg'"
    using assms by (cases r) (auto simp: has_value_def map_find_insert split: bind_splits if_splits)
  have ok: "ini_ok cfg'" by (rule ini_ok_apply_row [OF assms(3,1)])
  have "\<exists>c2. apply_row r (put_value s k v cfg, p) = Some (c2, p')"
    using assms(2,3) by (cases r) (auto simp: put_value_def has_value_def split: bind_splits if_splits)
  then obtain c2 where c2: "apply_row r (put_value s k v cfg, p) = Some (c2, p')" by blast
  have "c2 = put_value s k v cfg'"
  proof (rule ini_ext)
    show "ini_ok c2" by (rule ini_ok_apply_row [OF c2 ini_ok_put [OF assms(1,2)]])
    show "ini_ok (put_value s k v cfg')" by (rule ini_ok_put [OF ok h])
    show "map_option map_find (map_find c2 t) = map_option map_find (map_find (put_value s k v cfg') t)" for t
      using assms(2,3) c2
      by (cases r) (auto simp: put_value_def has_value_def map_find_insert
          split: bind_splits if_splits intro: fun_upd_twist)
  qed
  with c2 show "apply_row r (put_value s k v cfg, p) = Some (put_value s k v cfg', p')" by simp
qed

lemma load_state_put:
  assumes "ini_ok cfg" and "has_value s k cfg" and "load_state rows (cfg, p) = Some (cfg', p')"
  shows "load_state rows (put_value s k v cfg, p) = Some (put_value s k v cfg', p') \<and> has_value s k cfg'"
  using assms
proof (induction rows arbitrary: cfg p)
  case (Cons d rows)
  from Cons.prems(3) obtain r c1 p1 where r: "row_of d = Some r" "apply_row r (cfg, p) = Some (c1, p1)"
    "load_state rows (c1, p1) = Some (cfg', p')"
    by (auto split: bind_splits)
  note a = apply_row_put [OF Cons.prems(1,2) r(2)]
  show ?case
    using Cons.IH [OF ini_ok_apply_row [OF r(2) Cons.prems(1)] a(2) r(3)] a(1) r(1) by simp
qed simp

text \<open>Rows without the header of a section leave it absent; rows without a header and without a
  key leave the key absent from the current section.\<close>

lemma load_state_before:
  assumes "list_all (\<lambda>d. row_of d \<noteq> Some (Header s)) rows"
    and "load_state rows (cfg, p) = Some (cfg', p')" and "map_find cfg s = None" and "ini_ok cfg"
  shows "map_find cfg' s = None \<and> ini_ok cfg'"
  using assms
proof (induction rows arbitrary: cfg p)
  case (Cons d rows)
  from Cons.prems(2) obtain r c1 p1 where r: "row_of d = Some r" "apply_row r (cfg, p) = Some (c1, p1)"
    "load_state rows (c1, p1) = Some (cfg', p')"
    by (auto split: bind_splits)
  have "map_find c1 s = None"
    using r Cons.prems by (cases r) (auto simp: map_find_insert split: bind_splits if_splits)
  with Cons r ini_ok_apply_row [OF r(2)] show ?case by auto
qed simp

lemma load_state_within:
  assumes "list_all (\<lambda>d. \<forall>t w. row_of d \<notin> {Some (Header t), Some (Entry k w)}) rows"
    and "load_state rows (cfg, Some s) = Some (cfg', p')"
    and "map_find cfg s = Some m" "map_find m k = None" "ini_ok cfg"
  shows "p' = Some s \<and> (\<exists>m'. map_find cfg' s = Some m' \<and> map_find m' k = None) \<and> ini_ok cfg'"
  using assms
proof (induction rows arbitrary: cfg m)
  case (Cons d rows)
  from Cons.prems(2) obtain r c1 p1 where r: "row_of d = Some r" "apply_row r (cfg, Some s) = Some (c1, p1)"
    "load_state rows (c1, p1) = Some (cfg', p')"
    by (auto split: bind_splits)
  have "p1 = Some s" "\<exists>m'. map_find c1 s = Some m' \<and> map_find m' k = None"
    using r Cons.prems by (cases r; auto simp: map_find_insert split: if_splits)+
  with Cons r ini_ok_apply_row [OF r(2)] show ?case by auto
qed simp


text \<open>
  Replacing the row of a key, in a section that is opened once before it, stores the new value.
\<close>

lemma load_state_replace:
  assumes pre: "list_all (\<lambda>d. row_of d \<noteq> Some (Header s)) pre"
    and h: "row_of h = Some (Header s)" "row_of h' = Some (Header s)"
    and mid: "list_all (\<lambda>d. \<forall>t w. row_of d \<notin> {Some (Header t), Some (Entry k w)}) mid"
    and e: "row_of e = Some (Entry k w)" "row_of e' = Some (Entry k v)"
    and ok: "ini_ok cfg" "map_find cfg s = None"
    and load: "load_state (pre @ h # mid @ e # post) (cfg, p) = Some (c, p')"
  shows "load_state (pre @ h' # mid @ e' # post) (cfg, p) = Some (put_value s k v c, p') \<and> has_value s k c"
proof -
  from load obtain c1 p1 where 1: "load_state pre (cfg, p) = Some (c1, p1)"
    "load_state (h # mid @ e # post) (c1, p1) = Some (c, p')"
    by (auto split: bind_splits)
  from load_state_before [OF pre 1(1) ok(2,1)] have c1: "map_find c1 s = None" "ini_ok c1" by auto
  let ?c2 = "map_insert c1 s []"
  have c2: "map_find ?c2 s = Some []" "ini_ok ?c2"
    using c1 by (auto simp: map_find_insert ini_ok_def)
  from 1(2) h(1) obtain c3 p3 where 3: "load_state mid (?c2, Some s) = Some (c3, p3)"
    "load_state (e # post) (c3, p3) = Some (c, p')"
    by (auto split: bind_splits)
  from load_state_within [OF mid 3(1) c2(1) _ c2(2)] obtain m where
    m: "p3 = Some s" "map_find c3 s = Some m" "map_find m k = None" and c3: "ini_ok c3" by auto
  let ?c4 = "map_set c3 s (map_insert m k w)"
  have 4: "load_state post (?c4, Some s) = Some (c, p')" using 3(2) e(1) m by simp
  have c4: "ini_ok ?c4" "has_value s k ?c4"
    using c3 m by (auto simp: ini_ok_def has_value_def map_find_insert)
  have "map_set c3 s (map_insert m k v) = put_value s k v ?c4"
    by (rule ini_ext) (use c3 m c4 in \<open>auto simp: ini_ok_def put_value_def map_find_insert\<close>)
  then have "load_state (e' # post) (c3, p3) = load_state post (put_value s k v ?c4, Some s)"
    using e(2) m by simp
  with load_state_put [OF c4 4, of v] 1(1) 3(1) h(2) show ?thesis by simp
qed

lemma SetCfgToMap_put:
  "has_value s k (m_ConfigMap C) \<Longrightarrow>
     CConfig_SetCfgToMap s k v C = C\<lparr>m_ConfigMap := put_value s k v (m_ConfigMap C)\<rparr>"
  by (auto simp: has_value_def CConfig_SetCfgToMap_def put_value_def)

lemma Load_unrows:
  assumes "list_all row_ok ls" and "fs path = Some (unrows ls)"
  shows "CConfig_Load fs path CConfig_new = Some (QY_LIGHT_CONTROL_SUCCESS, C') \<longleftrightarrow>
    (\<exists>p. load_state (map (\<lambda>l. l @ [newline]) ls) ([], None) = Some (m_ConfigMap C', p)) \<and> m_FilePath C' = path"
proof -
  have "CConfig_Load fs path CConfig_new =
      map_option (\<lambda>(ret, cfg). (ret, \<lparr>m_ConfigMap = cfg, m_FilePath = path\<rparr>))
        (load_rows (map (\<lambda>l. l @ [newline]) ls) [] None)"
    using assms
    by (cases "load_rows (map (\<lambda>l. l @ [newline]) ls) [] None")
      (auto simp: CConfig_Load_def CConfig_new_def file_rows_unrows)
  then show ?thesis by (cases C') (auto simp: load_rows_state [symmetric])
qed

lemma row_of_printed:
  assumes "key_ok k" and "plain v" and "CHR ''#'' \<notin> set v"
  shows "row_of ((k @ '' = '' @ v) @ [newline]) = Some (Entry k v)"
proof -
  have "c_str (k @ '' = '' @ v @ [newline]) = k @ '' = '' @ v @ [newline]"
    using assms by (intro c_str_id) (auto simp: key_ok_def plain_def newline_def)
  with GetSectionName_entry [OF assms(1), of "[]" "v @ [newline]" "[]"]
    ParseValue_entry [OF assms, of "[]" "[newline]" "[]" "[]"]
  show ?thesis by (auto simp: row_of_def config_codes)
qed

lemma row_of_section:
  assumes "plain s"
  shows "row_of ((''['' @ s @ '']'') @ [newline]) = Some (Header s)"
proof -
  have "c_str (''['' @ s @ '']'' @ [newline]) = ''['' @ s @ '']'' @ [newline]"
    using assms by (intro c_str_id) (auto simp: plain_def newline_def)
  with GetSectionName_header [OF assms, of "[]" "[newline]" "[]"] show ?thesis by (simp add: row_of_def)
qed



text \<open>The rows of a file in which section \<open>s\<close> is opened once and holds key \<open>k\<close>.\<close>

definition is_header :: "row option \<Rightarrow> bool" where
  "is_header r = (case r of Some (Header s) \<Rightarrow> True | _ \<Rightarrow> False)"

definition entry_at :: "string \<Rightarrow> string \<Rightarrow> string \<Rightarrow> string list \<Rightarrow> string \<Rightarrow> string list \<Rightarrow> string \<Rightarrow> bool" where
  "entry_at s k w pre h mid e \<longleftrightarrow> search_stops s k pre h mid e \<and>
     list_all (\<lambda>l. row_of (l @ [newline]) \<noteq> Some (Header s)) pre \<and>
     row_of (h @ [newline]) = Some (Header s) \<and>
     list_all (\<lambda>l. \<not> is_header (row_of (l @ [newline]))) mid \<and>
     row_of (e @ [newline]) = Some (Entry k w)"

lemma row_ok_Trim: "row_ok l \<Longrightarrow> row_ok (Trim l)"
proof -
  assume l: "row_ok l"
  obtain p q where "l = p @ Trim l @ q" using Trim_decomp by blast
  then have "length (Trim l) \<le> length l" by (metis le_add1 le_add2 length_append order_trans)
  with l Trim_subset [of l] show ?thesis by (auto simp: row_ok_def)
qed

lemma load_state_fun:
  "load_state (xs @ ys) = (\<lambda>st. load_state xs st \<bind> load_state ys)"
  "load_state (d # rows) = (\<lambda>st. row_of d \<bind> (\<lambda>r. apply_row r st \<bind> load_state rows))"
  by (simp_all add: fun_eq_iff)

lemma rewritten_rows_load:
  assumes rows: "list_all row_ok (pre @ h # mid @ e # post)" and s: "plain s"
    and kv: "entry_ok (k, v)" and at: "entry_at s k w pre h mid e"
    and load: "load_state (map (\<lambda>l. l @ [newline]) (pre @ h # mid @ e # post)) ([], None) = Some (c, p)"
  shows "load_state (map (\<lambda>l. l @ [newline])
           (map Trim pre @ [''['' @ s @ '']''] @ map Trim mid @ [k @ '' = '' @ v] @ map Trim post)) ([], None) =
         Some (put_value s k v c, p) \<and> has_value s k c"
proof -
  let ?nl = "map (\<lambda>l. l @ [newline])"
  have t: "load_state (?nl (map Trim ls)) = load_state (?nl ls)" if "list_all row_ok ls" for ls
    using load_state_Trim [OF that] by (simp add: fun_eq_iff)
  have r: "list_all row_ok pre" "list_all row_ok mid" "list_all row_ok post" using rows by auto
  have mid: "list_all (\<lambda>d. \<forall>t w. row_of d \<notin> {Some (Header t), Some (Entry k w)}) (?nl mid)"
    using at r(2) row_of_key [of _ k]
    by (fastforce simp: list_all_iff entry_at_def search_stops_def is_header_def)
  have "load_state (?nl pre @ ((''['' @ s @ '']'') @ [newline]) # ?nl mid @
           ((k @ '' = '' @ v) @ [newline]) # ?nl post) ([], None) =
        Some (put_value s k v c, p) \<and> has_value s k c"
    by (rule load_state_replace [OF _ _ row_of_section [OF s] mid])
      (use at kv load row_of_printed [of k v]
       in \<open>simp_all add: entry_at_def entry_ok_def list.pred_map comp_def ini_ok_def\<close>)
  moreover have "?nl (map Trim pre @ [''['' @ s @ '']''] @ map Trim mid @ [k @ '' = '' @ v] @ map Trim post) =
    ?nl (map Trim pre) @ ((''['' @ s @ '']'') @ [newline]) # ?nl (map Trim mid) @
       ((k @ '' = '' @ v) @ [newline]) # ?nl (map Trim post)" by simp
  ultimately show ?thesis
    by (simp only: load_state_fun t [OF r(1)] t [OF r(2)] t [OF r(3)])
qed

section \<open>Properties\<close>

text \<open>
  C20. What \<open>ToString\<close> prints, \<open>Load\<close> reads back: from a file that holds the printed text, a fresh
  object loads the same sections with the same keys and values and reports success, for every
  configuration whose names and values have no blanks at their ends, no newline, null character
  or comment sign, and whose rows fit the buffer.
\<close>

theorem CConfig_roundtrip:
  assumes "config_ok (m_ConfigMap C)" and "fs path = Some (CConfig_ToString C)"
  shows "CConfig_Load fs path CConfig_new =
           Some (QY_LIGHT_CONTROL_SUCCESS, \<lparr>m_ConfigMap = m_ConfigMap C, m_FilePath = path\<rparr>)"
  using load_sections [of "[]" "m_ConfigMap C" None] assms
  by (simp add: CConfig_Load_def CConfig_new_def CConfig_ToString_def config_ok_def)

theorem CConfig_roundtrip_witness:
  "CConfig_Load [''a.ini'' \<mapsto> CConfig_ToString
       \<lparr>m_ConfigMap = [(''net'', [(''ip'', ''10.0.0.7''), (''port'', ''80'')]), (''sys'', [(''log'', [])])],
        m_FilePath = []\<rparr>] ''a.ini'' CConfig_new =
     Some (QY_LIGHT_CONTROL_SUCCESS,
       \<lparr>m_ConfigMap = [(''net'', [(''ip'', ''10.0.0.7''), (''port'', ''80'')]), (''sys'', [(''log'', [])])],
        m_FilePath = ''a.ini''\<rparr>)"
proof -
  have ok: "config_ok [(''net'', [(''ip'', ''10.0.0.7''), (''port'', ''80'')]), (''sys'', [(''log'', [])])]"
    by code_simp
  show ?thesis
    using CConfig_roundtrip [of
      "\<lparr>m_ConfigMap = [(''net'', [(''ip'', ''10.0.0.7''), (''port'', ''80'')]), (''sys'', [(''log'', [])])],
        m_FilePath = []\<rparr>" "[''a.ini'' \<mapsto> CConfig_ToString
       \<lparr>m_ConfigMap = [(''net'', [(''ip'', ''10.0.0.7''), (''port'', ''80'')]), (''sys'', [(''log'', [])])],
        m_FilePath = []\<rparr>]" "''a.ini''"] ok by simp
qed

text \<open>
  C19. Writing an existing entry updates the file and the object alike. If the file holds section
  \<open>s\<close> once, with key \<open>k\<close> in it, and no earlier row of the section contains the text of the key,
  then after \<open>WriteProfileString\<close> of a new value on the object that was loaded from the file,
  loading the file again gives exactly the object in memory: the value of \<open>k\<close> replaced and
  everything else, of this and of the other sections, as it was.
\<close>

theorem WriteProfileString_update:
  assumes rows: "list_all row_ok (pre @ h # mid @ e # post)"
    and s: "section_ok s" "length s \<le> 97" and kv: "entry_ok (k, v)"
    and at: "entry_at s k w pre h mid e"
    and path: "path \<noteq> []" "fs path = Some (unrows (pre @ h # mid @ e # post))"
    and load: "CConfig_Load fs path CConfig_new = Some (QY_LIGHT_CONTROL_SUCCESS, C)"
  shows "\<exists>fs'. CConfig_WriteProfileString fs s k v C =
             Some (QY_LIGHT_CONTROL_SUCCESS, fs', CConfig_SetCfgToMap s k v C) \<and>
           CConfig_Load fs' path CConfig_new =
             Some (QY_LIGHT_CONTROL_SUCCESS, CConfig_SetCfgToMap s k v C)"
proof -
  let ?rows = "map Trim pre @ [''['' @ s @ '']''] @ map Trim mid @ [k @ '' = '' @ v] @ map Trim post"
  have e: "row_ok e" and st: "search_stops s k pre h mid e" and re: "row_of (e @ [newline]) = Some (Entry k w)"
    using rows at by (simp_all add: entry_at_def)
  obtain r where parse: "CConfig_ParseValue (Trim e) [] [] = Some (QY_LIGHT_CONTROL_SUCCESS, r, k, w)"
    using row_of_Entry [OF re e] by blast
  obtain p where ld: "load_state (map (\<lambda>l. l @ [newline]) (pre @ h # mid @ e # post)) ([], None) =
      Some (m_ConfigMap C, p)" and fp: "m_FilePath C = path"
    using Load_unrows [OF rows, of fs path C] path(2) load by blast
  have pl: "plain s" "trimmed k" "trimmed v"
    using s kv by (auto simp: section_ok_def entry_ok_def key_ok_def plain_def)
  note w = WriteProfileString_stops [OF rows pl(1) s(2) pl(2,3) st parse, of C fs]
  have ok: "list_all row_ok ?rows"
    using rows s(1) kv row_ok_Trim
    by (auto simp: list_all_iff section_ok_def plain_def row_ok_def entry_ok_def key_ok_def newline_def)
  note n = rewritten_rows_load [OF rows pl(1) kv at ld]
  have "CConfig_Load (fs(path \<mapsto> unrows ?rows)) path CConfig_new =
      Some (QY_LIGHT_CONTROL_SUCCESS, CConfig_SetCfgToMap s k v C)"
    using Load_unrows [OF ok, of "fs(path \<mapsto> unrows ?rows)" path] n fp SetCfgToMap_put [of s k C v] by simp
  with w path fp show ?thesis by simp
qed

definition demo_rows :: "string list" where
  "demo_rows = [''# demo'', ''[net]'', ''  ip = 10.0.0.7'', ''port = 80'', ''[sys]'', ''port = 1'']"

definition demo_config :: config where
  "demo_config = \<lparr>m_ConfigMap = [(''net'', [(''ip'', ''10.0.0.7''), (''port'', ''80'')]),
     (''sys'', [(''port'', ''1'')])], m_FilePath = ''a.ini''\<rparr>"

lemma demo_load:
  "CConfig_Load [''a.ini'' \<mapsto> unrows demo_rows] ''a.ini'' CConfig_new =
     Some (QY_LIGHT_CONTROL_SUCCESS, demo_config)"
  by code_simp

theorem WriteProfileString_update_witness:
  "\<exists>fs'. CConfig_WriteProfileString [''a.ini'' \<mapsto> unrows demo_rows] ''net'' ''port'' ''8080'' demo_config =
       Some (QY_LIGHT_CONTROL_SUCCESS, fs', CConfig_SetCfgToMap ''net'' ''port'' ''8080'' demo_config) \<and>
     CConfig_Load fs' ''a.ini'' CConfig_new =
       Some (QY_LIGHT_CONTROL_SUCCESS, CConfig_SetCfgToMap ''net'' ''port'' ''8080'' demo_config)"
proof (rule WriteProfileString_update [where pre = "[''# demo'']" and h = "''[net]''"
      and mid = "[''  ip = 10.0.0.7'']" and e = "''port = 80''" and w = "''80''"
      and post = "[''[sys]'', ''port = 1'']"])
  show "list_all row_ok ([''# demo''] @ ''[net]'' # [''  ip = 10.0.0.7''] @ ''port = 80'' # [''[sys]'', ''port = 1''])"
    "section_ok ''net''" "entry_ok (''port'', ''8080'')"
    "entry_at ''net'' ''port'' ''80'' [''# demo''] ''[net]'' [''  ip = 10.0.0.7''] ''port = 80''"
    by code_simp+
qed (simp_all add: demo_load, simp add: demo_rows_def)

text \<open>
  C39. Writing an entry can be lost. The search for the key stops at the first row of the section
  whose text contains the key, even when that row holds another key (\<open>ip_port = ...\<close> when
  \<open>port\<close> is written); the row is then kept and no row behind it is replaced. The call reports
  success and the object in memory returns the new value, but the file has its old rows.
\<close>

theorem WriteProfileString_lost:
  assumes rows: "list_all row_ok (pre @ h # mid @ e # post)" and s: "plain s" "length s \<le> 97"
    and kv: "trimmed k" "trimmed v" and st: "search_stops s k pre h mid e"
    and h: "Trim h = ''['' @ s @ '']''" and e: "row_of (e @ [newline]) = Some (Entry k' w)" "k' \<noteq> k"
    and path: "m_FilePath C \<noteq> []" "fs (m_FilePath C) = Some (unrows (pre @ h # mid @ e # post))"
    and ok: "map_ok (m_ConfigMap C)"
  shows "\<exists>C'. CConfig_WriteProfileString fs s k v C =
            Some (QY_LIGHT_CONTROL_SUCCESS,
              fs(m_FilePath C \<mapsto> unrows (map Trim (pre @ h # mid @ e # post))), C') \<and>
          CConfig_GetString C' s k d = (QY_LIGHT_CONTROL_SUCCESS, v)"
proof -
  have "row_ok e" using rows by simp
  from row_of_Entry [OF e(1) this]
  obtain r where "CConfig_ParseValue (Trim e) [] [] = Some (QY_LIGHT_CONTROL_SUCCESS, r, k', w)" by blast
  from WriteProfileString_stops [OF rows s kv st this path(1), of fs] path(2) e(2) h GetString_SetCfgToMap [OF ok, of s k v d]
  show ?thesis by simp
qed

theorem WriteProfileString_lost_witness:
  "\<exists>C'. CConfig_WriteProfileString
       [''a.ini'' \<mapsto> unrows ([] @ ''[net]'' # [] @ ''ip_port = 1'' # [''port = 80''])] ''net'' ''port'' ''8080''
       \<lparr>m_ConfigMap = [], m_FilePath = ''a.ini''\<rparr> =
     Some (QY_LIGHT_CONTROL_SUCCESS,
       [''a.ini'' \<mapsto> unrows ([] @ ''[net]'' # [] @ ''ip_port = 1'' # [''port = 80''])]
         (m_FilePath \<lparr>m_ConfigMap = [], m_FilePath = ''a.ini''\<rparr> \<mapsto>
            unrows (map Trim ([] @ ''[net]'' # [] @ ''ip_port = 1'' # [''port = 80'']))), C') \<and>
     CConfig_GetString C' ''net'' ''port'' [] = (QY_LIGHT_CONTROL_SUCCESS, ''8080'')"
proof (rule WriteProfileString_lost [where w = "''1''" and k' = "''ip_port''"])
  show "list_all row_ok ([] @ ''[net]'' # [] @ ''ip_port = 1'' # [''port = 80''])" "plain ''net''"
    "trimmed ''port''" "trimmed ''8080''" "search_stops ''net'' ''port'' [] ''[net]'' [] ''ip_port = 1''"
    "Trim ''[net]'' = ''['' @ ''net'' @ '']''"
    "row_of (''ip_port = 1'' @ [newline]) = Some (Entry ''ip_port'' ''1'')"
    by code_simp+
qed simp_all

end
