(* ===== verification/DateTime.thy ===== *)
theory DateTime
  imports CString
begin

text \<open>
  \<open>CDateTime\<close> (\<open>common/sys/datetime.h\<close>, \<open>datetime.inl\<close>, \<open>datetime.cpp\<close>): a time with its calendar
  fields, printed and read in six formats.

  The time zone is a parameter: \<open>c_localtime\<close> and \<open>c_mktime\<close> of the record \<open>calendar\<close> are what the
  C functions compute. \<open>localtime\<close> returns a pointer to an object of the library that every call
  overwrites, so \<open>m_Time\<close> of all objects is the one \<open>static_tm\<close> of the state. The members of a
  local \<open>tm\<close> that are not assigned are arbitrary (\<open>junk\<close>).
\<close>

section \<open>The C library\<close>

record tm =
  tm_sec :: int
  tm_min :: int
  tm_hour :: int
  tm_mday :: int
  tm_mon :: int
  tm_year :: int
  tm_wday :: int
  tm_yday :: int
  tm_isdst :: int

record calendar =
  c_localtime :: "int \<Rightarrow> tm"
  c_mktime :: "tm \<Rightarrow> int"

record clib =
  static_tm :: tm

definition localtime :: "calendar \<Rightarrow> int \<Rightarrow> clib \<Rightarrow> clib" where
  "localtime C s G = G\<lparr>static_tm := c_localtime C s\<rparr>"

definition dec :: "int \<Rightarrow> string" where
  "dec i = (if i < 0 then CHR ''-'' # to_string (nat (- i)) else to_string (nat i))"

definition dec2 :: "int \<Rightarrow> string" where
  "dec2 i = (if 0 \<le> i \<and> i < 10 then CHR ''0'' # dec i else dec i)"

text \<open>The conversions of \<open>strftime\<close> that are used.\<close>

definition strftime_conv :: "char \<Rightarrow> tm \<Rightarrow> string" where
  "strftime_conv c t =
     (if c = CHR ''Y'' then dec (tm_year t + 1900)
      else if c = CHR ''y'' then dec2 ((tm_year t + 1900) mod 100)
      else if c = CHR ''m'' then dec2 (tm_mon t + 1)
      else if c = CHR ''d'' then dec2 (tm_mday t)
      else if c = CHR ''H'' then dec2 (tm_hour t)
      else if c = CHR ''M'' then dec2 (tm_min t)
      else if c = CHR ''S'' then dec2 (tm_sec t)
      else [c])"

fun strftime :: "string \<Rightarrow> tm \<Rightarrow> string" where
  "strftime [] t = []"
| "strftime [c] t = [c]"
| "strftime (c # d # f) t =
     (if c = CHR ''%'' then strftime_conv d t @ strftime f t else c # strftime (d # f) t)"

section \<open>CDateTime\<close>

datatype time_format =
  yyyyMMddHHmmss | yyyy_MM_dd_HH_mm_ss | yyMMddHHmmss | yy_MM_dd_HH_mm_ss | yyyyMMdd_HHmmss | yyMMdd_HHmmss | MAX_INDEX

record date_time =
  m_Seconds :: int

text \<open>\<open>now\<close> is what \<open>time(NULL)\<close> answers.\<close>

definition CDateTime_new :: "calendar \<Rightarrow> int \<Rightarrow> clib \<Rightarrow> date_time \<times> clib" where
  "CDateTime_new C now G = (\<lparr>m_Seconds = now\<rparr>, localtime C now G)"

definition CDateTime_tm :: "calendar \<Rightarrow> tm \<Rightarrow> clib \<Rightarrow> date_time \<times> clib" where
  "CDateTime_tm C t G = (let s = c_mktime C t in (\<lparr>m_Seconds = s\<rparr>, localtime C s G))"

definition CDateTime_seconds :: "calendar \<Rightarrow> int \<Rightarrow> clib \<Rightarrow> date_time \<times> clib" where
  "CDateTime_seconds C s G = (\<lparr>m_Seconds = s\<rparr>, localtime C s G)"

definition CDateTime_Now :: "calendar \<Rightarrow> int \<Rightarrow> clib \<Rightarrow> date_time \<times> clib" where
  "CDateTime_Now C now G = CDateTime_new C now G"

definition CDateTime_minus :: "date_time \<Rightarrow> date_time \<Rightarrow> int" where
  "CDateTime_minus d r = m_Seconds d - m_Seconds r"

definition GetYear :: "clib \<Rightarrow> date_time \<Rightarrow> int" where "GetYear G d = tm_year (static_tm G) + 1900"
definition GetMonth :: "clib \<Rightarrow> date_time \<Rightarrow> int" where "GetMonth G d = tm_mon (static_tm G) + 1"
definition GetDay :: "clib \<Rightarrow> date_time \<Rightarrow> int" where "GetDay G d = tm_yday (static_tm G) + 1"
definition GetDayInMonth :: "clib \<Rightarrow> date_time \<Rightarrow> int" where "GetDayInMonth G d = tm_mday (static_tm G)"
definition GetDayInWeek :: "clib \<Rightarrow> date_time \<Rightarrow> int" where "GetDayInWeek G d = tm_wday (static_tm G)"
definition GetSeconds :: "date_time \<Rightarrow> int" where "GetSeconds d = m_Seconds d"

definition field_at :: "string \<Rightarrow> nat \<Rightarrow> nat \<Rightarrow> int option" where
  "field_at s pos n = do { t \<leftarrow> substr s pos n; Some (atoi (c_str t)) }"

text \<open>Year, month, day, hour, minute and second at their positions; zeros when the length is wrong.\<close>

definition fields_at :: "string \<Rightarrow> nat \<Rightarrow> nat \<Rightarrow> int \<Rightarrow> nat list \<Rightarrow> (int \<times> int list) option" where
  "fields_at s len ylen century ps =
     (if length s = len then do {
        year \<leftarrow> field_at s 0 ylen;
        rest \<leftarrow> those (map (\<lambda>p. field_at s p 2) ps);
        Some (year + century, rest) }
      else Some (0, [0, 0, 0, 0, 0]))"

definition parse_fields :: "string \<Rightarrow> time_format \<Rightarrow> (int \<times> int list) option" where
  "parse_fields s f =
     (case f of
        yyyyMMddHHmmss \<Rightarrow> fields_at s 14 4 0 [4, 6, 8, 10, 12]
      | yyyy_MM_dd_HH_mm_ss \<Rightarrow> fields_at s 19 4 0 [5, 8, 11, 14, 17]
      | yyMMddHHmmss \<Rightarrow> fields_at s 12 2 2000 [2, 4, 6, 8, 10]
      | yy_MM_dd_HH_mm_ss \<Rightarrow> fields_at s 17 2 2000 [3, 6, 9, 12, 15]
      | yyyyMMdd_HHmmss \<Rightarrow> fields_at s 15 4 0 [4, 6, 9, 11, 13]
      | yyMMdd_HHmmss \<Rightarrow> fields_at s 13 2 2000 [2, 4, 7, 9, 11]
      | MAX_INDEX \<Rightarrow> Some (0, [0, 0, 0, 0, 0]))"

text \<open>The \<open>tm\<close> that is handed to \<open>mktime\<close>.\<close>

definition tm_of_fields :: "tm \<Rightarrow> int \<Rightarrow> int list \<Rightarrow> tm" where
  "tm_of_fields junk year r = junk\<lparr>tm_year := year - 1900, tm_mon := r ! 0 - 1, tm_mday := r ! 1, tm_hour := r ! 2,
     tm_min := r ! 3, tm_sec := r ! 4, tm_isdst := 0\<rparr>"

definition GetDateTimeFromStr :: "calendar \<Rightarrow> int \<Rightarrow> tm \<Rightarrow> string \<Rightarrow> time_format \<Rightarrow> clib \<Rightarrow> (date_time \<times> clib) option" where
  "GetDateTimeFromStr C now junk s f G = do {
     (year, r) \<leftarrow> parse_fields s f;
     Some (if year \<noteq> 0 then CDateTime_tm C (tm_of_fields junk year r) G else CDateTime_new C now G) }"

definition GetTimeStr :: "clib \<Rightarrow> date_time \<Rightarrow> time_format \<Rightarrow> string" where
  "GetTimeStr G d f =
     (let t = static_tm G in case f of
        yyyyMMddHHmmss \<Rightarrow> strftime ''%Y%m%d%H%M%S'' t
      | yyyy_MM_dd_HH_mm_ss \<Rightarrow> strftime ''%Y-%m-%d %H:%M:%S'' t
      | yyMMddHHmmss \<Rightarrow> strftime ''%y%m%d%H%M%S'' t
      | yy_MM_dd_HH_mm_ss \<Rightarrow> strftime ''%y-%m-%d %H:%M:%S'' t
      | yyyyMMdd_HHmmss \<Rightarrow> strftime ''%Y%m%d %H%M%S'' t
      | yyMMdd_HHmmss \<Rightarrow> strftime ''%y%m%d %H%M%S'' t
      | MAX_INDEX \<Rightarrow> [])"

section \<open>Lemmas\<close>

text \<open>Numbers of two and of four digits.\<close>

lemma is_digit_char [simp]: "n < 10 \<Longrightarrow> is_digit (digit_char n)"
  by (simp add: is_digit_def)

lemma dec2_digits:
  assumes "0 \<le> i" and "i < 100"
  shows "dec2 i = [digit_char (nat i div 10), digit_char (nat i mod 10)]"
proof (cases "i < 10")
  case True
  then have "nat i < 10" by linarith
  moreover have "digit_char 0 = CHR ''0''" by code_simp
  ultimately show ?thesis using True assms by (simp add: dec2_def dec_def to_string.simps [of "nat i"])
next
  case False
  then have "nat i div 10 < 10" "\<not> nat i < 10" using assms by linarith+
  then show ?thesis using assms False by (simp add: dec2_def dec_def to_string.simps [of "nat i"] to_string.simps [of "nat i div 10"])
qed

lemma to_string_four:
  assumes "1000 \<le> n" and "n < 10000"
  shows "to_string n = [digit_char (n div 1000), digit_char (n div 100 mod 10), digit_char (n div 10 mod 10), digit_char (n mod 10)]"
proof -
  have "\<not> n < 10" "\<not> n div 10 < 10" "\<not> n div 100 < 10" "n div 1000 < 10" using assms by linarith+
  moreover have "n div 10 div 10 = n div 100" "n div 100 div 10 = n div 1000" by (simp_all add: div_mult2_eq [symmetric])
  ultimately show ?thesis
    using to_string.simps [of n] to_string.simps [of "n div 10"] to_string.simps [of "n div 100"] to_string.simps [of "n div 1000"]
    by simp
qed

lemma dec_four:
  assumes "1000 \<le> i" and "i < 10000"
  shows "dec i = [digit_char (nat i div 1000), digit_char (nat i div 100 mod 10), digit_char (nat i div 10 mod 10), digit_char (nat i mod 10)]"
  using assms to_string_four [of "nat i"] by (simp add: dec_def)

lemma atoi_digits:
  assumes "list_all is_digit s" and "s \<noteq> []"
  shows "atoi (c_str s) = int (number_of s)"
proof -
  obtain c r where s: "s = c # r" using assms(2) by (cases s) auto
  have "CHR 0x00 \<notin> set s" by (rule digits_no [OF assms(1)]) (simp add: is_digit_def)
  then have "c_str s = c # r" by (simp add: c_str_id s)
  moreover have t: "takeWhile is_digit (c # r) = c # r"
    by (rule takeWhile_eq_all_conv [THEN iffD2]) (use assms(1) s in \<open>simp only: list_all_iff\<close>)
  ultimately show ?thesis
    using assms(1) digit_not_special [of c] by (simp add: atoi_def s t del: takeWhile.simps)
qed

lemma dec2_chars:
  assumes "0 \<le> i" and "i < 100"
  obtains a b where "dec2 i = [a, b]" and "atoi (c_str [a, b]) = i"
proof -
  have d: "nat i div 10 < 10" using assms by linarith
  then have "list_all is_digit [digit_char (nat i div 10), digit_char (nat i mod 10)]" by simp
  from atoi_digits [OF this] d assms(1) have "atoi (c_str [digit_char (nat i div 10), digit_char (nat i mod 10)]) = i"
    by (simp add: number_of_def)
  with dec2_digits [OF assms] show ?thesis by (rule that)
qed

lemma dec_chars:
  assumes "1000 \<le> i" and "i < 10000"
  obtains a b c d where "dec i = [a, b, c, d]" and "atoi (c_str [a, b, c, d]) = i"
proof -
  have "atoi (c_str (to_string (nat i))) = int (number_of (to_string (nat i)))"
    by (rule atoi_digits [OF to_string_digits]) (simp add: to_string.simps [of "nat i"])
  then have "atoi (c_str (dec i)) = i" using assms by (simp add: dec_def)
  with dec_four [OF assms] show ?thesis using that by metis
qed

text \<open>The times a format can carry: four digits of the year, or two of them and then this century.\<close>

definition year_range :: "time_format \<Rightarrow> int set" where
  "year_range f = (if f \<in> {yyyyMMddHHmmss, yyyy_MM_dd_HH_mm_ss, yyyyMMdd_HHmmss} then {1000..9999} else {2000..2099})"

definition tm_ok :: "tm \<Rightarrow> bool" where
  "tm_ok t \<longleftrightarrow> 0 \<le> tm_mon t \<and> tm_mon t < 12 \<and> 1 \<le> tm_mday t \<and> tm_mday t \<le> 31 \<and> 0 \<le> tm_hour t \<and> tm_hour t < 24
     \<and> 0 \<le> tm_min t \<and> tm_min t < 60 \<and> 0 \<le> tm_sec t \<and> tm_sec t \<le> 60"

lemma year_of_century:
  fixes y :: int
  assumes "2000 \<le> y" and "y \<le> 2099"
  shows "y = y mod 100 + 2000"
  using mod_mult_self1 [of "y - 2000" 20 100] mod_pos_pos_trivial [of "y - 2000" 100] assms by simp

lemma parse_fields_GetTimeStr:
  assumes "tm_ok (static_tm G)" and "tm_year (static_tm G) + 1900 \<in> year_range f" and "f \<noteq> MAX_INDEX"
  shows "parse_fields (GetTimeStr G d f) f = Some (tm_year (static_tm G) + 1900,
    [tm_mon (static_tm G) + 1, tm_mday (static_tm G), tm_hour (static_tm G), tm_min (static_tm G), tm_sec (static_tm G)])"
proof -
  define t where "t = static_tm G"
  obtain m1 m2 where mon: "dec2 (tm_mon t + 1) = [m1, m2]" "atoi (c_str [m1, m2]) = tm_mon t + 1"
    using assms(1) by (auto simp: tm_ok_def t_def intro: dec2_chars [of "tm_mon t + 1"])
  obtain d1 d2 where day: "dec2 (tm_mday t) = [d1, d2]" "atoi (c_str [d1, d2]) = tm_mday t"
    using assms(1) by (auto simp: tm_ok_def t_def intro: dec2_chars [of "tm_mday t"])
  obtain h1 h2 where hour: "dec2 (tm_hour t) = [h1, h2]" "atoi (c_str [h1, h2]) = tm_hour t"
    using assms(1) by (auto simp: tm_ok_def t_def intro: dec2_chars [of "tm_hour t"])
  obtain n1 n2 where minute: "dec2 (tm_min t) = [n1, n2]" "atoi (c_str [n1, n2]) = tm_min t"
    using assms(1) by (auto simp: tm_ok_def t_def intro: dec2_chars [of "tm_min t"])
  obtain s1 s2 where sec: "dec2 (tm_sec t) = [s1, s2]" "atoi (c_str [s1, s2]) = tm_sec t"
    using assms(1) by (auto simp: tm_ok_def t_def intro: dec2_chars [of "tm_sec t"])
  note fields = mon day hour minute sec strftime_conv_def GetTimeStr_def parse_fields_def fields_at_def field_at_def Let_def
  show ?thesis
  proof (cases "f \<in> {yyyyMMddHHmmss, yyyy_MM_dd_HH_mm_ss, yyyyMMdd_HHmmss}")
    case True
    then have "1000 \<le> tm_year t + 1900" "tm_year t + 1900 < 10000" using assms(2) by (auto simp: year_range_def t_def)
    then obtain y1 y2 y3 y4 where y: "dec (tm_year t + 1900) = [y1, y2, y3, y4]" "atoi (c_str [y1, y2, y3, y4]) = tm_year t + 1900"
      by (rule dec_chars)
    have "parse_fields (GetTimeStr G d f) f = Some (atoi (c_str [y1, y2, y3, y4]) + 0, [tm_mon t + 1, tm_mday t, tm_hour t, tm_min t, tm_sec t])"
      using True by (cases f) (simp_all add: fields y(1) t_def [symmetric])
    then show ?thesis by (simp add: y(2) t_def)
  next
    case False
    then have "2000 \<le> tm_year t + 1900" "tm_year t + 1900 \<le> 2099" using assms(2) by (auto simp: year_range_def t_def)
    then have r: "tm_year t + 1900 = (tm_year t + 1900) mod 100 + 2000" by (rule year_of_century)
    obtain y1 y2 where y: "dec2 ((tm_year t + 1900) mod 100) = [y1, y2]" "atoi (c_str [y1, y2]) = (tm_year t + 1900) mod 100"
      by (rule dec2_chars [of "(tm_year t + 1900) mod 100"]) auto
    have "parse_fields (GetTimeStr G d f) f = Some (atoi (c_str [y1, y2]) + 2000, [tm_mon t + 1, tm_mday t, tm_hour t, tm_min t, tm_sec t])"
      using False assms(3) by (cases f) (simp_all add: fields y(1) t_def [symmetric])
    then show ?thesis unfolding t_def [symmetric] y(2) r [symmetric] .
  qed
qed


text \<open>The first days of 2018 in Greenwich, as an example of a calendar.\<close>

definition january_2018 :: calendar where
  "january_2018 = \<lparr>
     c_localtime = (\<lambda>s. let n = s - 1514764800 in
       \<lparr>tm_sec = n mod 60, tm_min = n div 60 mod 60, tm_hour = n div 3600 mod 24, tm_mday = n div 86400 + 1, tm_mon = 0,
        tm_year = 118, tm_wday = (n div 86400 + 1) mod 7, tm_yday = n div 86400, tm_isdst = 0\<rparr>),
     c_mktime = (\<lambda>t. 1514764800 + 86400 * (tm_mday t - 1) + 3600 * tm_hour t + 60 * tm_min t + tm_sec t)\<rparr>"


section \<open>What goes wrong\<close>



text \<open>The lengths the parser insists on.\<close>

definition format_length :: "time_format \<Rightarrow> nat option" where
  "format_length f = (case f of yyyyMMddHHmmss \<Rightarrow> Some 14 | yyyy_MM_dd_HH_mm_ss \<Rightarrow> Some 19 | yyMMddHHmmss \<Rightarrow> Some 12
     | yy_MM_dd_HH_mm_ss \<Rightarrow> Some 17 | yyyyMMdd_HHmmss \<Rightarrow> Some 15 | yyMMdd_HHmmss \<Rightarrow> Some 13 | MAX_INDEX \<Rightarrow> None)"

lemma length_GetTimeStr:
  assumes "tm_ok (static_tm G)" and "tm_year (static_tm G) + 1900 \<in> year_range f" and "f \<noteq> MAX_INDEX"
  shows "Some (length (GetTimeStr G d f)) = format_length f"
proof (rule ccontr)
  assume "\<not> ?thesis"
  then have "parse_fields (GetTimeStr G d f) f = Some (0, [0, 0, 0, 0, 0])"
    by (cases f) (simp_all add: format_length_def parse_fields_def fields_at_def)
  with parse_fields_GetTimeStr [OF assms, of d] assms(2) show False by (auto simp: year_range_def split: if_splits)
qed

text \<open>A text of another length, or one whose four characters of the year read as 0, is not refused: the
  caller gets the current time, with nothing to tell it from a parsed one.\<close>

lemma GetDateTimeFromStr_wrong_length:
  assumes "format_length f \<noteq> Some (length s)"
  shows "GetDateTimeFromStr C now junk s f G = Some (CDateTime_new C now G)"
  using assms by (cases f) (simp_all add: GetDateTimeFromStr_def parse_fields_def fields_at_def format_length_def)

lemma GetDateTimeFromStr_year_zero:
  assumes "format_length f = Some (length s)" and "f \<in> {yyyyMMddHHmmss, yyyy_MM_dd_HH_mm_ss, yyyyMMdd_HHmmss}"
    and "atoi (c_str (take 4 s)) = 0"
  shows "GetDateTimeFromStr C now junk s f G = Some (CDateTime_new C now G)"
  using assms by (auto simp: GetDateTimeFromStr_def parse_fields_def fields_at_def field_at_def format_length_def)

text \<open>No text makes the parser throw: each \<open>substr\<close> starts inside a text of the length that was tested.\<close>

lemma GetDateTimeFromStr_total: "\<exists>r. GetDateTimeFromStr C now junk s f G = Some r"
proof -
  have "\<exists>y r. parse_fields s f = Some (y, r)" by (cases f) (simp_all add: parse_fields_def fields_at_def field_at_def)
  then show ?thesis by (auto simp: GetDateTimeFromStr_def)
qed

end
