(* ===== verification/EventLoop.thy ===== *)
theory EventLoop
  imports LoopPool Steps "HOL-Library.Multiset"
begin

text \<open>
  \<open>evpp::EventLoop\<close> (\<open>thirdpartlibs/evpp/evpp/event_loop.h\<close>, \<open>event_loop.cc\<close>) with the pipe it is
  woken by (\<open>PipeEventWatcher\<close> of \<open>event_watcher.cc\<close>): the queue of functors that any thread may
  add to and the loop's thread runs. The variant of the code without boost and without the
  concurrent queue is modelled, where the queue is a vector under a mutex.

  Threads interleave at every access to shared data, so \<open>QueueInLoop\<close> is a sequence of steps whose
  program counters are \<open>push_pc\<close>, and what the loop's thread is doing inside \<open>event_base_dispatch\<close>
  is the stack \<open>el_frames\<close>. What a functor does itself is left open: the functors it queues are
  steps of a thread like any other. The pipe is the number of bytes in it, at most \<open>cap\<close>.
\<close>

section \<open>State\<close>

datatype 'f ev_functor = User 'f | StopFn

text \<open>Where a thread is in \<open>QueueInLoop\<close>.\<close>

datatype 'f push_pc = Idle | Entering "'f ev_functor" | Counting | Checking | Storing | Notifying

text \<open>
  \<open>DoPendingFunctors\<close> about to clear \<open>notified_\<close>, about to swap with the mutex held, and running what
  it took; and \<open>StopInLoop\<close> after a call of it, before or after \<open>event_base_loopexit\<close>.
\<close>

datatype 'f frame = DoReset | DoSwap | DoRun "'f ev_functor list" | StopLoop bool

record 'f ev_loop =
  el_status :: server_status
  el_tid :: nat
  el_watcher :: bool
  el_pipe :: nat
  el_notified :: bool
  el_pending :: "'f ev_functor list"
  el_count :: u32
  el_frames :: "'f frame list"
  el_exit :: bool
  el_threads :: "'f push_pc list"
  el_queued :: "'f ev_functor list"
  el_ran :: "'f ev_functor list"
  el_direct :: "'f list"

text \<open>\<open>EventLoop\<close> and \<open>Init\<close>, by thread \<open>t\<close> of \<open>n\<close> threads.\<close>

definition EventLoop_new :: "nat \<Rightarrow> nat \<Rightarrow> 'f ev_loop" where
  "EventLoop_new n t =
     \<lparr>el_status = kInitialized, el_tid = t, el_watcher = True, el_pipe = 0, el_notified = False, el_pending = [],
      el_count = 0, el_frames = [], el_exit = False, el_threads = replicate n Idle, el_queued = [], el_ran = [],
      el_direct = []\<rparr>"

section \<open>Operations\<close>

text \<open>\<open>Run\<close> up to \<open>event_base_dispatch\<close>, in thread \<open>t\<close>.\<close>

definition EventLoop_Run :: "nat \<Rightarrow> 'f ev_loop \<Rightarrow> 'f ev_loop option" where
  "EventLoop_Run t S = Some (S\<lparr>el_tid := t, el_status := kRunning\<rparr>)"

text \<open>\<open>Run\<close> after \<open>event_base_dispatch\<close>.\<close>

definition EventLoop_Run_end :: "'f ev_loop \<Rightarrow> 'f ev_loop option" where
  "EventLoop_Run_end S = Some (S\<lparr>el_watcher := False, el_pipe := 0, el_status := kStopped\<rparr>)"

definition IsPendingQueueEmpty :: "'f ev_loop \<Rightarrow> bool" where
  "IsPendingQueueEmpty S \<longleftrightarrow> el_pending S = []"

definition set_pc :: "nat \<Rightarrow> 'f push_pc \<Rightarrow> 'f ev_loop \<Rightarrow> 'f ev_loop" where
  "set_pc i p S = S\<lparr>el_threads := (el_threads S)[i := p]\<rparr>"

definition QueueInLoop :: "nat \<Rightarrow> 'f ev_functor \<Rightarrow> 'f ev_loop \<Rightarrow> 'f ev_loop option" where
  "QueueInLoop i f S = Some (set_pc i (Entering f) S)"

definition RunInLoop :: "nat \<Rightarrow> 'f \<Rightarrow> 'f ev_loop \<Rightarrow> 'f ev_loop option" where
  "RunInLoop i f S =
     (if el_status S = kRunning \<and> el_tid S = i then Some (S\<lparr>el_direct := el_direct S @ [f]\<rparr>)
      else QueueInLoop i (User f) S)"

definition EventLoop_StopCall :: "nat \<Rightarrow> 'f ev_loop \<Rightarrow> 'f ev_loop option" where
  "EventLoop_StopCall i S = do {
     assert_that (el_status S = kRunning);
     QueueInLoop i StopFn (S\<lparr>el_status := kStopping\<rparr>) }"

text \<open>\<open>PipeEventWatcher::Notify\<close>: a byte, unless the pipe is full.\<close>

definition Notify :: "nat \<Rightarrow> 'f ev_loop \<Rightarrow> 'f ev_loop" where
  "Notify cap S = S\<lparr>el_pipe := min cap (Suc (el_pipe S))\<rparr>"

definition mutex_held :: "'f ev_loop \<Rightarrow> bool" where
  "mutex_held S \<longleftrightarrow> (case el_frames S of DoSwap # fs \<Rightarrow> True | _ \<Rightarrow> False)"

text \<open>The next step of thread \<open>i\<close> in \<open>QueueInLoop\<close>; it waits while the mutex is held.\<close>

definition queue_step :: "nat \<Rightarrow> nat \<Rightarrow> 'f ev_loop \<Rightarrow> 'f ev_loop option" where
  "queue_step cap i S =
     (case el_threads S ! i of
        Idle \<Rightarrow> Some S
      | Entering f \<Rightarrow>
          if mutex_held S then Some S
          else Some (set_pc i Counting (S\<lparr>el_pending := el_pending S @ [f], el_queued := el_queued S @ [f]\<rparr>))
      | Counting \<Rightarrow> Some (set_pc i Checking (S\<lparr>el_count := el_count S + 1\<rparr>))
      | Checking \<Rightarrow> Some (set_pc i (if el_notified S then Idle else Storing) S)
      | Storing \<Rightarrow> Some (set_pc i Notifying (S\<lparr>el_notified := True\<rparr>))
      | Notifying \<Rightarrow>
          if el_watcher S then Some (set_pc i Idle (Notify cap S))
          else do { assert_that (el_status S \<noteq> kRunning); Some (set_pc i Idle S) })"

text \<open>\<open>PipeEventWatcher::HandlerFn\<close>: up to 128 bytes are taken and \<open>DoPendingFunctors\<close> is called.\<close>

definition HandlerFn :: "'f ev_loop \<Rightarrow> 'f ev_loop option" where
  "HandlerFn S =
     (if el_pipe S > 0 then Some (S\<lparr>el_pipe := el_pipe S - min 128 (el_pipe S), el_frames := [DoReset]\<rparr>) else Some S)"

text \<open>
  The next step of \<open>DoPendingFunctors\<close>, with \<open>gs\<close> still to be run and \<open>fs\<close> the callers. Running a
  functor other than \<open>StopInLoop\<close> is one step.
\<close>

definition DoPendingFunctors_reset :: "'f frame list \<Rightarrow> 'f ev_loop \<Rightarrow> 'f ev_loop option" where
  "DoPendingFunctors_reset fs S = Some (S\<lparr>el_notified := False, el_frames := DoSwap # fs\<rparr>)"

definition DoPendingFunctors_swap :: "'f frame list \<Rightarrow> 'f ev_loop \<Rightarrow> 'f ev_loop option" where
  "DoPendingFunctors_swap fs S = Some (S\<lparr>el_pending := [], el_frames := DoRun (el_pending S) # fs\<rparr>)"

definition DoPendingFunctors_run :: "'f ev_functor list \<Rightarrow> 'f frame list \<Rightarrow> 'f ev_loop \<Rightarrow> 'f ev_loop option" where
  "DoPendingFunctors_run gs fs S =
     (case gs of
        [] \<Rightarrow> Some (S\<lparr>el_frames := fs\<rparr>)
      | User u # gs \<Rightarrow>
          Some (S\<lparr>el_ran := el_ran S @ [User u], el_count := el_count S - 1, el_frames := DoRun gs # fs\<rparr>)
      | StopFn # gs \<Rightarrow> do {
          assert_that (el_status S = kStopping);
          Some (S\<lparr>el_ran := el_ran S @ [StopFn], el_frames := DoReset # StopLoop False # DoRun gs # fs\<rparr>) })"

text \<open>\<open>StopInLoop\<close> after a call of \<open>DoPendingFunctors\<close>, in the second of its two loops if \<open>exiting\<close>.\<close>

definition StopInLoop_next :: "bool \<Rightarrow> 'f frame list \<Rightarrow> 'f ev_loop \<Rightarrow> 'f ev_loop option" where
  "StopInLoop_next exiting fs S =
     (if \<not> IsPendingQueueEmpty S then Some (S\<lparr>el_frames := DoReset # StopLoop exiting # fs\<rparr>)
      else if exiting then Some (S\<lparr>el_count := el_count S - 1, el_frames := fs\<rparr>)
      else Some (S\<lparr>el_exit := True, el_frames := DoReset # StopLoop True # fs\<rparr>))"

text \<open>
  The next step of the loop's thread. \<open>event_base_dispatch\<close> reports a readable pipe; after
  \<open>event_base_loopexit\<close> it returns at a point that libevent chooses (\<open>leave\<close>).
\<close>

definition loop_step :: "bool \<Rightarrow> 'f ev_loop \<Rightarrow> 'f ev_loop option" where
  "loop_step leave S =
     (case el_frames S of
        [] \<Rightarrow>
          if el_status S \<notin> {kRunning, kStopping} then Some S
          else if el_exit S \<and> leave then EventLoop_Run_end S
          else HandlerFn S
      | DoReset # fs \<Rightarrow> DoPendingFunctors_reset fs S
      | DoSwap # fs \<Rightarrow> DoPendingFunctors_swap fs S
      | DoRun gs # fs \<Rightarrow> DoPendingFunctors_run gs fs S
      | StopLoop b # fs \<Rightarrow> StopInLoop_next b fs S)"

section \<open>Steps\<close>

datatype 'f ev_op = EvRun nat | EvQueue nat 'f | EvRunIn nat 'f | EvStop nat | EvThread nat | EvLoop bool

fun ev_do :: "nat \<Rightarrow> 'f ev_op \<Rightarrow> 'f ev_loop \<Rightarrow> 'f ev_loop option" where
  "ev_do cap (EvRun t) S = EventLoop_Run t S"
| "ev_do cap (EvQueue i f) S = QueueInLoop i (User f) S"
| "ev_do cap (EvRunIn i f) S = RunInLoop i f S"
| "ev_do cap (EvStop i) S = EventLoop_StopCall i S"
| "ev_do cap (EvThread i) S = queue_step cap i S"
| "ev_do cap (EvLoop leave) S = loop_step leave S"

text \<open>A thread calls one operation at a time; the loop is run once and stopped once, while it runs.\<close>

fun ev_enabled :: "'f ev_op \<Rightarrow> 'f ev_loop \<Rightarrow> bool" where
  "ev_enabled (EvRun t) S \<longleftrightarrow> el_status S = kInitialized"
| "ev_enabled (EvQueue i f) S \<longleftrightarrow> i < length (el_threads S) \<and> el_threads S ! i = Idle"
| "ev_enabled (EvRunIn i f) S \<longleftrightarrow> i < length (el_threads S) \<and> el_threads S ! i = Idle"
| "ev_enabled (EvStop i) S \<longleftrightarrow> i < length (el_threads S) \<and> el_threads S ! i = Idle \<and> el_status S = kRunning"
| "ev_enabled (EvThread i) S \<longleftrightarrow> i < length (el_threads S)"
| "ev_enabled (EvLoop leave) S \<longleftrightarrow> True"

definition ev_reach :: "nat \<Rightarrow> 'f ev_loop \<Rightarrow> bool" where
  "ev_reach cap = reachable (\<lambda>S. \<exists>n t. S = EventLoop_new n t) ev_enabled (ev_do cap)"

section \<open>Lemmas\<close>

lemmas loop_step_defs = loop_step_def HandlerFn_def DoPendingFunctors_reset_def DoPendingFunctors_swap_def
  DoPendingFunctors_run_def StopInLoop_next_def

lemma count_list_update:
  assumes "i < length xs"
  shows "count_list (xs[i := y]) x + (if xs ! i = x then 1 else 0) = count_list xs x + (if y = x then 1 else 0)"
  using assms
proof (induction xs arbitrary: i)
  case (Cons a xs)
  show ?case
  proof (cases i)
    case (Suc k)
    then show ?thesis using Cons.IH [of k] Cons.prems by (auto split: if_splits)
  qed simp
qed simp

text \<open>The functors a stack of calls still has to run.\<close>

fun frame_rest :: "'f frame \<Rightarrow> 'f ev_functor list" where
  "frame_rest (DoRun gs) = gs"
| "frame_rest _ = []"

definition rest_of :: "'f frame list \<Rightarrow> 'f ev_functor list" where
  "rest_of fs = concat (map frame_rest fs)"

lemma rest_of_simps [simp]: "rest_of [] = []" "rest_of (f # fs) = frame_rest f @ rest_of fs"
  by (simp_all add: rest_of_def)

fun is_stop_frame :: "'f frame \<Rightarrow> bool" where
  "is_stop_frame (StopLoop b) = True"
| "is_stop_frame _ = False"

text \<open>A thread in \<open>QueueInLoop\<close> that has added its functor, or has yet to call \<open>Notify\<close>.\<close>

definition at_pc :: "'f push_pc set \<Rightarrow> 'f push_pc list \<Rightarrow> bool" where
  "at_pc A ts \<longleftrightarrow> (\<exists>j<length ts. ts ! j \<in> A)"

definition others_at :: "nat \<Rightarrow> 'f push_pc set \<Rightarrow> 'f push_pc list \<Rightarrow> bool" where
  "others_at i A ts \<longleftrightarrow> (\<exists>j<length ts. j \<noteq> i \<and> ts ! j \<in> A)"

lemma at_pc_split:
  assumes "i < length ts"
  shows "at_pc A ts \<longleftrightarrow> ts ! i \<in> A \<or> others_at i A ts" "at_pc A (ts[i := p]) \<longleftrightarrow> p \<in> A \<or> others_at i A ts"
  using assms by (auto simp: at_pc_def others_at_def nth_list_update)

lemma others_at_mono: "others_at i {Notifying} ts \<Longrightarrow> others_at i {Counting, Checking, Storing, Notifying} ts"
  by (auto simp: others_at_def)

definition top_in :: "'f frame set \<Rightarrow> 'f ev_loop \<Rightarrow> bool" where
  "top_in A S \<longleftrightarrow> (\<exists>f fs. el_frames S = f # fs \<and> f \<in> A)"

definition life_inv :: "'f ev_loop \<Rightarrow> bool" where
  "life_inv S \<longleftrightarrow> el_status S \<in> {kInitialized, kRunning, kStopping, kStopped} \<and>
     (el_watcher S \<longleftrightarrow> el_status S \<noteq> kStopped) \<and>
     (el_frames S \<noteq> [] \<longrightarrow> el_status S \<in> {kRunning, kStopping}) \<and>
     (StopFn \<in> set (el_pending S) \<union> set (rest_of (el_frames S)) \<union> set (el_ran S) \<or> Entering StopFn \<in> set (el_threads S) \<longrightarrow>
        el_status S \<in> {kStopping, kStopped})"

text \<open>No wake-up is lost.\<close>

definition wake_inv :: "'f ev_loop \<Rightarrow> bool" where
  "wake_inv S \<longleftrightarrow>
     (el_notified S \<and> el_watcher S \<longrightarrow> at_pc {Notifying} (el_threads S) \<or> el_pipe S > 0 \<or> top_in {DoReset} S) \<and>
     (el_pending S \<noteq> [] \<and> el_watcher S \<longrightarrow>
        at_pc {Counting, Checking, Storing, Notifying} (el_threads S) \<or> el_pipe S > 0 \<or> top_in {DoReset, DoSwap} S)"

text \<open>Every functor is in exactly one place, and they are run in the order they were queued until
  \<open>StopInLoop\<close> is.\<close>

definition once_inv :: "'f ev_loop \<Rightarrow> bool" where
  "once_inv S \<longleftrightarrow> mset (el_ran S) + mset (rest_of (el_frames S)) + mset (el_pending S) = mset (el_queued S) \<and>
     (StopFn \<notin> set (el_ran S) \<longrightarrow> length (el_frames S) \<le> 1 \<and> filter is_stop_frame (el_frames S) = [] \<and>
        el_ran S @ rest_of (el_frames S) @ el_pending S = el_queued S)"

definition count_inv :: "'f ev_loop \<Rightarrow> bool" where
  "count_inv S \<longleftrightarrow> el_count S + of_nat (count_list (el_threads S) Counting) =
     of_nat (length (el_pending S) + length (rest_of (el_frames S)) + length (filter is_stop_frame (el_frames S)))"

definition ev_inv :: "'f ev_loop \<Rightarrow> bool" where
  "ev_inv S \<longleftrightarrow> life_inv S \<and> wake_inv S \<and> once_inv S \<and> count_inv S"

lemma ev_inv_new: "ev_inv (EventLoop_new n t)"
  by (auto simp: ev_inv_def life_inv_def wake_inv_def once_inv_def count_inv_def EventLoop_new_def at_pc_def
      count_list_0_iff)

lemma top_in_cong: "el_frames T = el_frames S \<Longrightarrow> top_in A T = top_in A S"
  by (simp add: top_in_def)

lemma top_in_simps [simp]: "el_frames S = f # fs \<Longrightarrow> top_in A S \<longleftrightarrow> f \<in> A" "el_frames S = [] \<Longrightarrow> \<not> top_in A S"
  "top_in A (S\<lparr>el_threads := ts\<rparr>) = top_in A S" "top_in A (S\<lparr>el_pending := q\<rparr>) = top_in A S"
  "top_in A (S\<lparr>el_queued := q\<rparr>) = top_in A S" "top_in A (S\<lparr>el_count := c\<rparr>) = top_in A S"
  "top_in A (S\<lparr>el_notified := b\<rparr>) = top_in A S" "top_in A (S\<lparr>el_pipe := n\<rparr>) = top_in A S"
  by (simp_all add: top_in_def)

lemma top_in_mono: "top_in {DoReset} S \<Longrightarrow> top_in {DoReset, DoSwap} S"
  by (auto simp: top_in_def)

lemma in_update: "x \<in> set (xs[i := y]) \<Longrightarrow> x = y \<or> x \<in> set xs"
  using set_update_subset_insert by fastforce


subsection \<open>The steps of \<open>QueueInLoop\<close>\<close>

lemma queue_step_cases:
  assumes "queue_step cap i S = Some S'"
  obtains (stay) "S' = S"
  | (push) f where "el_threads S ! i = Entering f" "\<not> mutex_held S"
      "S' = set_pc i Counting (S\<lparr>el_pending := el_pending S @ [f], el_queued := el_queued S @ [f]\<rparr>)"
  | (incr) "el_threads S ! i = Counting" "S' = set_pc i Checking (S\<lparr>el_count := el_count S + 1\<rparr>)"
  | (told) "el_threads S ! i = Checking" "el_notified S" "S' = set_pc i Idle S"
  | (untold) "el_threads S ! i = Checking" "\<not> el_notified S" "S' = set_pc i Storing S"
  | (tell) "el_threads S ! i = Storing" "S' = set_pc i Notifying (S\<lparr>el_notified := True\<rparr>)"
  | (notify) "el_threads S ! i = Notifying" "el_watcher S" "S' = set_pc i Idle (Notify cap S)"
  | (nobody) "el_threads S ! i = Notifying" "\<not> el_watcher S" "S' = set_pc i Idle S"
  using assms by (cases "el_threads S ! i") (auto simp: queue_step_def split: if_splits bind_splits)

lemma queue_step_defined: "life_inv S \<Longrightarrow> \<exists>S'. queue_step cap i S = Some S'"
  by (cases "el_threads S ! i") (auto simp: queue_step_def life_inv_def)

lemma life_inv_mono:
  assumes "life_inv S" and "el_status T = el_status S" "el_watcher T = el_watcher S" "el_frames T = el_frames S" "el_ran T = el_ran S"
    and "StopFn \<in> set (el_pending T) \<Longrightarrow> StopFn \<in> set (el_pending S) \<or> Entering StopFn \<in> set (el_threads S)"
    and "Entering StopFn \<in> set (el_threads T) \<Longrightarrow> Entering StopFn \<in> set (el_threads S)"
  shows "life_inv T"
  using assms(1,6,7) unfolding life_inv_def assms(2-5) by blast

lemma queue_step_life:
  assumes l: "life_inv S" and i: "i < length (el_threads S)" and q: "queue_step cap i S = Some S'"
  shows "life_inv S'"
  using q
proof (cases rule: queue_step_cases)
  case (push f)
  then have "Entering f \<in> set (el_threads S)" using List.nth_mem [OF i] by simp
  with push show ?thesis by (intro life_inv_mono [OF l]) (auto simp: set_pc_def dest: in_update)
qed (use l in \<open>auto intro!: life_inv_mono [OF l] simp: set_pc_def Notify_def dest: in_update\<close>)

lemma queue_step_wake:
  assumes w: "wake_inv S" and i: "i < length (el_threads S)" and cap: "0 < cap" and q: "queue_step cap i S = Some S'"
  shows "wake_inv S'"
  using q
  by (cases rule: queue_step_cases)
    (use w cap others_at_mono [of i "el_threads S"] top_in_mono [of S] in
      \<open>auto simp: wake_inv_def set_pc_def Notify_def at_pc_split [OF i]\<close>)

lemma queue_step_once:
  assumes "once_inv S" and q: "queue_step cap i S = Some S'"
  shows "once_inv S'"
  using q by (cases rule: queue_step_cases) (use assms(1) in \<open>auto simp: once_inv_def set_pc_def Notify_def\<close>)

lemma queue_step_count:
  assumes c: "count_inv S" and i: "i < length (el_threads S)" and q: "queue_step cap i S = Some S'"
  shows "count_inv S'"
  using q
proof (cases rule: queue_step_cases)
  case incr
  have "count_list (el_threads S) Counting = Suc (count_list ((el_threads S)[i := Checking]) Counting)"
    using count_list_update [OF i, of Checking Counting] incr by simp
  with incr c show ?thesis by (simp add: count_inv_def set_pc_def algebra_simps)
qed (use c count_list_update [OF i, of _ Counting] in \<open>simp_all add: count_inv_def set_pc_def Notify_def\<close>)


subsection \<open>The steps of the loop\<close>

lemma loop_step_cases:
  assumes "loop_step leave S = Some S'"
  obtains (stay) "S' = S" "el_frames S = []"
  | (finish) "el_frames S = []" "el_exit S" "leave" "S' = S\<lparr>el_watcher := False, el_pipe := 0, el_status := kStopped\<rparr>"
  | (wake) "el_frames S = []" "el_status S \<in> {kRunning, kStopping}" "0 < el_pipe S"
      "S' = S\<lparr>el_pipe := el_pipe S - min 128 (el_pipe S), el_frames := [DoReset]\<rparr>"
  | (reset) fs where "el_frames S = DoReset # fs" "S' = S\<lparr>el_notified := False, el_frames := DoSwap # fs\<rparr>"
  | (swap) fs where "el_frames S = DoSwap # fs" "S' = S\<lparr>el_pending := [], el_frames := DoRun (el_pending S) # fs\<rparr>"
  | (ret) fs where "el_frames S = DoRun [] # fs" "S' = S\<lparr>el_frames := fs\<rparr>"
  | (run) u gs fs where "el_frames S = DoRun (User u # gs) # fs"
      "S' = S\<lparr>el_ran := el_ran S @ [User u], el_count := el_count S - 1, el_frames := DoRun gs # fs\<rparr>"
  | (stop) gs fs where "el_frames S = DoRun (StopFn # gs) # fs" "el_status S = kStopping"
      "S' = S\<lparr>el_ran := el_ran S @ [StopFn], el_frames := DoReset # StopLoop False # DoRun gs # fs\<rparr>"
  | (again) b fs where "el_frames S = StopLoop b # fs" "el_pending S \<noteq> []" "S' = S\<lparr>el_frames := DoReset # StopLoop b # fs\<rparr>"
  | (exit) fs where "el_frames S = StopLoop False # fs" "el_pending S = []"
      "S' = S\<lparr>el_exit := True, el_frames := DoReset # StopLoop True # fs\<rparr>"
  | (stopped) fs where "el_frames S = StopLoop True # fs" "el_pending S = []"
      "S' = S\<lparr>el_count := el_count S - 1, el_frames := fs\<rparr>"
proof (cases "el_frames S")
  case Nil
  show thesis
  proof (cases "el_status S \<in> {kRunning, kStopping}")
    case False
    with Nil assms show thesis by (intro stay) (simp_all add: loop_step_defs)
  next
    case True
    note r = True
    show thesis
    proof (cases "el_exit S \<and> leave")
      case True
      with Nil r assms show thesis by (intro finish) (simp_all add: loop_step_defs EventLoop_Run_end_def)
    next
      case False
      then show thesis
        using Nil r assms by (cases "0 < el_pipe S") (auto intro: stay wake simp: loop_step_defs)
    qed
  qed
next
  case (Cons f fs)
  show thesis
  proof (cases f)
    case (DoRun gs)
    show thesis
    proof (cases gs)
      case (Cons g gs')
      then show thesis
        using assms \<open>el_frames S = f # fs\<close> DoRun run stop by (cases g) (auto simp: loop_step_defs assert_that_def split: bind_splits if_splits)
    qed (use assms Cons DoRun ret in \<open>auto simp: loop_step_defs\<close>)
  next
    case (StopLoop b)
    then show thesis
      using assms Cons again exit stopped by (cases b) (auto simp: loop_step_defs IsPendingQueueEmpty_def split: if_splits)
  qed (use assms Cons reset swap in \<open>auto simp: loop_step_defs\<close>)
qed

lemma loop_step_defined: "life_inv S \<Longrightarrow> \<exists>S'. loop_step leave S = Some S'"
proof -
  assume l: "life_inv S"
  show ?thesis
  proof (cases "\<exists>gs fs. el_frames S = DoRun (StopFn # gs) # fs")
    case True
    then obtain gs fs where f: "el_frames S = DoRun (StopFn # gs) # fs" by blast
    with l have "el_status S = kStopping" by (auto simp: life_inv_def)
    with f show ?thesis by (simp add: loop_step_defs)
  next
    case False
    then show ?thesis
      by (auto simp: loop_step_defs EventLoop_Run_end_def split: list.split frame.split ev_functor.split)
  qed
qed

lemma loop_step_life:
  assumes l: "life_inv S" and q: "loop_step leave S = Some S'"
  shows "life_inv S'"
  using q by (cases rule: loop_step_cases) (use l in \<open>auto simp: life_inv_def\<close>)

lemma loop_step_wake:
  assumes l: "life_inv S" and w: "wake_inv S" and q: "loop_step leave S = Some S'"
  shows "wake_inv S'"
  using q by (cases rule: loop_step_cases) (use w l in \<open>auto simp: wake_inv_def\<close>)

lemma loop_step_once:
  assumes w: "once_inv S" and q: "loop_step leave S = Some S'"
  shows "once_inv S'"
  using q by (cases rule: loop_step_cases) (use w in \<open>auto simp: once_inv_def ac_simps\<close>)

lemma loop_step_count:
  assumes w: "count_inv S" and q: "loop_step leave S = Some S'"
  shows "count_inv S'"
  using q by (cases rule: loop_step_cases) (use w in \<open>auto simp: count_inv_def algebra_simps\<close>)


subsection \<open>Reachable states\<close>

lemma set_pc_inv:
  assumes "ev_inv S" and i: "i < length (el_threads S)" "el_threads S ! i = Idle" and f: "f \<noteq> StopFn \<or> el_status S = kStopping"
  shows "ev_inv (set_pc i (Entering f) S)"
  unfolding ev_inv_def
proof (intro conjI)
  have inv: "life_inv S" "wake_inv S" "once_inv S" "count_inv S" using assms(1) by (simp_all add: ev_inv_def)
  show "life_inv (set_pc i (Entering f) S)"
    using inv(1) f in_update [of "Entering StopFn" "el_threads S" i "Entering f"] by (auto simp: life_inv_def set_pc_def)
  show "wake_inv (set_pc i (Entering f) S)"
    using inv(2) i by (simp add: wake_inv_def set_pc_def at_pc_split [OF i(1)])
  show "once_inv (set_pc i (Entering f) S)" using inv(3) by (simp add: once_inv_def set_pc_def)
  show "count_inv (set_pc i (Entering f) S)"
    using inv(4) i count_list_update [OF i(1), of "Entering f" Counting] by (simp add: count_inv_def set_pc_def)
qed

lemma ev_inv_status:
  "ev_inv S \<Longrightarrow> el_status S = kInitialized \<Longrightarrow> ev_inv (S\<lparr>el_tid := t, el_status := kRunning\<rparr>)"
  "ev_inv S \<Longrightarrow> el_status S = kRunning \<Longrightarrow> ev_inv (S\<lparr>el_status := kStopping\<rparr>)"
  "ev_inv S \<Longrightarrow> ev_inv (S\<lparr>el_direct := d\<rparr>)"
  by (auto simp: ev_inv_def life_inv_def wake_inv_def once_inv_def count_inv_def top_in_def)

lemma wp_ev_do:
  assumes "ev_inv S" and "ev_enabled op S" and "0 < cap"
  shows "wp (ev_do cap op S) ev_inv"
proof (cases op)
  case (EvRun t)
  then show ?thesis using assms ev_inv_status(1) by (simp add: EventLoop_Run_def)
next
  case (EvQueue i f)
  then show ?thesis using assms by (simp add: QueueInLoop_def set_pc_inv)
next
  case (EvRunIn i f)
  then show ?thesis using assms by (simp add: RunInLoop_def QueueInLoop_def set_pc_inv ev_inv_status)
next
  case (EvStop i)
  then show ?thesis using assms ev_inv_status(2) [of S] by (simp add: EventLoop_StopCall_def QueueInLoop_def set_pc_inv)
next
  case (EvThread i)
  then show ?thesis
    using assms queue_step_defined [of S cap i] queue_step_life [of S i cap] queue_step_wake [of S i cap]
      queue_step_once [of S cap i] queue_step_count [of S i cap]
    by (auto simp: ev_inv_def wp_def)
next
  case (EvLoop leave)
  then show ?thesis
    using assms loop_step_defined [of S leave] loop_step_life [of S leave] loop_step_wake [of S leave]
      loop_step_once [of S leave] loop_step_count [of S leave]
    by (auto simp: ev_inv_def wp_def)
qed

interpretation evs: guarded_steps "\<lambda>S. \<exists>n t. S = EventLoop_new n t" ev_enabled "ev_do (Suc c)" ev_inv
  by unfold_locales (auto intro: ev_inv_new wp_ev_do)

lemma ev_reach_inv: "ev_reach cap S \<Longrightarrow> 0 < cap \<Longrightarrow> ev_inv S"
  using evs.reachable_inv by (cases cap) (auto simp: ev_reach_def)

lemma ev_reach_no_failure: "ev_reach cap S \<Longrightarrow> 0 < cap \<Longrightarrow> ev_enabled op S \<Longrightarrow> ev_do cap op S \<noteq> None"
  using evs.no_failure by (cases cap) (auto simp: ev_reach_def)

subsection \<open>A run of the loop\<close>

fun loop_steps :: "nat \<Rightarrow> 'f ev_loop \<Rightarrow> 'f ev_loop option" where
  "loop_steps 0 S = Some S"
| "loop_steps (Suc n) S = do { S \<leftarrow> loop_step False S; loop_steps n S }"

lemma loop_steps_run:
  assumes "el_frames S = [DoRun gs]" and "StopFn \<notin> set gs"
  shows "loop_steps (Suc (length gs)) S =
    Some (S\<lparr>el_ran := el_ran S @ gs, el_count := el_count S - of_nat (length gs), el_frames := []\<rparr>)"
  using assms
proof (induction gs arbitrary: S)
  case Nil
  then show ?case by (simp add: loop_step_defs)
next
  case (Cons g gs)
  then obtain u where g: "g = User u" by (cases g) auto
  let ?S = "S\<lparr>el_ran := el_ran S @ [User u], el_count := el_count S - 1, el_frames := [DoRun gs]\<rparr>"
  have "loop_step False S = Some ?S" using Cons.prems g by (simp add: loop_step_defs)
  moreover have "loop_steps (Suc (length gs)) ?S =
      Some (?S\<lparr>el_ran := el_ran ?S @ gs, el_count := el_count ?S - of_nat (length gs), el_frames := []\<rparr>)"
    using Cons.prems by (intro Cons.IH) simp_all
  ultimately show ?case using g by (simp add: algebra_simps)
qed

section \<open>Properties\<close>

text \<open>
  C5. No wake-up is lost: however the calls of \<open>QueueInLoop\<close> have interleaved with each other and
  with \<open>DoPendingFunctors\<close>, when the threads have returned from them and the loop waits in its
  dispatch, the loop runs every functor still queued, in order, and its counter is then zero.
\<close>

theorem EventLoop_no_lost_wakeup:
  assumes "ev_reach cap S" and "0 < cap" and "list_all (\<lambda>t. t = Idle) (el_threads S)" and "el_status S = kRunning"
    and "el_frames S = []"
  shows "\<exists>n. wp (loop_steps n S) (\<lambda>S'. el_ran S' = el_ran S @ el_pending S \<and> el_pending S' = [] \<and>
     el_ran S' = el_queued S' \<and> el_count S' = 0 \<and> el_frames S' = [] \<and> el_status S' = kRunning)"
proof -
  have inv: "ev_inv S" by (rule ev_reach_inv [OF assms(1,2)])
  have ns: "StopFn \<notin> set (el_pending S)" "StopFn \<notin> set (el_ran S)"
    using inv assms(4) by (auto simp: ev_inv_def life_inv_def)
  have q: "el_ran S @ el_pending S = el_queued S" using inv ns(2) assms(5) by (simp add: ev_inv_def once_inv_def)
  have nc: "count_list (el_threads S) Counting = 0" using assms(3) by (auto simp: count_list_0_iff list_all_iff)
  then have c: "el_count S = of_nat (length (el_pending S))" using inv assms(5) by (simp add: ev_inv_def count_inv_def)
  show ?thesis
  proof (cases "el_pending S = []")
    case True
    then show ?thesis using assms(4,5) q c by (intro exI [of _ 0]) simp
  next
    case False
    have "\<not> at_pc {Counting, Checking, Storing, Notifying} (el_threads S)"
      using assms(3) by (auto simp: at_pc_def list_all_length)
    then have p: "0 < el_pipe S"
      using inv False assms(4,5) by (auto simp: ev_inv_def wake_inv_def life_inv_def)
    let ?S = "S\<lparr>el_pipe := el_pipe S - min 128 (el_pipe S), el_notified := False, el_pending := [], el_frames := [DoRun (el_pending S)]\<rparr>"
    have "loop_steps (Suc (Suc (Suc (Suc (length (el_pending S)))))) S = loop_steps (Suc (length (el_pending S))) ?S"
      using assms(4,5) p by (simp add: loop_step_defs)
    also have "\<dots> = Some (?S\<lparr>el_ran := el_ran S @ el_pending S, el_count := 0, el_frames := []\<rparr>)"
      by (subst loop_steps_run) (use ns c in simp_all)
    finally have "wp (loop_steps (Suc (Suc (Suc (Suc (length (el_pending S)))))) S)
        (\<lambda>S'. el_ran S' = el_ran S @ el_pending S \<and> el_pending S' = [] \<and> el_ran S' = el_queued S' \<and>
           el_count S' = 0 \<and> el_frames S' = [] \<and> el_status S' = kRunning)"
      using q assms(4) by simp
    then show ?thesis by blast
  qed
qed


text \<open>One thread queues two functors, the loop has not looked yet.\<close>

definition queue_ops :: "nat \<Rightarrow> 'f \<Rightarrow> 'f ev_op list" where
  "queue_ops i f = EvQueue i f # replicate 5 (EvThread i)"

lemma queued_twice:
  "wp (run_steps ev_enabled (ev_do 1) (EvRun 0 # queue_ops 1 (7 :: nat) @ queue_ops 1 8) (EventLoop_new 2 0))
    (\<lambda>S. list_all (\<lambda>t. t = Idle) (el_threads S) \<and> el_status S = kRunning \<and> el_frames S = [] \<and>
       el_pending S = [User 7, User 8] \<and> el_ran S = [] \<and> 1 < length (el_threads S))"
  unfolding wp_case by code_simp

lemma queued_reach:
  "\<exists>S. ev_reach 1 S \<and> list_all (\<lambda>t. t = Idle) (el_threads S) \<and> el_status S = kRunning \<and> el_frames S = [] \<and>
     el_pending S = [User (7 :: nat), User 8] \<and> el_ran S = [] \<and> 1 < length (el_threads S)"
  unfolding ev_reach_def by (rule wp_run_steps_reachable [OF queued_twice]) blast

theorem EventLoop_no_lost_wakeup_witness:
  "\<exists>S n. ev_reach 1 S \<and> el_pending S = [User (7 :: nat), User 8] \<and>
     wp (loop_steps n S) (\<lambda>S'. el_ran S' = [User 7, User 8] \<and> el_count S' = 0)"
proof -
  obtain S where reach: "ev_reach 1 S"
    and S: "list_all (\<lambda>t. t = Idle) (el_threads S)" "el_status S = kRunning" "el_frames S = []"
      "el_pending S = [User (7 :: nat), User 8]" "el_ran S = []"
    using queued_reach by blast
  obtain n where "wp (loop_steps n S) (\<lambda>S'. el_ran S' = el_ran S @ el_pending S \<and> el_pending S' = [] \<and>
     el_ran S' = el_queued S' \<and> el_count S' = 0 \<and> el_frames S' = [] \<and> el_status S' = kRunning)"
    using EventLoop_no_lost_wakeup [OF reach zero_less_one S(1-3)] by blast
  then have "wp (loop_steps n S) (\<lambda>S'. el_ran S' = [User 7, User 8] \<and> el_count S' = 0)"
    by (rule wp_mono) (simp add: S)
  with reach S(4) show ?thesis by blast
qed

text \<open>
  C12. In every reachable state each functor that was queued is exactly once among those run,
  those taken by the loop and those still queued; until \<open>StopInLoop\<close> runs they are run in the
  order they were queued; the counter of pending functors is their number, less the calls of
  \<open>QueueInLoop\<close> that have not counted theirs yet; and no assertion of the loop fails.
\<close>

theorem EventLoop_exactly_once:
  assumes "ev_reach cap S" and "0 < cap"
  shows "mset (el_queued S) = mset (el_ran S) + mset (rest_of (el_frames S)) + mset (el_pending S) \<and>
     (StopFn \<notin> set (el_ran S) \<longrightarrow> el_queued S = el_ran S @ rest_of (el_frames S) @ el_pending S) \<and>
     el_count S + of_nat (count_list (el_threads S) Counting) =
       of_nat (length (el_pending S) + length (rest_of (el_frames S)) + length (filter is_stop_frame (el_frames S))) \<and>
     (\<forall>op. ev_enabled op S \<longrightarrow> ev_do cap op S \<noteq> None)"
proof -
  have inv: "ev_inv S" by (rule ev_reach_inv [OF assms])
  then have once: "once_inv S" and cnt: "count_inv S" by (simp_all add: ev_inv_def)
  then show ?thesis
    using ev_reach_no_failure [OF assms] unfolding once_inv_def count_inv_def by metis
qed

theorem EventLoop_exactly_once_witness:
  "\<exists>S. ev_reach 1 S \<and> el_pending S = [User (7 :: nat), User 8] \<and>
     mset (el_queued S) = mset (el_ran S) + mset (rest_of (el_frames S)) + mset (el_pending S) \<and>
     ev_do 1 (EvThread 1) S \<noteq> None"
proof -
  obtain S where reach: "ev_reach 1 S" and S: "el_pending S = [User (7 :: nat), User 8]" "1 < length (el_threads S)"
    using queued_reach by blast
  have "ev_enabled (EvThread 1) S" using S(2) by simp
  with EventLoop_exactly_once [OF reach zero_less_one] S(1) reach show ?thesis by blast
qed

text \<open>
  \<open>StopInLoop\<close> calls \<open>DoPendingFunctors\<close> from within a functor: what has been queued later overtakes
  the rest of the batch in which \<open>StopInLoop\<close> was. Here \<open>1\<close> is queued before \<open>2\<close> and runs after it.
\<close>

lemma EventLoop_Stop_reorders:
  "wp (run_steps ev_enabled (ev_do 1) (EvRun 0 # EvStop 1 # replicate 5 (EvThread 1) @ queue_ops 1 (1 :: nat) @ replicate 4 (EvLoop True) @
        queue_ops 1 2 @ replicate 13 (EvLoop True)) (EventLoop_new 2 0))
    (\<lambda>S. el_queued S = [StopFn, User 1, User 2] \<and> el_ran S = [StopFn, User 2, User 1] \<and> el_status S = kStopped)"
  unfolding wp_case by code_simp

end
