(* ===== verification/Timer.thy ===== *)
theory Timer
  imports Steps "HOL-Library.Signed_Division"
begin

text \<open>
  \<open>evpp::Duration\<close> and \<open>evpp::Timestamp\<close> (\<open>duration.h\<close>, \<open>duration.inl.h\<close>, \<open>timestamp.h\<close>,
  \<open>timestamp.inl.h\<close> under \<open>thirdpartlibs/evpp/evpp\<close>) and the timers built on them: \<open>EventWatcher\<close> and
  \<open>TimerEventWatcher\<close> (\<open>event_watcher.cc\<close>) and \<open>InvokeTimer\<close> (\<open>invoke_timer.cc\<close>).

  An \<open>int64_t\<close> is an integer; arithmetic whose result does not fit is undefined in C++ and \<open>None\<close>
  here. Divisions truncate, as in C++. Watchers are objects in a store, owned by the timer and
  by the functors queued in the loop; they are destroyed with their last owner. Each functor and
  each event is a step.
\<close>

section \<open>Durations and timestamps\<close>

definition int64 :: "int \<Rightarrow> int option" where
  "int64 i = (if - (2 ^ 63) \<le> i \<and> i < 2 ^ 63 then Some i else None)"

definition kMicrosecond :: int where "kMicrosecond = 1000"
definition kMillisecond :: int where "kMillisecond = 1000 * kMicrosecond"
definition kSecond :: int where "kSecond = 1000 * kMillisecond"
definition kMinute :: int where "kMinute = 60 * kSecond"
definition kHour :: int where "kHour = 60 * kMinute"

record timeval =
  tv_sec :: int
  tv_usec :: int

definition Duration_of_timeval :: "timeval \<Rightarrow> int option" where
  "Duration_of_timeval t = do {
     s \<leftarrow> int64 (tv_sec t * kSecond);
     u \<leftarrow> int64 (tv_usec t * kMicrosecond);
     int64 (s + u) }"

definition Duration_To :: "int \<Rightarrow> timeval" where
  "Duration_To ns = \<lparr>tv_sec = ns sdiv kSecond, tv_usec = (ns smod kSecond) sdiv kMicrosecond\<rparr>"

definition Duration_IsZero :: "int \<Rightarrow> bool" where "Duration_IsZero ns \<longleftrightarrow> ns = 0"
definition Duration_less :: "int \<Rightarrow> int \<Rightarrow> bool" where "Duration_less a b \<longleftrightarrow> a < b"
definition Duration_less_eq :: "int \<Rightarrow> int \<Rightarrow> bool" where "Duration_less_eq a b \<longleftrightarrow> a \<le> b"
definition Duration_add :: "int \<Rightarrow> int \<Rightarrow> int option" where "Duration_add a b = int64 (a + b)"
definition Duration_sub :: "int \<Rightarrow> int \<Rightarrow> int option" where "Duration_sub a b = int64 (a - b)"
definition Duration_mult :: "int \<Rightarrow> int \<Rightarrow> int option" where "Duration_mult a n = int64 (a * n)"
definition Duration_div :: "int \<Rightarrow> int \<Rightarrow> int option" where
  "Duration_div a n = (if n = 0 then None else int64 (a sdiv n))"

definition Timestamp_Unix :: "int \<Rightarrow> int" where "Timestamp_Unix ns = ns sdiv kSecond"
definition Timestamp_UnixMicro :: "int \<Rightarrow> int" where "Timestamp_UnixMicro ns = ns sdiv kMicrosecond"
definition Timestamp_To :: "int \<Rightarrow> timeval" where
  "Timestamp_To ns = \<lparr>tv_sec = ns sdiv kSecond, tv_usec = (ns smod kSecond) sdiv kMicrosecond\<rparr>"
definition Timestamp_of_timeval :: "timeval \<Rightarrow> int option" where
  "Timestamp_of_timeval t = do {
     s \<leftarrow> int64 (tv_sec t * kSecond);
     u \<leftarrow> int64 (tv_usec t * kMicrosecond);
     int64 (s + u) }"
definition Timestamp_IsEpoch :: "int \<Rightarrow> bool" where "Timestamp_IsEpoch ns \<longleftrightarrow> ns = 0"
definition Timestamp_Add :: "int \<Rightarrow> int \<Rightarrow> int option" where "Timestamp_Add t d = int64 (t + d)"
definition Timestamp_Sub :: "int \<Rightarrow> int \<Rightarrow> int option" where "Timestamp_Sub t d = int64 (t - d)"
definition Timestamp_diff :: "int \<Rightarrow> int \<Rightarrow> int option" where "Timestamp_diff t u = int64 (t - u)"

section \<open>Watchers\<close>

text \<open>\<open>ew_pending\<close> is whether libevent has the event; it drops it when the event fires.\<close>

record timer_watcher =
  ew_event :: bool
  ew_attached :: bool
  ew_pending :: bool
  ew_timed :: bool
  ew_cancel_fn :: bool
  ew_timeout :: int

definition TimerEventWatcher_new :: "int \<Rightarrow> timer_watcher" where
  "TimerEventWatcher_new timeout = \<lparr>ew_event = True, ew_attached = False, ew_pending = False, ew_timed = False,
     ew_cancel_fn = False, ew_timeout = timeout\<rparr>"

text \<open>\<open>add_ok\<close> is what \<open>EventAdd\<close> answers. Without a positive time the event is added without a timeout.\<close>

definition Watch :: "bool \<Rightarrow> int \<Rightarrow> timer_watcher \<Rightarrow> bool \<times> timer_watcher" where
  "Watch add_ok timeout w =
     (let w = (if ew_attached w then w\<lparr>ew_pending := False, ew_attached := False\<rparr> else w)
      in if \<not> add_ok then (False, w)
         else (True, w\<lparr>ew_pending := True, ew_timed := (timeout > 0), ew_attached := True\<rparr>))"

definition TimerEventWatcher_AsyncWait :: "bool \<Rightarrow> timer_watcher \<Rightarrow> bool \<times> timer_watcher" where
  "TimerEventWatcher_AsyncWait add_ok w = Watch add_ok (ew_timeout w) w"

definition FreeEvent :: "timer_watcher \<Rightarrow> timer_watcher" where
  "FreeEvent w =
     (if ew_event w then (if ew_attached w then w\<lparr>ew_pending := False, ew_attached := False, ew_event := False\<rparr>
                          else w\<lparr>ew_event := False\<rparr>)
      else w)"

section \<open>Timers\<close>

datatype timer_task = StartTask | CancelTask nat

record invoke_timer =
  it_timeout :: int
  it_functor :: bool
  it_cancel_fn :: bool
  it_timer :: "nat option"
  it_periodic :: bool
  it_self :: bool
  it_watchers :: "nat \<Rightarrow> timer_watcher option"
  it_alloc :: nat
  it_tasks :: "timer_task list"
  it_fired :: nat
  it_cancelled :: nat

definition InvokeTimer_Create :: "int \<Rightarrow> bool \<Rightarrow> invoke_timer" where
  "InvokeTimer_Create timeout periodic = \<lparr>it_timeout = timeout, it_functor = True, it_cancel_fn = False, it_timer = None,
     it_periodic = periodic, it_self = True, it_watchers = (\<lambda>_. None), it_alloc = 0, it_tasks = [], it_fired = 0,
     it_cancelled = 0\<rparr>"

definition set_cancel_callback :: "invoke_timer \<Rightarrow> invoke_timer" where
  "set_cancel_callback T = T\<lparr>it_cancel_fn := True\<rparr>"

text \<open>A watcher without owners is destroyed; its destructor calls \<open>FreeEvent\<close>.\<close>

definition release_watcher :: "nat \<Rightarrow> invoke_timer \<Rightarrow> invoke_timer" where
  "release_watcher a T =
     (if it_timer T = Some a \<or> CancelTask a \<in> set (it_tasks T) then T
      else T\<lparr>it_watchers := (it_watchers T)(a := None)\<rparr>)"

definition reset_timer :: "nat option \<Rightarrow> invoke_timer \<Rightarrow> invoke_timer" where
  "reset_timer v T =
     (let T' = T\<lparr>it_timer := v\<rparr> in case it_timer T of None \<Rightarrow> T' | Some a \<Rightarrow> release_watcher a T')"

text \<open>The functor of \<open>Start\<close>.\<close>

definition start_in_loop :: "bool \<Rightarrow> invoke_timer \<Rightarrow> invoke_timer" where
  "start_in_loop add_ok T =
     (let a = it_alloc T;
          w = (TimerEventWatcher_new (it_timeout T))\<lparr>ew_cancel_fn := True\<rparr>;
          (rc, w) = TimerEventWatcher_AsyncWait add_ok w
      in reset_timer (Some a) (T\<lparr>it_alloc := Suc a, it_watchers := (it_watchers T)(a \<mapsto> w)\<rparr>))"

text \<open>\<open>now\<close>: called in the thread of the running loop.\<close>

definition InvokeTimer_Start :: "bool \<Rightarrow> bool \<Rightarrow> invoke_timer \<Rightarrow> invoke_timer" where
  "InvokeTimer_Start add_ok now T =
     (if now then start_in_loop add_ok T else T\<lparr>it_tasks := it_tasks T @ [StartTask]\<rparr>)"

definition InvokeTimer_Cancel :: "invoke_timer \<Rightarrow> invoke_timer" where
  "InvokeTimer_Cancel T =
     (case it_timer T of None \<Rightarrow> T | Some a \<Rightarrow> T\<lparr>it_tasks := it_tasks T @ [CancelTask a]\<rparr>)"

definition OnCanceled :: "invoke_timer \<Rightarrow> invoke_timer" where
  "OnCanceled T =
     (let T = T\<lparr>it_periodic := False\<rparr>;
          T = (if it_cancel_fn T then T\<lparr>it_cancelled := Suc (it_cancelled T), it_cancel_fn := False\<rparr> else T);
          T = T\<lparr>it_functor := False\<rparr>;
          T = reset_timer None T
      in T\<lparr>it_self := False\<rparr>)"

text \<open>\<open>EventWatcher::Cancel\<close> of watcher \<open>a\<close>, which the functor being run still owns.\<close>

definition cancel_watcher :: "nat \<Rightarrow> invoke_timer \<Rightarrow> invoke_timer option" where
  "cancel_watcher a T = do {
     w \<leftarrow> it_watchers T a;
     assert_that (ew_event w);
     let w = FreeEvent w;
     Some (if ew_cancel_fn w then
             (let T = OnCanceled (T\<lparr>it_watchers := (it_watchers T)(a \<mapsto> w)\<rparr>)
              in T\<lparr>it_watchers := (it_watchers T)(a \<mapsto> w\<lparr>ew_cancel_fn := False\<rparr>)\<rparr>)
           else T\<lparr>it_watchers := (it_watchers T)(a \<mapsto> w)\<rparr>) }"

text \<open>
  \<open>OnTimerTriggered\<close>; calling an empty \<open>functor_\<close> throws. \<open>user\<close> is what the user's functor does to
  the timer itself.
\<close>

definition OnTimerTriggered :: "bool \<Rightarrow> (invoke_timer \<Rightarrow> invoke_timer) \<Rightarrow> invoke_timer \<Rightarrow> invoke_timer option" where
  "OnTimerTriggered add_ok user T = do {
     assert_that (it_functor T);
     let T = user (T\<lparr>it_fired := Suc (it_fired T)\<rparr>);
     (if it_periodic T then do {
        a \<leftarrow> it_timer T;
        w \<leftarrow> it_watchers T a;
        let (rc, w) = TimerEventWatcher_AsyncWait add_ok w;
        Some (T\<lparr>it_watchers := (it_watchers T)(a \<mapsto> w)\<rparr>) }
      else Some ((reset_timer None (T\<lparr>it_functor := False, it_cancel_fn := False\<rparr>))\<lparr>it_self := False\<rparr>)) }"

section \<open>Steps\<close>

text \<open>The loop runs its oldest functor; a destroyed functor gives up its watcher.\<close>

definition timer_run_task :: "bool \<Rightarrow> invoke_timer \<Rightarrow> invoke_timer option" where
  "timer_run_task add_ok T =
     (case it_tasks T of
        [] \<Rightarrow> Some T
      | StartTask # ts \<Rightarrow> Some (start_in_loop add_ok (T\<lparr>it_tasks := ts\<rparr>))
      | CancelTask a # ts \<Rightarrow> do {
          T \<leftarrow> cancel_watcher a (T\<lparr>it_tasks := ts\<rparr>);
          Some (release_watcher a T) })"

text \<open>libevent reports the timeout of watcher \<open>a\<close>.\<close>

definition timer_fire :: "bool \<Rightarrow> bool \<Rightarrow> nat \<Rightarrow> invoke_timer \<Rightarrow> invoke_timer option" where
  "timer_fire add_ok cancel a T = do {
     w \<leftarrow> it_watchers T a;
     OnTimerTriggered add_ok (if cancel then InvokeTimer_Cancel else id)
       (T\<lparr>it_watchers := (it_watchers T)(a \<mapsto> w\<lparr>ew_pending := False\<rparr>)\<rparr>) }"


datatype timer_op = TmStart bool | TmTask | TmCancel | TmFire bool nat

fun timer_do :: "bool \<Rightarrow> timer_op \<Rightarrow> invoke_timer \<Rightarrow> invoke_timer option" where
  "timer_do add_ok (TmStart now) T = Some (InvokeTimer_Start add_ok now T)"
| "timer_do add_ok TmTask T = timer_run_task add_ok T"
| "timer_do add_ok TmCancel T = Some (InvokeTimer_Cancel T)"
| "timer_do add_ok (TmFire cancel a) T = timer_fire add_ok cancel a T"

text \<open>
  A timer is started once and not cancelled again while a cancellation is queued. libevent reports
  an event it has been given with a timeout.
\<close>

definition cancel_queued :: "invoke_timer \<Rightarrow> bool" where
  "cancel_queued T \<longleftrightarrow> (\<exists>t \<in> set (it_tasks T). t \<noteq> StartTask)"

fun timer_enabled :: "timer_op \<Rightarrow> invoke_timer \<Rightarrow> bool" where
  "timer_enabled (TmStart now) T \<longleftrightarrow> it_alloc T = 0 \<and> it_tasks T = []"
| "timer_enabled TmTask T \<longleftrightarrow> True"
| "timer_enabled TmCancel T \<longleftrightarrow> \<not> cancel_queued T"
| "timer_enabled (TmFire cancel a) T \<longleftrightarrow>
     (case it_watchers T a of Some w \<Rightarrow> ew_pending w \<and> ew_timed w | None \<Rightarrow> False) \<and> (cancel \<longrightarrow> \<not> cancel_queued T)"

definition timer_created :: "bool \<Rightarrow> invoke_timer \<Rightarrow> bool" where
  "timer_created periodic T \<longleftrightarrow>
     (\<exists>timeout. T = InvokeTimer_Create timeout periodic \<or> T = set_cancel_callback (InvokeTimer_Create timeout periodic))"

definition timer_reach :: "bool \<Rightarrow> invoke_timer \<Rightarrow> bool" where
  "timer_reach periodic =
     reachable (timer_created periodic) (\<lambda>(ok, op). timer_enabled op) (\<lambda>(ok, op). timer_do ok op)"

section \<open>Lemmas\<close>

subsection \<open>The phases of a timer\<close>

definition live_watcher :: "timer_watcher \<Rightarrow> bool" where
  "live_watcher w \<longleftrightarrow> ew_event w \<and> ew_cancel_fn w"

definition new_timer :: "bool \<Rightarrow> invoke_timer \<Rightarrow> bool" where
  "new_timer p T \<longleftrightarrow> it_alloc T = 0 \<and> it_timer T = None \<and> it_tasks T \<in> {[], [StartTask]} \<and> it_functor T \<and>
     it_periodic T = p \<and> it_fired T = 0 \<and> it_cancelled T = 0 \<and> it_watchers T = (\<lambda>_. None) \<and> it_self T"

definition armed_timer :: "bool \<Rightarrow> invoke_timer \<Rightarrow> bool" where
  "armed_timer p T \<longleftrightarrow> it_alloc T = 1 \<and> it_timer T = Some 0 \<and> it_tasks T \<in> {[], [CancelTask 0]} \<and> it_functor T \<and>
     it_periodic T = p \<and> (p \<or> it_fired T = 0) \<and> it_cancelled T = 0 \<and> it_self T \<and>
     (\<exists>w. it_watchers T = [0 \<mapsto> w] \<and> live_watcher w)"

definition done_timer :: "bool \<Rightarrow> invoke_timer \<Rightarrow> bool" where
  "done_timer p T \<longleftrightarrow> it_alloc T = 1 \<and> it_timer T = None \<and> \<not> it_functor T \<and> \<not> it_self T \<and> \<not> it_periodic T \<and>
     \<not> it_cancel_fn T \<and> it_cancelled T \<le> 1 \<and> (p \<or> it_fired T + it_cancelled T \<le> 1) \<and>
     (it_tasks T = [] \<and> it_watchers T = (\<lambda>_. None) \<or>
      it_tasks T = [CancelTask 0] \<and> (\<exists>w. it_watchers T = [0 \<mapsto> w] \<and> live_watcher w \<and> \<not> ew_pending w))"

definition timer_inv :: "bool \<Rightarrow> invoke_timer \<Rightarrow> bool" where
  "timer_inv p T \<longleftrightarrow> new_timer p T \<or> armed_timer p T \<or> done_timer p T"

lemma live_watcher_simps [simp]:
  "live_watcher (w\<lparr>ew_pending := b\<rparr>) = live_watcher w" "live_watcher (snd (Watch ok d w)) = live_watcher w"
  "ew_timeout (snd (Watch ok d w)) = ew_timeout w"
  by (simp_all add: live_watcher_def Watch_def Let_def)

lemma start_in_loop_armed:
  assumes "new_timer p T"
  shows "armed_timer p (start_in_loop ok (T\<lparr>it_tasks := []\<rparr>))"
proof -
  obtain rc w where w: "TimerEventWatcher_AsyncWait ok ((TimerEventWatcher_new (it_timeout T))\<lparr>ew_cancel_fn := True\<rparr>) = (rc, w)"
    by fastforce
  then have "live_watcher w"
    using live_watcher_simps(2) [of ok _ "(TimerEventWatcher_new (it_timeout T))\<lparr>ew_cancel_fn := True\<rparr>"]
    by (metis TimerEventWatcher_AsyncWait_def TimerEventWatcher_new_def live_watcher_def snd_conv timer_watcher.select_convs(1,5) timer_watcher.update_convs(5))
  with assms w show ?thesis
    by (auto simp: start_in_loop_def new_timer_def armed_timer_def reset_timer_def Let_def)
qed

lemma cancel_done:
  assumes "armed_timer p T \<or> done_timer p T" and "it_tasks T = [CancelTask 0]"
  shows "wp (timer_run_task ok T) (done_timer p)"
  using assms
  by (auto simp: timer_run_task_def cancel_watcher_def armed_timer_def done_timer_def live_watcher_def FreeEvent_def
      OnCanceled_def reset_timer_def release_watcher_def Let_def)

lemma fire_inv:
  assumes a: "armed_timer p T" and e: "timer_enabled (TmFire cancel a) T"
  shows "wp (timer_fire ok cancel a T) (timer_inv p)"
proof -
  obtain w where w: "it_watchers T = [0 \<mapsto> w]" "live_watcher w" using a by (auto simp: armed_timer_def)
  then have [simp]: "a = 0" using e by (auto split: if_splits)
  show ?thesis
    using a e w
    by (cases p; cases cancel)
      (auto simp: timer_fire_def OnTimerTriggered_def InvokeTimer_Cancel_def armed_timer_def done_timer_def cancel_queued_def
        TimerEventWatcher_AsyncWait_def timer_inv_def reset_timer_def release_watcher_def Let_def case_prod_beta)
qed


lemma wp_timer_do:
  assumes i: "timer_inv p T" and e: "timer_enabled op T"
  shows "wp (timer_do ok op T) (timer_inv p)"
proof (cases op)
  case (TmStart now)
  with i e have n: "new_timer p T" "it_tasks T = []" by (auto simp: timer_inv_def armed_timer_def done_timer_def)
  then have "T\<lparr>it_tasks := []\<rparr> = T" by (cases T) simp
  with n start_in_loop_armed [OF n(1), of ok] have "armed_timer p (start_in_loop ok T)" by simp
  with n TmStart show ?thesis by (auto simp: InvokeTimer_Start_def timer_inv_def new_timer_def)
next
  case TmTask
  show ?thesis
  proof (cases "it_tasks T")
    case Nil
    then show ?thesis using i TmTask by (simp add: timer_run_task_def)
  next
    case (Cons t ts)
    show ?thesis
    proof (cases "new_timer p T")
      case True
      then have "it_tasks T = [StartTask]" using Cons by (auto simp: new_timer_def)
      then show ?thesis using start_in_loop_armed [OF True, of ok] TmTask by (simp add: timer_run_task_def timer_inv_def)
    next
      case False
      then have "armed_timer p T \<or> done_timer p T" "it_tasks T = [CancelTask 0]"
        using i Cons by (auto simp: timer_inv_def armed_timer_def done_timer_def)
      from wp_mono [OF cancel_done [OF this]] show ?thesis using TmTask by (simp add: timer_inv_def)
    qed
  qed
next
  case TmCancel
  show ?thesis
  proof (cases "it_timer T")
    case None
    then show ?thesis using i TmCancel by (simp add: InvokeTimer_Cancel_def)
  next
    case (Some a)
    then have a: "armed_timer p T" using i by (auto simp: timer_inv_def new_timer_def done_timer_def)
    then have "it_tasks T = []" "a = 0" using e TmCancel Some by (auto simp: armed_timer_def cancel_queued_def)
    with a Some have "armed_timer p (InvokeTimer_Cancel T)" by (simp add: armed_timer_def InvokeTimer_Cancel_def)
    then show ?thesis using TmCancel by (simp add: timer_inv_def)
  qed
next
  case (TmFire cancel a)
  then have "armed_timer p T"
    using i e by (auto simp: timer_inv_def new_timer_def done_timer_def split: if_splits)
  then show ?thesis using fire_inv [of p T cancel a ok] e TmFire by simp
qed

interpretation tms: guarded_steps "timer_created p" "\<lambda>(ok, op). timer_enabled op" "\<lambda>(ok, op). timer_do ok op" "timer_inv p"
proof
  show "timer_inv p T" if "timer_created p T" for T
    using that by (auto simp: timer_created_def timer_inv_def new_timer_def InvokeTimer_Create_def set_cancel_callback_def)
  show "wp ((case op of (ok, op) \<Rightarrow> timer_do ok op) T) (timer_inv p)"
    if "timer_inv p T" "(case op of (ok, op) \<Rightarrow> timer_enabled op) T" for T op
    using that wp_timer_do by (cases op) simp
qed

lemmas timer_reach_inv = tms.reachable_inv [folded timer_reach_def]

lemma timer_no_failure: "timer_reach p T \<Longrightarrow> timer_enabled op T \<Longrightarrow> timer_do ok op T \<noteq> None"
  using tms.no_failure [of p T "(ok, op)"] by (simp add: timer_reach_def)

subsection \<open>Time arithmetic\<close>

lemma sdiv_nonneg: "0 \<le> (a :: int) \<Longrightarrow> 0 < b \<Longrightarrow> a sdiv b = a div b" "0 \<le> a \<Longrightarrow> 0 < b \<Longrightarrow> a smod b = a mod b"
  by (simp_all add: signed_divide_int_def signed_modulo_int_def minus_mult_div_eq_mod sgn_if)

lemma sdiv_neg: "(a :: int) sdiv b = - (- a sdiv b)" "a smod b = - (- a smod b)"
  by (simp_all add: signed_divide_int_def signed_modulo_int_def sgn_if)

section \<open>Properties\<close>

text \<open>
  C25. A timer that is started once and not cancelled twice in a row never fails an assertion or
  calls an empty functor. Its cancel callback is called at most once; a timer that is not
  periodic runs its functor or its cancel callback at most once in all; and a timer that has
  finished is not registered with libevent any more.
\<close>

theorem InvokeTimer_once:
  assumes "timer_reach periodic T"
  shows "it_cancelled T \<le> 1 \<and> (periodic \<or> it_fired T + it_cancelled T \<le> 1) \<and>
     (it_self T \<or> (\<forall>a w. it_watchers T a = Some w \<longrightarrow> \<not> ew_pending w)) \<and>
     (\<forall>op ok. timer_enabled op T \<longrightarrow> timer_do ok op T \<noteq> None)"
proof -
  have i: "timer_inv periodic T" by (rule timer_reach_inv [OF assms])
  have "it_cancelled T \<le> 1" "periodic \<or> it_fired T + it_cancelled T \<le> 1"
    "it_self T \<or> (\<forall>a w. it_watchers T a = Some w \<longrightarrow> \<not> ew_pending w)"
    using i by (auto simp: timer_inv_def new_timer_def armed_timer_def done_timer_def split: if_splits)
  then show ?thesis using timer_no_failure [OF assms] by blast
qed

theorem InvokeTimer_once_witness:
  "\<exists>T. timer_reach False T \<and> it_fired T = 1 \<and> it_cancelled T \<le> 1 \<and> it_fired T + it_cancelled T \<le> 1"
proof -
  have "wp (run_steps (\<lambda>(ok, op). timer_enabled op) (\<lambda>(ok, op). timer_do ok op)
      (map (Pair True) [TmStart False, TmTask, TmFire True 0, TmTask]) (InvokeTimer_Create 5 False)) (\<lambda>T. it_fired T = 1)"
    by (simp add: cancel_queued_def InvokeTimer_Create_def InvokeTimer_Start_def timer_run_task_def start_in_loop_def Let_def
        TimerEventWatcher_AsyncWait_def Watch_def TimerEventWatcher_new_def reset_timer_def timer_fire_def OnTimerTriggered_def
        InvokeTimer_Cancel_def release_watcher_def cancel_watcher_def FreeEvent_def OnCanceled_def)
  from wp_run_steps_reachable [OF this, of "timer_created False"] obtain T where T: "timer_reach False T" "it_fired T = 1"
    by (auto simp: timer_reach_def timer_created_def)
  with InvokeTimer_once [OF T(1)] show ?thesis by blast
qed

text \<open>
  Cancelling twice before the loop has handled the first cancellation fails the assertion of
  \<open>EventWatcher::Cancel\<close>, whose event the first one has freed.
\<close>

lemma InvokeTimer_Cancel_twice:
  assumes "timer_reach periodic T" and "it_timer T = Some a" and "it_tasks T = []"
  shows "wp (timer_run_task ok (InvokeTimer_Cancel (InvokeTimer_Cancel T))) (\<lambda>T'. timer_run_task ok T' = None)"
proof -
  have "armed_timer periodic T" using timer_reach_inv [OF assms(1)] assms(2) by (auto simp: timer_inv_def new_timer_def done_timer_def)
  with assms(2,3) show ?thesis
    by (auto simp: armed_timer_def InvokeTimer_Cancel_def timer_run_task_def cancel_watcher_def live_watcher_def FreeEvent_def
        OnCanceled_def reset_timer_def release_watcher_def Let_def)
qed

text \<open>Cancelling before the functor of \<open>Start\<close> has run does nothing.\<close>

lemma InvokeTimer_Cancel_too_early:
  assumes "timer_reach periodic T" and "it_tasks T = [StartTask]"
  shows "InvokeTimer_Cancel T = T"
proof -
  have "new_timer periodic T"
    using timer_reach_inv [OF assms(1)] assms(2) by (auto simp: timer_inv_def armed_timer_def done_timer_def)
  then show ?thesis by (simp add: new_timer_def InvokeTimer_Cancel_def)
qed

text \<open>A timer without a positive time is registered without a timeout: it never fires.\<close>

lemma start_in_loop_untimed:
  assumes "new_timer p T" and "it_timeout T \<le> 0"
  shows "\<not> timer_enabled (TmFire cancel a) (start_in_loop ok T)"
  using assms
  by (auto simp: new_timer_def start_in_loop_def TimerEventWatcher_AsyncWait_def Watch_def TimerEventWatcher_new_def Let_def
      reset_timer_def split: if_splits)


lemma Duration_To_parts:
  assumes "0 \<le> d"
  shows "tv_sec (Duration_To d) * kSecond + tv_usec (Duration_To d) * kMicrosecond = d - d smod kMicrosecond"
    "0 \<le> tv_sec (Duration_To d)" "0 \<le> tv_usec (Duration_To d)" "tv_usec (Duration_To d) < 1000000"
proof -
  have k: "kSecond = 1000000000" "kMicrosecond = 1000" by (simp_all add: kSecond_def kMillisecond_def kMicrosecond_def)
  have T: "Duration_To d = \<lparr>tv_sec = d div 1000000000, tv_usec = d mod 1000000000 div 1000\<rparr>"
    using assms by (simp add: Duration_To_def k sdiv_nonneg)
  have "d mod 1000000000 mod 1000 = d mod 1000" by (simp add: mod_mod_cancel)
  then have "d div 1000000000 * 1000000000 + d mod 1000000000 div 1000 * 1000 = d - d mod 1000"
    by (metis add_diff_eq div_mult_mod_eq minus_mod_eq_div_mult)
  then show "tv_sec (Duration_To d) * kSecond + tv_usec (Duration_To d) * kMicrosecond = d - d smod kMicrosecond"
    using assms by (simp add: T k sdiv_nonneg)
  show "0 \<le> tv_sec (Duration_To d)" "0 \<le> tv_usec (Duration_To d)"
    using assms by (simp_all add: T pos_imp_zdiv_nonneg_iff)
  show "tv_usec (Duration_To d) < 1000000"
    using zdiv_mono1 [of "d mod 1000000000" 999999999 1000] pos_mod_bound [of 1000000000 d] by (simp add: T)
qed

lemma Duration_To_neg: "Duration_To (- d) = \<lparr>tv_sec = - tv_sec (Duration_To d), tv_usec = - tv_usec (Duration_To d)\<rparr>"
  by (simp add: Duration_To_def sdiv_neg [of "- d"] sdiv_neg [of "- (d smod kSecond)"])

lemma smod_bounds:
  assumes "0 \<le> d"
  shows "0 \<le> d smod kMicrosecond" "d smod kMicrosecond \<le> d"
  using assms by (simp_all add: sdiv_nonneg kMicrosecond_def zmod_le_nonneg_dividend)

lemma Duration_of_timeval_pos:
  assumes "0 \<le> s" "0 \<le> u" "s * kSecond + u * kMicrosecond \<le> 2 ^ 63 - 1"
  shows "Duration_of_timeval \<lparr>tv_sec = s, tv_usec = u\<rparr> = Some (s * kSecond + u * kMicrosecond)"
    "Duration_of_timeval \<lparr>tv_sec = - s, tv_usec = - u\<rparr> = Some (- (s * kSecond + u * kMicrosecond))"
  using assms by (simp_all add: Duration_of_timeval_def int64_def kSecond_def kMillisecond_def kMicrosecond_def)

lemma Duration_roundtrip_pos:
  assumes "0 \<le> d" and "d < 2 ^ 63"
  shows "Duration_of_timeval (Duration_To d) = Some (d - d smod kMicrosecond)"
    "Duration_of_timeval (Duration_To (- d)) = Some (- (d - d smod kMicrosecond))"
proof -
  note p = Duration_To_parts [OF assms(1)] and m = smod_bounds [OF assms(1)]
  have "tv_sec (Duration_To d) * kSecond + tv_usec (Duration_To d) * kMicrosecond \<le> 2 ^ 63 - 1" using p(1) m assms(2) by simp
  note r = Duration_of_timeval_pos [OF p(2,3) this, unfolded p(1)]
  show "Duration_of_timeval (Duration_To d) = Some (d - d smod kMicrosecond)"
    using r(1) by (cases "Duration_To d") simp
  show "Duration_of_timeval (Duration_To (- d)) = Some (- (d - d smod kMicrosecond))" using r(2) by (simp add: Duration_To_neg)
qed

text \<open>
  Converting a duration to a \<open>timeval\<close> and back truncates it towards zero to whole
  microseconds and overflows for no \<open>int64_t\<close> but perhaps the least; both fields have the sign of the
  duration, and there is less than a second in the microseconds.
\<close>

theorem Duration_timeval_roundtrip:
  assumes "\<bar>d\<bar> < 2 ^ 63"
  shows "Duration_of_timeval (Duration_To d) = Some (d - d smod kMicrosecond) \<and>
     \<bar>d smod kMicrosecond\<bar> < kMicrosecond \<and> \<bar>tv_usec (Duration_To d)\<bar> < 1000000 \<and>
     0 \<le> d * tv_sec (Duration_To d) \<and> 0 \<le> d * tv_usec (Duration_To d)"
proof (cases "0 \<le> d")
  case True
  have "d smod kMicrosecond < kMicrosecond" using True by (simp add: sdiv_nonneg kMicrosecond_def)
  with True assms Duration_To_parts [OF True] smod_bounds [OF True] Duration_roundtrip_pos(1) [OF True] show ?thesis by simp
next
  case False
  define e where "e = - d"
  have e: "0 \<le> e" "e < 2 ^ 63" "d = - e" using False assms by (simp_all add: e_def)
  have s: "- e smod kMicrosecond = - (e smod kMicrosecond)" using sdiv_neg(2) [of e kMicrosecond] by simp
  have "e smod kMicrosecond < kMicrosecond" using e by (simp add: sdiv_nonneg kMicrosecond_def)
  with Duration_To_parts [OF e(1)] smod_bounds [OF e(1)] Duration_roundtrip_pos(2) [OF e(1,2)] e(1) show ?thesis
    unfolding e(3) by (simp add: Duration_To_neg s)
qed

theorem Duration_timeval_roundtrip_witness:
  "Duration_of_timeval (Duration_To (- 1500000999)) = Some (- 1500000000)"
  using Duration_timeval_roundtrip [of "- 1500000999"]
  by (simp add: kMicrosecond_def signed_modulo_int_def signed_divide_int_def)

end
