(* ===== verification/Slices.thy ===== *)
theory Slices
  imports CString
begin

text \<open>
  \<open>evpp::Slice\<close> (\<open>thirdpartlibs/evpp/evpp/slice.h\<close>), the bytes that are handed to and from the
  buffers, with its comparison; and \<open>memmem\<close> (\<open>memmem.h\<close>), the search with a rolling sum that stands
  in for the library function on Windows. Reading outside the given memory, and an \<open>int\<close> that
  overflows, is \<open>None\<close>.
\<close>

section \<open>Slices\<close>

text \<open>\<open>memcmp(x, y, n)\<close> of the C library: the first difference of the bytes as unsigned numbers.\<close>

fun memcmp :: "nat \<Rightarrow> bytes \<Rightarrow> bytes \<Rightarrow> int option" where
  "memcmp 0 x y = Some 0"
| "memcmp (Suc n) (a # x) (b # y) = (if a = b then memcmp n x y else Some (uint a - uint b))"
| "memcmp (Suc n) _ _ = None"

definition Slice_at :: "bytes \<Rightarrow> nat \<Rightarrow> byte option" where
  "Slice_at s n = do { assert_that (n < length s); Some (s ! n) }"

definition Slice_remove_prefix :: "bytes \<Rightarrow> nat \<Rightarrow> bytes option" where
  "Slice_remove_prefix s n = do { assert_that (n \<le> length s); Some (drop n s) }"

definition Slice_eq :: "bytes \<Rightarrow> bytes \<Rightarrow> bool option" where
  "Slice_eq x y =
     (if length x = length y then do { r \<leftarrow> memcmp (length x) x y; Some (r = 0) } else Some False)"

definition Slice_compare :: "bytes \<Rightarrow> bytes \<Rightarrow> int option" where
  "Slice_compare x y = do {
     let min_len = (if length x < length y then length x else length y);
     r \<leftarrow> memcmp min_len x y;
     Some (if r = 0 then (if length x < length y then -1 else if length x > length y then 1 else r) else r) }"

definition Slice_less :: "bytes \<Rightarrow> bytes \<Rightarrow> bool option" where
  "Slice_less x y = do { r \<leftarrow> Slice_compare x y; Some (r < 0) }"

section \<open>Searching\<close>

definition read_at :: "bytes \<Rightarrow> nat \<Rightarrow> byte option" where
  "read_at m i = (if i < length m then Some (m ! i) else None)"

text \<open>A sum of \<open>int\<close> and \<open>char\<close> (signed).\<close>

definition int32 :: "int \<Rightarrow> int option" where
  "int32 i = (if - (2 ^ 31) \<le> i \<and> i < 2 ^ 31 then Some i else None)"

fun memmem_sum :: "bytes \<Rightarrow> nat \<Rightarrow> nat \<Rightarrow> int \<Rightarrow> int option" where
  "memmem_sum m pos 0 h = Some h"
| "memmem_sum m pos (Suc n) h = do {
     c \<leftarrow> read_at m pos;
     h \<leftarrow> int32 (h + sint c);
     memmem_sum m (Suc pos) n h }"

text \<open>The second loop from position \<open>pos\<close> with \<open>r\<close> iterations to go. A position is returned, or null.\<close>

fun memmem_loop :: "bytes \<Rightarrow> bytes \<Rightarrow> int \<Rightarrow> nat \<Rightarrow> nat \<Rightarrow> int \<Rightarrow> nat option option" where
  "memmem_loop m needle hash 0 pos hay_hash = Some None"
| "memmem_loop m needle hash (Suc r) pos hay_hash = do {
     c \<leftarrow> read_at m pos;
     k \<leftarrow> read_at needle 0;
     e \<leftarrow> (if hash = hay_hash \<and> c = k then memcmp (length needle) (drop pos m) needle else Some 1);
     if e = 0 then Some (Some pos)
     else do {
       hay_hash \<leftarrow> int32 (hay_hash - sint c);
       d \<leftarrow> read_at m (pos + length needle);
       hay_hash \<leftarrow> int32 (hay_hash + sint d);
       memmem_loop m needle hash r (Suc pos) hay_hash } }"

text \<open>\<open>m\<close> is the memory from \<open>haystack\<close> on, of which the haystack is the beginning.\<close>

definition memmem :: "bytes \<Rightarrow> nat \<Rightarrow> bytes \<Rightarrow> nat option option" where
  "memmem m haystack_len needle =
     (if haystack_len < length needle then Some None
      else if needle = [] then Some (Some 0)
      else do {
        hash \<leftarrow> memmem_sum needle 0 (length needle) 0;
        hay_hash \<leftarrow> memmem_sum m 0 (length needle) 0;
        memmem_loop m needle hash (haystack_len - length needle + 1) 0 hay_hash })"

section \<open>Lemmas\<close>

lemma memcmp_min:
  assumes "n \<le> length x" and "n \<le> length y"
  shows "\<exists>r. memcmp n x y = Some r \<and> (r = 0 \<longleftrightarrow> take n x = take n y) \<and>
    (r < 0 \<longrightarrow> ord_class.lexordp x y) \<and> (r > 0 \<longrightarrow> ord_class.lexordp y x)"
  using assms
proof (induction n x y rule: memcmp.induct)
  case (2 n a x b y)
  show ?case
  proof (cases "a = b")
    case True
    then show ?thesis using 2 by simp
  next
    case False
    then have "uint a \<noteq> uint b" by (simp add: word_uint_eq_iff)
    with False show ?thesis by (auto simp: word_less_def)
  qed
qed auto

definition byte_sum :: "bytes \<Rightarrow> int" where
  "byte_sum s = sum_list (map sint s)"

lemma sint_byte: "- 128 \<le> sint (c :: byte)" "sint (c :: byte) < 128"
  using sint_greater_eq [of c] sint_less [of c] by simp_all

lemma byte_sum_bound: "\<bar>byte_sum s\<bar> \<le> 128 * int (length s)"
proof (induction s)
  case (Cons c s)
  then show ?case using sint_byte [of c] by (simp add: byte_sum_def)
qed (simp add: byte_sum_def)

lemma byte_sum_Cons [simp]: "byte_sum (c # s) = sint c + byte_sum s" "byte_sum [] = 0" "byte_sum (s @ t) = byte_sum s + byte_sum t"
  by (simp_all add: byte_sum_def)

lemma memmem_sum_ok:
  assumes "pos + n \<le> length m" and "\<bar>h\<bar> + 128 * int n < 2 ^ 31"
  shows "memmem_sum m pos n h = Some (h + byte_sum (take n (drop pos m)))"
  using assms
proof (induction n arbitrary: pos h)
  case (Suc n)
  have s: "- 128 \<le> sint (m ! pos)" "sint (m ! pos) < 128" by (rule sint_byte)+
  have "take (Suc n) (drop pos m) = m ! pos # take n (drop (Suc pos) m)"
    using Suc.prems(1) by (simp add: Cons_nth_drop_Suc [symmetric])
  moreover have "int32 (h + sint (m ! pos)) = Some (h + sint (m ! pos))" "\<bar>h + sint (m ! pos)\<bar> + 128 * int n < 2 ^ 31"
    using Suc.prems(2) s by (auto simp: int32_def)
  ultimately show ?case using Suc by (simp add: read_at_def)
qed simp

lemma is_prefix_take: "is_prefix p s \<longleftrightarrow> take (length p) s = p"
  by (induction p s rule: is_prefix.induct) auto

lemma find_str_short: "length s < length p \<Longrightarrow> find_str p s = None"
  by (induction s) (auto simp: is_prefix_take dest: arg_cong [of _ _ length])

lemma memcmp_zero: "n \<le> length x \<Longrightarrow> n = length y \<Longrightarrow> \<exists>r. memcmp n x y = Some r \<and> (r = 0 \<longleftrightarrow> take n x = y)"
  using memcmp_min [of n x y] by auto


lemma drop_window:
  assumes "pos + n < length m"
  shows "drop pos m = m ! pos # drop (Suc pos) m"
    "byte_sum (take n (drop (Suc pos) m)) = byte_sum (take n (drop pos m)) - sint (m ! pos) + sint (m ! (pos + n))"
proof -
  show d: "drop pos m = m ! pos # drop (Suc pos) m" using assms by (simp add: Cons_nth_drop_Suc)
  have "take (Suc n) (drop pos m) = take n (drop pos m) @ [m ! (pos + n)]" using assms by (simp add: take_Suc_conv_app_nth)
  moreover have "take (Suc n) (drop pos m) = m ! pos # take n (drop (Suc pos) m)" by (simp add: d)
  ultimately have "m ! pos # take n (drop (Suc pos) m) = take n (drop pos m) @ [m ! (pos + n)]" by simp
  from arg_cong [OF this, of byte_sum]
  show "byte_sum (take n (drop (Suc pos) m)) = byte_sum (take n (drop pos m)) - sint (m ! pos) + sint (m ! (pos + n))"
    by simp
qed

text \<open>The intermediate sum does not overflow either.\<close>

lemma roll_ok:
  assumes "pos + n < length m" and "0 < n" and "128 * int n < 2 ^ 31"
  shows "int32 (byte_sum (take n (drop pos m)) - sint (m ! pos)) = Some (byte_sum (take n (drop pos m)) - sint (m ! pos))"
    "int32 (byte_sum (take n (drop (Suc pos) m))) = Some (byte_sum (take n (drop (Suc pos) m)))"
proof -
  have "take n (drop pos m) = m ! pos # take (n - 1) (drop (Suc pos) m)"
    using drop_window(1) [OF assms(1)] assms(2) by (cases n) simp_all
  then have e: "byte_sum (take n (drop pos m)) - sint (m ! pos) = byte_sum (take (n - 1) (drop (Suc pos) m))" by simp
  have b: "\<bar>byte_sum (take k s)\<bar> \<le> 128 * int k" for k s
    using byte_sum_bound [of "take k s"] by (smt (verit) length_take min.cobounded2 of_nat_le_iff)
  show "int32 (byte_sum (take n (drop pos m)) - sint (m ! pos)) = Some (byte_sum (take n (drop pos m)) - sint (m ! pos))"
    using b [of "n - 1" "drop (Suc pos) m"] assms(2,3) unfolding e int32_def by auto
  show "int32 (byte_sum (take n (drop (Suc pos) m))) = Some (byte_sum (take n (drop (Suc pos) m)))"
    using b [of n "drop (Suc pos) m"] assms(3) unfolding int32_def by auto
qed

text \<open>One iteration: the position matches, or the sum is that of the next window.\<close>

lemma memmem_loop_step:
  assumes "pos + length p \<le> length m" and "p \<noteq> []" and "128 * int (length p) < 2 ^ 31"
  shows "memmem_loop m p (byte_sum p) (Suc r) pos (byte_sum (take (length p) (drop pos m))) =
    (if is_prefix p (drop pos m) then Some (Some pos)
     else if pos + length p < length m then memmem_loop m p (byte_sum p) r (Suc pos) (byte_sum (take (length p) (drop (Suc pos) m)))
     else None)"
proof -
  let ?n = "length p" and ?w = "take (length p) (drop pos m)"
  have n: "0 < ?n" using assms(2) by simp
  have c: "read_at m pos = Some (m ! pos)" "read_at p 0 = Some (p ! 0)" using assms(1) n by (simp_all add: read_at_def del: length_greater_0_conv)
  obtain r' where r': "memcmp ?n (drop pos m) p = Some r'" "r' = 0 \<longleftrightarrow> ?w = p"
    using memcmp_zero [of ?n "drop pos m" p] assms(1) by fastforce
  have w0: "?w ! 0 = m ! pos" using n assms(1) by simp
  have e: "(if byte_sum p = byte_sum ?w \<and> m ! pos = p ! 0 then memcmp ?n (drop pos m) p else Some 1) = Some 0 \<longleftrightarrow> ?w = p"
    using r' w0 by auto
  have ne: "(if byte_sum p = byte_sum ?w \<and> m ! pos = p ! 0 then memcmp ?n (drop pos m) p else Some 1) \<noteq> None"
    using r' by simp
  show ?thesis
  proof (cases "?w = p")
    case True
    with e c show ?thesis by (simp add: is_prefix_take)
  next
    case False
    with e ne obtain q where q: "(if byte_sum p = byte_sum ?w \<and> m ! pos = p ! 0 then memcmp ?n (drop pos m) p else Some 1) = Some q" "q \<noteq> 0"
      by (metis not_None_eq)
    show ?thesis
    proof (cases "pos + ?n < length m")
      case True
      note ro = roll_ok [OF True n assms(3)] and dw = drop_window(2) [OF True]
      show ?thesis
        using False True c q ro by (simp add: is_prefix_take dw [symmetric] read_at_def)
    next
      case out: False
      show ?thesis
        using False out c q by (simp add: is_prefix_take read_at_def split: bind_splits)
    qed
  qed
qed


lemma memmem_loop_find:
  assumes "length m > length hay" and "take (length hay) m = hay" and "p \<noteq> []" and "128 * int (length p) < 2 ^ 31"
    and "length p \<le> length hay" and "pos + r = length hay - length p + 1"
  shows "memmem_loop m p (byte_sum p) r pos (byte_sum (take (length p) (drop pos m))) =
    Some (map_option (\<lambda>k. pos + k) (find_str p (drop pos hay)))"
  using assms(6)
proof (induction r arbitrary: pos)
  case 0
  have "0 < length p" using assms(3) by simp
  then have "length (drop pos hay) < length p" using 0 assms(5) by simp
  then show ?case by (simp add: find_str_short)
next
  case (Suc r)
  have pos: "pos + length p \<le> length hay" "pos < length hay" using Suc.prems assms(3,5) by (cases p; auto)+
  have h: "drop pos hay = take (length hay - pos) (drop pos m)" using assms(2) by (metis drop_take)
  have pre: "is_prefix p (drop pos m) \<longleftrightarrow> is_prefix p (drop pos hay)"
    unfolding is_prefix_take h using pos(1) by (simp add: min_def)
  have d: "drop pos hay = hay ! pos # drop (Suc pos) hay" using pos(2) by (simp add: Cons_nth_drop_Suc)
  have "memmem_loop m p (byte_sum p) (Suc r) pos (byte_sum (take (length p) (drop pos m))) =
    (if is_prefix p (drop pos hay) then Some (Some pos)
     else memmem_loop m p (byte_sum p) r (Suc pos) (byte_sum (take (length p) (drop (Suc pos) m))))"
    using memmem_loop_step [of pos p m r] pos assms(1,3,4) pre by simp
  also have "\<dots> = Some (map_option (\<lambda>k. pos + k) (find_str p (drop pos hay)))"
    using Suc.IH [of "Suc pos"] Suc.prems
    by (simp add: d option.map_comp comp_def del: memmem_loop.simps)
  finally show ?case .
qed

section \<open>Properties\<close>

text \<open>
  C30. The search with a rolling sum finds what the plain search finds: the first place at which
  the needle starts, or null, for every needle of less than 16 million bytes, provided that the
  byte behind the haystack can be read.
\<close>

theorem memmem_find_str:
  assumes "128 * length needle < 2 ^ 31"
  shows "memmem (haystack @ b # beyond) (length haystack) needle = Some (find_str needle haystack)"
proof (cases "length haystack < length needle")
  case True
  then show ?thesis by (simp add: memmem_def find_str_short)
next
  case False
  let ?m = "haystack @ b # beyond"
  show ?thesis
  proof (cases "needle = []")
    case True
    then show ?thesis by (cases haystack) (simp_all add: memmem_def)
  next
    case ne: False
    have b: "128 * int (length needle) < 2 ^ 31" using assms by simp
    have s: "memmem_sum needle 0 (length needle) 0 = Some (byte_sum needle)"
      "memmem_sum ?m 0 (length needle) 0 = Some (byte_sum (take (length needle) (drop 0 ?m)))"
      using memmem_sum_ok [of 0 "length needle" needle 0] memmem_sum_ok [of 0 "length needle" ?m 0] False b by simp_all
    have "memmem_loop ?m needle (byte_sum needle) (length haystack - length needle + 1) 0 (byte_sum (take (length needle) (drop 0 ?m))) =
        Some (map_option (\<lambda>k. 0 + k) (find_str needle (drop 0 haystack)))"
      by (rule memmem_loop_find) (use False ne b in auto)
    then have "memmem_loop ?m needle (byte_sum needle) (length haystack - length needle + 1) 0 (byte_sum (take (length needle) (drop 0 ?m))) =
        Some (find_str needle haystack)" by (simp add: option.map_ident)
    with s False ne show ?thesis unfolding memmem_def by (simp del: memmem_loop.simps)
  qed
qed

theorem memmem_find_str_witness:
  "memmem ([1, 2, 3, 1, 2] @ 9 # []) (length [1 :: byte, 2, 3, 1, 2]) [3, 1] = Some (Some 2)"
  using memmem_find_str [of "[3, 1]" "[1, 2, 3, 1, 2]" 9 "[]"] by simp

text \<open>
  Without that byte a search that finds nothing reads past the haystack: the last iteration
  updates the sum once more than it is needed.
\<close>

lemma memmem_reads_past_end: "memmem [1, 2, 3, 4] 4 [5, 6] = None"
  by code_simp

lemma lexordp_take:
  assumes "take (length x) y = x" and "length x < length y"
  shows "ord_class.lexordp x (y :: 'a :: linorder list)"
  using assms lexordp_append_rightI [of "drop (length x) y" x] by (metis append_take_drop_id drop_eq_Nil not_le)

lemma lexordp_excl: "ord_class.lexordp x y \<Longrightarrow> \<not> ord_class.lexordp y (x :: 'a :: linorder list) \<and> x \<noteq> y"
  using lexordp_antisym lexordp_irreflexive' by blast

lemma Slice_compare_sign:
  "\<exists>r. Slice_compare x y = Some r \<and> (r = 0 \<longrightarrow> x = y) \<and> (r < 0 \<longrightarrow> ord_class.lexordp x y) \<and> (r > 0 \<longrightarrow> ord_class.lexordp y x)"
proof -
  let ?n = "if length x < length y then length x else length y"
  have n: "?n \<le> length x" "?n \<le> length y" by auto
  obtain r where r: "memcmp ?n x y = Some r" "r = 0 \<longleftrightarrow> take ?n x = take ?n y" "r < 0 \<longrightarrow> ord_class.lexordp x y"
      "r > 0 \<longrightarrow> ord_class.lexordp y x"
    using memcmp_min [OF n] by blast
  show ?thesis
  proof (cases "r = 0")
    case True
    have "x = y \<or> length x < length y \<and> ord_class.lexordp x y \<or> length x > length y \<and> ord_class.lexordp y x"
      using r(2) True lexordp_take [of x y] lexordp_take [of y x] by (cases "length x" "length y" rule: linorder_cases) auto
    with True r(1) show ?thesis by (auto simp: Slice_compare_def Let_def)
  qed (use r in \<open>simp add: Slice_compare_def Let_def\<close>)
qed

text \<open>
  The comparison of slices is a total order: it is defined for all slices, zero exactly for
  equal ones, negative exactly when the first precedes the second in the lexicographic order of
  unsigned bytes, and the operators agree with it.
\<close>

theorem Slice_compare_lexord:
  "wp (Slice_compare x y) (\<lambda>r. (r = 0 \<longleftrightarrow> x = y) \<and> (r < 0 \<longleftrightarrow> ord_class.lexordp x y) \<and>
     (r > 0 \<longleftrightarrow> ord_class.lexordp y x) \<and> Slice_eq x y = Some (r = 0) \<and> Slice_less x y = Some (r < 0))"
proof -
  obtain r where r: "Slice_compare x y = Some r" "r = 0 \<longrightarrow> x = y" "r < 0 \<longrightarrow> ord_class.lexordp x y" "r > 0 \<longrightarrow> ord_class.lexordp y x"
    using Slice_compare_sign by blast
  have iff: "r = 0 \<longleftrightarrow> x = y" "r < 0 \<longleftrightarrow> ord_class.lexordp x y" "r > 0 \<longleftrightarrow> ord_class.lexordp y x"
    using r(2-4) lexordp_excl [of x y] lexordp_excl [of y x] lexordp_irreflexive' [of x] by (metis linorder_less_linear)+
  have "Slice_eq x y = Some (x = y)"
    using memcmp_zero [of "length x" x y] by (auto simp: Slice_eq_def)
  with r(1) iff show ?thesis by (simp add: Slice_less_def)
qed

end
