(* ===== verification/HttpClient.thy ===== *)
theory HttpClient
  imports StdMap Steps "HOL-Library.List_Lexorder" "HOL-Library.Char_ord"
begin

text \<open>
  The HTTP client of evpp (\<open>thirdpartlibs/evpp/evpp/httpc\<close>): \<open>Conn\<close>, \<open>ConnPool\<close> and \<open>Request\<close> with its
  retries. Any number of requests share one pool; requests with a connection of their own are
  there as well. Connections and requests are objects in a store, known by address.

  What libevent answers is a parameter: a record \<open>http_env\<close> for each attempt of a request. A request
  handed to \<open>evhttp_make_request\<close> successfully is in flight until libevent calls \<open>HandleResponse\<close>, with
  the code of the response or with a null pointer. Functors in a loop and timers of \<open>RunAfter\<close> are
  counted in the request, and so are the calls of \<open>Execute\<close> and the attempts. The handler's calls are
  logged. The branches for TLS and the time-out handed to libevent are left out.
\<close>

section \<open>Connections and their pool\<close>

record http_conn =
  hc_loop :: nat
  hc_host :: string
  hc_port :: int
  hc_evhttp :: bool

record http_env =
  evhttp_connection_new_ok :: bool
  evhttp_request_new_ok :: bool
  evhttp_add_header_ok :: "string \<Rightarrow> string \<Rightarrow> bool"
  evbuffer_add_ok :: bool
  evhttp_make_request_ok :: bool

record http_response =
  resp_evreq :: bool
  resp_code :: int

record http_request =
  rq_pool :: bool
  rq_loop :: nat
  rq_host :: string
  rq_port :: int
  rq_uri :: string
  rq_headers :: "(string, string) stdmap"
  rq_body :: string
  rq_conn :: "nat option"
  rq_retried :: int
  rq_retry_number :: int
  rq_retry_interval :: int
  rq_tasks :: nat
  rq_timers :: nat
  rq_inflight :: nat
  rq_started :: nat
  rq_attempts :: nat
  rq_calls :: "http_response list"

record http_state =
  cp_host :: string
  cp_port :: int
  cp_max :: nat
  cp_pool :: "(nat, nat list) stdmap"
  cp_closing :: "nat list"
  hs_conns :: "nat \<Rightarrow> http_conn option"
  hs_next :: nat
  hs_reqs :: "nat \<Rightarrow> http_request option"

definition ConnPool_new :: "string \<Rightarrow> int \<Rightarrow> nat \<Rightarrow> http_state" where
  "ConnPool_new h p max_size =
     \<lparr>cp_host = h, cp_port = p, cp_max = max_size, cp_pool = [], cp_closing = [], hs_conns = (\<lambda>_. None), hs_next = 0, hs_reqs = (\<lambda>_. None)\<rparr>"

definition Conn_new :: "nat \<Rightarrow> string \<Rightarrow> int \<Rightarrow> http_conn" where
  "Conn_new l h p = \<lparr>hc_loop = l, hc_host = h, hc_port = p, hc_evhttp = False\<rparr>"

text \<open>A new connection at a fresh address.\<close>

definition alloc_conn :: "http_conn \<Rightarrow> http_state \<Rightarrow> nat \<times> http_state" where
  "alloc_conn c s = (hs_next s, s\<lparr>hs_conns := (hs_conns s)(hs_next s \<mapsto> c), hs_next := Suc (hs_next s)\<rparr>)"

definition Conn_Init :: "http_env \<Rightarrow> nat \<Rightarrow> http_state \<Rightarrow> (bool \<times> http_state) option" where
  "Conn_Init V a s = do {
     c \<leftarrow> hs_conns s a;
     (if hc_evhttp c then Some (True, s)
      else if \<not> evhttp_connection_new_ok V then Some (False, s)
      else Some (True, s\<lparr>hs_conns := (hs_conns s)(a \<mapsto> c\<lparr>hc_evhttp := True\<rparr>)\<rparr>)) }"

definition Conn_Close :: "nat \<Rightarrow> http_state \<Rightarrow> http_state option" where
  "Conn_Close a s = do {
     c \<leftarrow> hs_conns s a;
     Some (s\<lparr>hs_conns := (hs_conns s)(a \<mapsto> c\<lparr>hc_evhttp := False\<rparr>)\<rparr>) }"

text \<open>The assertions about the thread hold in the steps below, which a loop makes for its own requests.\<close>

definition ConnPool_Get :: "nat \<Rightarrow> http_state \<Rightarrow> (nat \<times> http_state) option" where
  "ConnPool_Get l s = do {
     let s = (if map_find (cp_pool s) l = None then s\<lparr>cp_pool := map_set (cp_pool s) l []\<rparr> else s);
     cs \<leftarrow> map_find (cp_pool s) l;
     (if cs = [] then Some (alloc_conn (Conn_new l (cp_host s) (cp_port s)) s)
      else Some (last cs, s\<lparr>cp_pool := map_set (cp_pool s) l (butlast cs)\<rparr>)) }"

text \<open>The result says whether the pool has kept the connection.\<close>

definition ConnPool_Put :: "nat \<Rightarrow> http_state \<Rightarrow> (bool \<times> http_state) option" where
  "ConnPool_Put a s = do {
     c \<leftarrow> hs_conns s a;
     cs \<leftarrow> map_find (cp_pool s) (hc_loop c);
     (if length cs \<ge> cp_max s then Some (False, s)
      else Some (True, s\<lparr>cp_pool := map_set (cp_pool s) (hc_loop c) (cs @ [a])\<rparr>)) }"

text \<open>\<open>Clear\<close> queues one functor for each connection; the functor closes it and holds the last reference to it.\<close>

definition ConnPool_Clear :: "http_state \<Rightarrow> http_state" where
  "ConnPool_Clear s = s\<lparr>cp_pool := [], cp_closing := cp_closing s @ concat (map snd (cp_pool s))\<rparr>"

definition run_closing :: "http_state \<Rightarrow> http_state option" where
  "run_closing s =
     (case cp_closing s of
        [] \<Rightarrow> Some s
      | a # as \<Rightarrow> do { s \<leftarrow> Conn_Close a s; Some (s\<lparr>cp_closing := as, hs_conns := (hs_conns s)(a := None)\<rparr>) })"

definition ConnPool_delete :: "http_state \<Rightarrow> unit option" where
  "ConnPool_delete s = assert_that (cp_pool s = [])"

section \<open>Requests\<close>

definition set_req :: "nat \<Rightarrow> http_request \<Rightarrow> http_state \<Rightarrow> http_state" where
  "set_req i q s = s\<lparr>hs_reqs := (hs_reqs s)(i \<mapsto> q)\<rparr>"

definition Request_new_pool :: "nat \<Rightarrow> string \<Rightarrow> string \<Rightarrow> http_state \<Rightarrow> http_request" where
  "Request_new_pool l http_uri body s =
     \<lparr>rq_pool = True, rq_loop = l, rq_host = cp_host s, rq_port = cp_port s, rq_uri = http_uri, rq_headers = [], rq_body = body,
      rq_conn = None, rq_retried = 0, rq_retry_number = 2, rq_retry_interval = 1000000, rq_tasks = 0, rq_timers = 0,
      rq_inflight = 0, rq_started = 0, rq_attempts = 0, rq_calls = []\<rparr>"

text \<open>\<open>path\<close>, \<open>query\<close>, \<open>h\<close> and \<open>p\<close> are what libevent's parser found in the URL; the request makes its own connection.\<close>

definition Request_new_url :: "nat \<Rightarrow> string \<Rightarrow> string option \<Rightarrow> string \<Rightarrow> int \<Rightarrow> string \<Rightarrow> http_state \<Rightarrow> http_request \<times> http_state" where
  "Request_new_url l path query h p body s =
     (let uri = (if path = [] then ''/'' else path);
          uri = (case query of Some x \<Rightarrow> if x \<noteq> [] then uri @ ''?'' @ x else uri | None \<Rightarrow> uri);
          port = (if p < 0 then 80 else p);
          (a, s) = alloc_conn (Conn_new l h port) s
      in (\<lparr>rq_pool = False, rq_loop = l, rq_host = h, rq_port = port, rq_uri = uri, rq_headers = [], rq_body = body,
           rq_conn = Some a, rq_retried = 0, rq_retry_number = 2, rq_retry_interval = 1000000, rq_tasks = 0, rq_timers = 0,
           rq_inflight = 0, rq_started = 0, rq_attempts = 0, rq_calls = []\<rparr>, s))"

definition AddHeader :: "string \<Rightarrow> string \<Rightarrow> http_request \<Rightarrow> http_request" where
  "AddHeader k v q = q\<lparr>rq_headers := map_set (rq_headers q) k v\<rparr>"

definition set_retry_number :: "int \<Rightarrow> http_request \<Rightarrow> http_request" where
  "set_retry_number v q = q\<lparr>rq_retry_number := v\<rparr>"

definition set_retry_interval :: "int \<Rightarrow> http_request \<Rightarrow> http_request" where
  "set_retry_interval d q = q\<lparr>rq_retry_interval := d\<rparr>"

definition Response_new :: "int option \<Rightarrow> http_response" where
  "Response_new r = (case r of None \<Rightarrow> \<lparr>resp_evreq = False, resp_code = 0\<rparr> | Some code \<Rightarrow> \<lparr>resp_evreq = True, resp_code = code\<rparr>)"

definition call_handler :: "nat \<Rightarrow> int option \<Rightarrow> http_state \<Rightarrow> http_state option" where
  "call_handler i r s = do { q \<leftarrow> hs_reqs s i; Some (set_req i (q\<lparr>rq_calls := rq_calls q @ [Response_new r]\<rparr>) s) }"

text \<open>\<open>ExecuteInLoop\<close> up to the label \<open>failed\<close>; false when it goes there.\<close>

definition obtain_conn :: "nat \<Rightarrow> http_state \<Rightarrow> (nat \<times> http_state) option" where
  "obtain_conn i s = do {
     q \<leftarrow> hs_reqs s i;
     (case rq_conn q of
        Some a \<Rightarrow> do { assert_that (\<not> rq_pool q); Some (a, s) }
      | None \<Rightarrow> do {
          assert_that (rq_pool q);
          (a, s) \<leftarrow> ConnPool_Get (rq_loop q) s;
          Some (a, set_req i (q\<lparr>rq_conn := Some a\<rparr>) s) }) }"

definition make_request :: "http_env \<Rightarrow> nat \<Rightarrow> nat \<Rightarrow> http_state \<Rightarrow> (bool \<times> http_state) option" where
  "make_request V i a s = do {
     q \<leftarrow> hs_reqs s i;
     c \<leftarrow> hs_conns s a;
     (if \<not> evhttp_request_new_ok V then Some (False, s)
      else if \<not> evhttp_add_header_ok V ''host'' (hc_host c) then Some (False, s)
      else if \<not> list_all (\<lambda>(k, v). evhttp_add_header_ok V k v) (rq_headers q) then Some (False, s)
      else if rq_body q \<noteq> [] \<and> \<not> evbuffer_add_ok V then Some (False, s)
      else if \<not> evhttp_make_request_ok V then Some (False, s)
      else Some (True, set_req i (q\<lparr>rq_inflight := Suc (rq_inflight q)\<rparr>) s)) }"

definition attempt :: "http_env \<Rightarrow> nat \<Rightarrow> http_state \<Rightarrow> (bool \<times> http_state) option" where
  "attempt V i s = do {
     q \<leftarrow> hs_reqs s i;
     let s = set_req i (q\<lparr>rq_attempts := Suc (rq_attempts q)\<rparr>) s;
     (a, s) \<leftarrow> obtain_conn i s;
     (ok, s) \<leftarrow> Conn_Init V a s;
     if ok then make_request V i a s else Some (False, s) }"

text \<open>\<open>pool_->Put(conn_); conn_.reset()\<close>: a connection that the pool does not keep is destroyed.\<close>

definition recycle :: "nat \<Rightarrow> http_state \<Rightarrow> http_state option" where
  "recycle i s = do {
     q \<leftarrow> hs_reqs s i;
     if rq_pool q then do {
       a \<leftarrow> rq_conn q;
       (kept, s) \<leftarrow> ConnPool_Put a s;
       let s = (if kept then s else s\<lparr>hs_conns := (hs_conns s)(a := None)\<rparr>);
       Some (set_req i (q\<lparr>rq_conn := None\<rparr>) s) }
     else Some s }"

text \<open>\<open>Retry\<close> before it executes again or sets the timer.\<close>

definition prepare_retry :: "nat \<Rightarrow> http_state \<Rightarrow> http_state option" where
  "prepare_retry i s = do {
     q \<leftarrow> hs_reqs s i;
     recycle i (set_req i (q\<lparr>rq_retried := rq_retried q + 1\<rparr>) s) }"

definition set_timer :: "nat \<Rightarrow> http_state \<Rightarrow> http_state option" where
  "set_timer i s = do { q \<leftarrow> hs_reqs s i; Some (set_req i (q\<lparr>rq_timers := Suc (rq_timers q)\<rparr>) s) }"

lemma attempt_keeps:
  assumes "attempt V i s = Some (ok, s1)" and "hs_reqs s i = Some q"
  obtains q1 where "hs_reqs s1 i = Some q1" and "rq_retried q1 = rq_retried q" and "rq_retry_number q1 = rq_retry_number q"
    and "rq_retry_interval q1 = rq_retry_interval q"
  using assms
  by (auto simp: attempt_def obtain_conn_def ConnPool_Get_def alloc_conn_def Conn_Init_def make_request_def set_req_def Let_def
      split: bind_splits if_splits option.splits)

lemma prepare_retry_counts:
  assumes "prepare_retry i s = Some s1" and "hs_reqs s i = Some q"
  obtains q1 where "hs_reqs s1 i = Some q1" and "rq_retried q1 = rq_retried q + 1" and "rq_retry_number q1 = rq_retry_number q"
    and "rq_retry_interval q1 = rq_retry_interval q"
  using assms
  by (auto simp: prepare_retry_def recycle_def ConnPool_Put_def set_req_def Let_def split: bind_splits if_splits)

definition retries_left :: "nat \<Rightarrow> http_state \<Rightarrow> nat" where
  "retries_left i s = (case hs_reqs s i of None \<Rightarrow> 0 | Some q \<Rightarrow> nat (rq_retry_number q - rq_retried q))"

text \<open>The attempts of one execution and its immediate retries; \<open>V\<close> answers by the number of retries.\<close>

function ExecuteInLoop :: "(int \<Rightarrow> http_env) \<Rightarrow> nat \<Rightarrow> http_state \<Rightarrow> http_state option" where
  "ExecuteInLoop V i s = do {
     q \<leftarrow> hs_reqs s i;
     (ok, s1) \<leftarrow> attempt (V (rq_retried q)) i s;
     if ok then Some s1
     else if rq_retried q < rq_retry_number q then do {
       s2 \<leftarrow> prepare_retry i s1;
       if rq_retry_interval q = 0 then ExecuteInLoop V i s2 else set_timer i s2 }
     else call_handler i None s1 }"
  by pat_completeness auto
termination
proof (relation "measure (\<lambda>(V, i, s). retries_left i s)")
  fix V :: "int \<Rightarrow> http_env" and i s q r ok s1 s2
  assume "hs_reqs s i = Some q" "attempt (V (rq_retried q)) i s = Some r" "(ok, s1) = r" "\<not> ok" "rq_retried q < rq_retry_number q"
    "prepare_retry i s1 = Some s2"
  moreover from this obtain q1 where "hs_reqs s1 i = Some q1" "rq_retried q1 = rq_retried q" "rq_retry_number q1 = rq_retry_number q"
    by (metis attempt_keeps)
  moreover from this obtain q2 where "hs_reqs s2 i = Some q2" "rq_retried q2 = rq_retried q1 + 1" "rq_retry_number q2 = rq_retry_number q1"
    using \<open>prepare_retry i s1 = Some s2\<close> by (metis prepare_retry_counts)
  ultimately show "((V, i, s2), V, i, s) \<in> measure (\<lambda>(V, i, s). retries_left i s)" by (simp add: retries_left_def)
qed simp

declare ExecuteInLoop.simps [simp del]

text \<open>\<open>Execute\<close>, called in the thread of the loop or not.\<close>

definition Request_Execute :: "bool \<Rightarrow> (int \<Rightarrow> http_env) \<Rightarrow> nat \<Rightarrow> http_state \<Rightarrow> http_state option" where
  "Request_Execute inloop V i s = do {
     q \<leftarrow> hs_reqs s i;
     let q = q\<lparr>rq_started := Suc (rq_started q)\<rparr>;
     if inloop then ExecuteInLoop V i (set_req i q s)
     else Some (set_req i (q\<lparr>rq_tasks := Suc (rq_tasks q)\<rparr>) s) }"

definition run_execute :: "(int \<Rightarrow> http_env) \<Rightarrow> nat \<Rightarrow> http_state \<Rightarrow> http_state option" where
  "run_execute V i s = do { q \<leftarrow> hs_reqs s i; ExecuteInLoop V i (set_req i (q\<lparr>rq_tasks := rq_tasks q - 1\<rparr>) s) }"

definition run_timer :: "(int \<Rightarrow> http_env) \<Rightarrow> nat \<Rightarrow> http_state \<Rightarrow> http_state option" where
  "run_timer V i s = do { q \<leftarrow> hs_reqs s i; ExecuteInLoop V i (set_req i (q\<lparr>rq_timers := rq_timers q - 1\<rparr>) s) }"

definition HandleResponse :: "(int \<Rightarrow> http_env) \<Rightarrow> nat \<Rightarrow> int option \<Rightarrow> http_state \<Rightarrow> http_state option" where
  "HandleResponse V i r s = do {
     q \<leftarrow> hs_reqs s i;
     let q = q\<lparr>rq_inflight := rq_inflight q - 1\<rparr>;
     let s = set_req i q s;
     if (case r of None \<Rightarrow> False | Some code \<Rightarrow> \<not> (code \<ge> 500 \<and> code < 600) \<or> rq_retried q \<ge> rq_retry_number q) then do {
       s \<leftarrow> recycle i s;
       call_handler i r s }
     else if rq_retried q < rq_retry_number q then do {
       s \<leftarrow> prepare_retry i s;
       if rq_retry_interval q = 0 then ExecuteInLoop V i s else set_timer i s }
     else do {
       s \<leftarrow> recycle i s;
       call_handler i r s } }"

section \<open>Steps\<close>

datatype http_op =
  HttpNew nat nat string string
  | HttpNewUrl nat nat string "string option" string int string
  | HttpHeader nat string string
  | HttpSet nat int int
  | HttpExecute nat bool "int \<Rightarrow> http_env"
  | HttpRun nat "int \<Rightarrow> http_env"
  | HttpTimer nat "int \<Rightarrow> http_env"
  | HttpRespond nat "int \<Rightarrow> http_env" "int option"
  | HttpClear
  | HttpClosing

fun http_do :: "http_op \<Rightarrow> http_state \<Rightarrow> http_state option" where
  "http_do (HttpNew i l uri body) s = Some (set_req i (Request_new_pool l uri body s) s)"
| "http_do (HttpNewUrl i l path query h p body) s = (let (q, s) = Request_new_url l path query h p body s in Some (set_req i q s))"
| "http_do (HttpHeader i k v) s = do { q \<leftarrow> hs_reqs s i; Some (set_req i (AddHeader k v q) s) }"
| "http_do (HttpSet i n d) s = do { q \<leftarrow> hs_reqs s i; Some (set_req i (set_retry_interval d (set_retry_number n q)) s) }"
| "http_do (HttpExecute i inloop V) s = Request_Execute inloop V i s"
| "http_do (HttpRun i V) s = run_execute V i s"
| "http_do (HttpTimer i V) s = run_timer V i s"
| "http_do (HttpRespond i V r) s = HandleResponse V i r s"
| "http_do HttpClear s = Some (ConnPool_Clear s)"
| "http_do HttpClosing s = run_closing s"

definition rq_pending :: "http_request \<Rightarrow> nat" where
  "rq_pending q = rq_tasks q + rq_timers q + rq_inflight q"

text \<open>
  When a step can happen. A user configures a request before executing it, executes it only while
  nothing is pending, and clears the pool only while no request holds a connection of it. A request of the
  pool that still has a connection cannot be executed again, see below.
\<close>

fun http_enabled :: "http_op \<Rightarrow> http_state \<Rightarrow> bool" where
  "http_enabled (HttpNew i l uri body) s \<longleftrightarrow> hs_reqs s i = None"
| "http_enabled (HttpNewUrl i l path query h p body) s \<longleftrightarrow> hs_reqs s i = None"
| "http_enabled (HttpHeader i k v) s \<longleftrightarrow> (case hs_reqs s i of None \<Rightarrow> False | Some q \<Rightarrow> rq_pending q = 0)"
| "http_enabled (HttpSet i n d) s \<longleftrightarrow> (case hs_reqs s i of None \<Rightarrow> False | Some q \<Rightarrow> rq_started q = 0)"
| "http_enabled (HttpExecute i inloop V) s \<longleftrightarrow>
     (case hs_reqs s i of None \<Rightarrow> False | Some q \<Rightarrow> rq_pending q = 0 \<and> (rq_pool q \<longrightarrow> rq_conn q = None))"
| "http_enabled (HttpRun i V) s \<longleftrightarrow> (case hs_reqs s i of None \<Rightarrow> False | Some q \<Rightarrow> rq_tasks q > 0)"
| "http_enabled (HttpTimer i V) s \<longleftrightarrow> (case hs_reqs s i of None \<Rightarrow> False | Some q \<Rightarrow> rq_timers q > 0)"
| "http_enabled (HttpRespond i V r) s \<longleftrightarrow> (case hs_reqs s i of None \<Rightarrow> False | Some q \<Rightarrow> rq_inflight q > 0)"
| "http_enabled HttpClear s \<longleftrightarrow> (\<forall>i q. hs_reqs s i = Some q \<and> rq_pool q \<longrightarrow> rq_conn q = None)"
| "http_enabled HttpClosing s \<longleftrightarrow> True"

section \<open>Lemmas\<close>

subsection \<open>Every connection has one owner\<close>

definition loop_of :: "http_state \<Rightarrow> nat \<Rightarrow> nat option" where
  "loop_of s a = map_option hc_loop (hs_conns s a)"

definition held :: "http_state \<Rightarrow> nat \<Rightarrow> bool" where
  "held s a \<longleftrightarrow> (\<exists>i q. hs_reqs s i = Some q \<and> rq_conn q = Some a)"

definition pooled :: "http_state \<Rightarrow> nat \<Rightarrow> bool" where
  "pooled s a \<longleftrightarrow> (\<exists>l cs. map_find (cp_pool s) l = Some cs \<and> a \<in> set cs)"

definition lists_ok :: "http_state \<Rightarrow> bool" where
  "lists_ok s \<longleftrightarrow> map_ok (cp_pool s) \<and> (\<forall>l cs. map_find (cp_pool s) l = Some cs \<longrightarrow> distinct cs \<and> length cs \<le> cp_max s \<and>
     (\<forall>a \<in> set cs. loop_of s a = Some l \<and> \<not> held s a \<and> a \<notin> set (cp_closing s)))"

definition closing_ok :: "http_state \<Rightarrow> bool" where
  "closing_ok s \<longleftrightarrow> distinct (cp_closing s) \<and> (\<forall>a \<in> set (cp_closing s). loop_of s a \<noteq> None \<and> \<not> held s a)"

definition held_ok :: "http_state \<Rightarrow> bool" where
  "held_ok s \<longleftrightarrow> (\<forall>a. hs_next s \<le> a \<longrightarrow> hs_conns s a = None) \<and>
     (\<forall>i q a. hs_reqs s i = Some q \<and> rq_conn q = Some a \<longrightarrow> loop_of s a = Some (rq_loop q) \<and>
        (rq_pool q \<longrightarrow> map_find (cp_pool s) (rq_loop q) \<noteq> None) \<and>
        (\<forall>j p. hs_reqs s j = Some p \<and> rq_conn p = Some a \<longrightarrow> i = j))"

definition owners_ok :: "http_state \<Rightarrow> bool" where
  "owners_ok s \<longleftrightarrow> lists_ok s \<and> closing_ok s \<and> held_ok s"

lemmas owners_defs = owners_ok_def lists_ok_def closing_ok_def held_ok_def

lemma owners_ok_cong:
  assumes "owners_ok s" and "hs_reqs s i = Some q" and "rq_conn q' = rq_conn q" and "rq_pool q' = rq_pool q" and "rq_loop q' = rq_loop q"
  shows "owners_ok (set_req i q' s)"
proof -
  have "held (set_req i q' s) a = held s a" for a
    using assms(2,3) by (auto simp: held_def set_req_def) (metis option.inject)+
  moreover have "loop_of (set_req i q' s) = loop_of s" by (simp add: loop_of_def set_req_def fun_eq_iff)
  ultimately show ?thesis
    using assms unfolding owners_defs by (auto simp: set_req_def)
qed

lemma owners_okD:
  assumes "owners_ok s"
  shows "map_find (cp_pool s) l = Some cs \<Longrightarrow> a \<in> set cs \<Longrightarrow> loop_of s a = Some l \<and> \<not> held s a \<and> a \<notin> set (cp_closing s)"
    and "hs_reqs s i = Some q \<Longrightarrow> rq_conn q = Some a \<Longrightarrow> loop_of s a = Some (rq_loop q)"
    and "hs_next s \<le> a \<Longrightarrow> loop_of s a = None"
  using assms unfolding owners_defs by (auto simp: loop_of_def)

lemma held_fresh: "owners_ok s \<Longrightarrow> hs_next s \<le> a \<Longrightarrow> \<not> held s a"
  using owners_okD(2,3) unfolding held_def by (metis option.distinct(1))

text \<open>A request takes a connection that nobody owns.\<close>

lemma held_take:
  assumes "\<And>p. hs_reqs s i = Some p \<Longrightarrow> rq_conn p = None" and "rq_conn q = Some a"
  shows "held (set_req i q s) b \<longleftrightarrow> b = a \<or> held s b"
  using assms unfolding held_def set_req_def by auto (metis option.distinct(1) option.inject)

lemma loop_of_simps [simp]:
  "loop_of (set_req i q s) = loop_of s" "loop_of (s\<lparr>cp_pool := P\<rparr>) = loop_of s" "loop_of (s\<lparr>cp_closing := as\<rparr>) = loop_of s"
  by (simp_all add: loop_of_def set_req_def fun_eq_iff)

lemma held_simps [simp]:
  "held (s\<lparr>cp_pool := P\<rparr>) = held s" "held (s\<lparr>cp_closing := as\<rparr>) = held s" "held (s\<lparr>hs_conns := f\<rparr>) = held s"
  by (simp_all add: held_def fun_eq_iff)

lemma set_req_simps [simp]:
  "hs_reqs (set_req i q s) = (hs_reqs s)(i \<mapsto> q)" "hs_conns (set_req i q s) = hs_conns s" "cp_pool (set_req i q s) = cp_pool s"
  "cp_closing (set_req i q s) = cp_closing s" "cp_max (set_req i q s) = cp_max s" "hs_next (set_req i q s) = hs_next s"
  by (simp_all add: set_req_def)

lemma set_req_twice [simp]: "set_req i p (set_req i q s) = set_req i p s"
  by (simp add: set_req_def)

lemma owners_take:
  assumes "owners_ok s" and none: "\<And>p. hs_reqs s i = Some p \<Longrightarrow> rq_conn p = None" and "rq_conn q = Some a" and "\<not> held s a"
    and "\<not> pooled s a" and "a \<notin> set (cp_closing s)" and "loop_of s a = Some (rq_loop q)"
    and "rq_pool q \<Longrightarrow> map_find (cp_pool s) (rq_loop q) \<noteq> None"
  shows "owners_ok (set_req i q s)"
proof -
  note h = held_take [OF none assms(3)]
  have "lists_ok (set_req i q s)"
    using assms(1,5) unfolding owners_ok_def lists_ok_def pooled_def by (auto simp: h)
  moreover have "closing_ok (set_req i q s)"
    using assms(1,6) unfolding owners_ok_def closing_ok_def by (auto simp: h)
  moreover have "held_ok (set_req i q s)"
    using assms unfolding owners_ok_def held_ok_def held_def by auto
  ultimately show ?thesis by (simp add: owners_ok_def)
qed

text \<open>A new connection is nobody's yet.\<close>

lemma owners_alloc:
  assumes "owners_ok s" and "alloc_conn c s = (a, s')"
  shows "owners_ok s'" and "\<not> held s' a" and "\<not> pooled s' a" and "a \<notin> set (cp_closing s')" and "loop_of s' a = Some (hc_loop c)"
    and "hs_reqs s' = hs_reqs s" and "cp_pool s' = cp_pool s"
proof -
  have a: "a = hs_next s" and s': "s' = s\<lparr>hs_conns := (hs_conns s)(a \<mapsto> c), hs_next := Suc a\<rparr>"
    using assms(2) by (auto simp: alloc_conn_def)
  have l: "loop_of s' b = (if b = a then Some (hc_loop c) else loop_of s b)" and h: "held s' b = held s b" for b
    by (simp_all add: s' loop_of_def held_def)
  have n: "\<not> held s a" "\<not> pooled s a" "a \<notin> set (cp_closing s)"
    using held_fresh [OF assms(1), of a] owners_okD(1) [OF assms(1)] owners_okD(3) [OF assms(1), of a] assms(1) a
    unfolding pooled_def owners_ok_def closing_ok_def by fastforce+
  have "lists_ok s'" using assms(1) n unfolding owners_ok_def lists_ok_def pooled_def l h by (auto simp: s')
  moreover have "closing_ok s'" using assms(1) n unfolding owners_ok_def closing_ok_def l h by (auto simp: s')
  moreover have "held_ok s'" using assms(1) a n(1) unfolding owners_ok_def held_ok_def l h by (auto simp: s' held_def)
  ultimately show "owners_ok s'" by (simp add: owners_ok_def)
  show "\<not> held s' a" "\<not> pooled s' a" "a \<notin> set (cp_closing s')" "loop_of s' a = Some (hc_loop c)" "hs_reqs s' = hs_reqs s" "cp_pool s' = cp_pool s"
    using n by (simp_all add: h l) (simp_all add: s' pooled_def)
qed

lemma wp_ConnPool_Get:
  assumes "owners_ok s" and "hs_reqs s i = Some q" and "rq_conn q = None"
  shows "wp (ConnPool_Get (rq_loop q) s) (\<lambda>(a, s'). hs_reqs s' = hs_reqs s \<and> owners_ok (set_req i (q\<lparr>rq_conn := Some a\<rparr>) s'))"
proof -
  let ?l = "rq_loop q"
  define s1 where "s1 = (if map_find (cp_pool s) ?l = None then s\<lparr>cp_pool := map_set (cp_pool s) ?l []\<rparr> else s)"
  have s1: "owners_ok s1" "hs_reqs s1 = hs_reqs s" "hs_next s1 = hs_next s"
    using assms(1) unfolding owners_defs s1_def by auto
  have "map_find (cp_pool s1) ?l \<noteq> None" by (simp add: s1_def)
  then obtain cs where cs: "map_find (cp_pool s1) ?l = Some cs" by blast
  show ?thesis
  proof (cases "cs = []")
    case True
    obtain a s2 where al: "alloc_conn (Conn_new ?l (cp_host s1) (cp_port s1)) s1 = (a, s2)" by fastforce
    note new = owners_alloc [OF s1(1) al]
    have "owners_ok (set_req i (q\<lparr>rq_conn := Some a\<rparr>) s2)"
      by (rule owners_take [OF new(1) _ _ new(2-4)]) (use assms s1 new cs in \<open>auto simp: Conn_new_def\<close>)
    moreover have "ConnPool_Get ?l s = Some (a, s2)"
      using cs True al unfolding ConnPool_Get_def s1_def [symmetric] by (simp add: Let_def)
    ultimately show ?thesis using s1(2) new(6) by simp
  next
    case False
    let ?a = "last cs" and ?s = "s1\<lparr>cp_pool := map_set (cp_pool s1) ?l (butlast cs)\<rparr>"
    have a: "?a \<in> set cs" using False by simp
    have d: "distinct cs" "length cs \<le> cp_max s1" using s1(1) cs unfolding owners_ok_def lists_ok_def by blast+
    have na: "?a \<notin> set (butlast cs)" using d(1) False by (metis append_butlast_last_id distinct_butlast not_distinct_conv_prefix)
    note o = owners_okD(1) [OF s1(1) cs a]
    have only: "\<not> pooled ?s ?a"
      using na o owners_okD(1) [OF s1(1)] unfolding pooled_def by (auto split: if_splits)
    have "length (butlast cs) \<le> cp_max s1" using d(2) by simp
    then have "owners_ok ?s"
      using s1(1) cs d(1) unfolding owners_defs by (auto simp del: length_butlast simp: distinct_butlast dest: in_set_butlastD)
    then have "owners_ok (set_req i (q\<lparr>rq_conn := Some ?a\<rparr>) ?s)"
      by (rule owners_take) (use assms s1 o only cs in auto)
    moreover have "ConnPool_Get ?l s = Some (?a, ?s)"
      using cs False unfolding ConnPool_Get_def s1_def [symmetric] by (simp add: Let_def)
    ultimately show ?thesis using s1(2) by simp
  qed
qed

text \<open>An attempt.\<close>

lemma owners_Init:
  assumes "owners_ok s"
  shows "owners_ok (s\<lparr>hs_conns := (hs_conns s)(a := map_option (\<lambda>c. c\<lparr>hc_evhttp := b\<rparr>) (hs_conns s a))\<rparr>)"
proof -
  let ?s = "s\<lparr>hs_conns := (hs_conns s)(a := map_option (\<lambda>c. c\<lparr>hc_evhttp := b\<rparr>) (hs_conns s a))\<rparr>"
  have "loop_of ?s = loop_of s" by (auto simp: loop_of_def fun_eq_iff option.map_comp comp_def)
  then show ?thesis using assms unfolding owners_defs by auto
qed

lemma wp_Conn_Init:
  assumes "owners_ok s" and "loop_of s a \<noteq> None"
  shows "wp (Conn_Init V a s) (\<lambda>(ok, s'). hs_reqs s' = hs_reqs s \<and> loop_of s' = loop_of s \<and> owners_ok s')"
proof -
  obtain c where c: "hs_conns s a = Some c" using assms(2) by (auto simp: loop_of_def)
  have "loop_of (s\<lparr>hs_conns := (hs_conns s)(a \<mapsto> c\<lparr>hc_evhttp := True\<rparr>)\<rparr>) = loop_of s"
    using c by (auto simp: loop_of_def fun_eq_iff)
  then show ?thesis using assms(1) owners_Init [OF assms(1), of a True] c by (simp add: Conn_Init_def)
qed

definition attempted :: "bool \<Rightarrow> nat \<Rightarrow> http_request \<Rightarrow> http_request" where
  "attempted ok a q = q\<lparr>rq_attempts := Suc (rq_attempts q), rq_conn := Some a, rq_inflight := (if ok then Suc else id) (rq_inflight q)\<rparr>"

lemma wp_obtain_conn:
  assumes "owners_ok s" and "hs_reqs s i = Some q" and "rq_pool q \<longleftrightarrow> rq_conn q = None"
  shows "wp (obtain_conn i s) (\<lambda>(a, s'). hs_reqs s' = (hs_reqs s)(i \<mapsto> q\<lparr>rq_conn := Some a\<rparr>) \<and> loop_of s' a \<noteq> None \<and> owners_ok s')"
proof (cases "rq_conn q")
  case None
  then obtain a s' where "ConnPool_Get (rq_loop q) s = Some (a, s')" "hs_reqs s' = hs_reqs s"
      "owners_ok (set_req i (q\<lparr>rq_conn := Some a\<rparr>) s')"
    using wp_ConnPool_Get [OF assms(1,2)] by (auto simp: wp_def)
  moreover from this have "loop_of s' a \<noteq> None"
    using owners_okD(2) [of "set_req i (q\<lparr>rq_conn := Some a\<rparr>) s'" i "q\<lparr>rq_conn := Some a\<rparr>" a] by simp
  ultimately show ?thesis using None assms by (simp add: obtain_conn_def)
next
  case (Some a)
  then have "q\<lparr>rq_conn := Some a\<rparr> = q" by simp
  then show ?thesis using Some assms owners_okD(2) [OF assms(1,2) Some] by (auto simp: obtain_conn_def fun_upd_idem)
qed

lemma wp_attempt:
  assumes "owners_ok s" and "hs_reqs s i = Some q" and "rq_pool q \<longleftrightarrow> rq_conn q = None"
  shows "wp (attempt V i s) (\<lambda>(ok, s'). owners_ok s' \<and> (\<exists>a. hs_reqs s' = (hs_reqs s)(i \<mapsto> attempted ok a q)))"
proof -
  let ?q = "q\<lparr>rq_attempts := Suc (rq_attempts q)\<rparr>"
  have o: "owners_ok (set_req i ?q s)" by (rule owners_ok_cong [OF assms(1,2)]) simp_all
  from wp_obtain_conn [OF o, of i ?q] assms(3) obtain a s1 where s1: "obtain_conn i (set_req i ?q s) = Some (a, s1)"
      "hs_reqs s1 = (hs_reqs s)(i \<mapsto> ?q\<lparr>rq_conn := Some a\<rparr>)" "loop_of s1 a \<noteq> None" "owners_ok s1"
    by (auto simp: wp_def)
  from wp_Conn_Init [OF s1(4,3), of V] obtain ok s2 where s2: "Conn_Init V a s1 = Some (ok, s2)" "hs_reqs s2 = hs_reqs s1"
      "loop_of s2 = loop_of s1" "owners_ok s2" by (auto simp: wp_def)
  let ?p = "?q\<lparr>rq_conn := Some a\<rparr>"
  obtain c where c: "hs_conns s2 a = Some c" using s1(3) unfolding s2(3) [symmetric] by (auto simp: loop_of_def)
  have r2: "hs_reqs s2 i = Some ?p" using s1(2) s2(2) by simp
  have "owners_ok (set_req i (?p\<lparr>rq_inflight := Suc (rq_inflight ?p)\<rparr>) s2)" by (rule owners_ok_cong [OF s2(4) r2]) simp_all
  then have "wp (make_request V i a s2) (\<lambda>(ok, s'). owners_ok s' \<and> (\<exists>a. hs_reqs s' = (hs_reqs s)(i \<mapsto> attempted ok a q)))"
    using s2(4) c r2 s1(2) s2(2) by (auto simp: make_request_def attempted_def)
  moreover have "\<exists>b. hs_reqs s2 = (hs_reqs s)(i \<mapsto> attempted False b q)" using s1(2) s2(2) by (auto simp: attempted_def)
  ultimately show ?thesis using assms(2) s1(1) s2(1,4) by (cases ok) (simp_all add: attempt_def Let_def)
qed

text \<open>Giving a connection back.\<close>

lemma held_release:
  assumes "owners_ok s" and "hs_reqs s i = Some q" and "rq_conn q = Some a"
  shows "held (set_req i (q\<lparr>rq_conn := None\<rparr>) s) b \<longleftrightarrow> b \<noteq> a \<and> held s b"
  using assms unfolding owners_ok_def held_ok_def held_def set_req_def by auto (metis option.inject)+

lemma wp_recycle:
  assumes "owners_ok s" and "hs_reqs s i = Some q" and "rq_conn q \<noteq> None"
  shows "wp (recycle i s) (\<lambda>s'. owners_ok s' \<and> hs_reqs s' = (hs_reqs s)(i \<mapsto> if rq_pool q then q\<lparr>rq_conn := None\<rparr> else q))"
proof (cases "rq_pool q")
  case False
  then show ?thesis using assms by (simp add: recycle_def fun_upd_idem)
next
  case True
  obtain a where a: "rq_conn q = Some a" using assms(3) by blast
  let ?q = "q\<lparr>rq_conn := None\<rparr>"
  note h = held_release [OF assms(1,2) a]
  obtain c where c: "hs_conns s a = Some c" "hc_loop c = rq_loop q"
    using owners_okD(2) [OF assms(1,2) a] by (auto simp: loop_of_def)
  obtain cs where cs: "map_find (cp_pool s) (rq_loop q) = Some cs"
    using assms(1,2) a True unfolding owners_ok_def held_ok_def by blast
  have ha: "held s a" using assms(2) a by (auto simp: held_def)
  have free: "\<not> pooled s a" "a \<notin> set (cp_closing s)"
    using assms(1) ha unfolding pooled_def owners_ok_def lists_ok_def closing_ok_def by blast+
  show ?thesis
  proof (cases "length cs \<ge> cp_max s")
    case full: True
    let ?s = "set_req i ?q (s\<lparr>hs_conns := (hs_conns s)(a := None)\<rparr>)"
    have l: "loop_of ?s b = (if b = a then None else loop_of s b)" for b by (simp add: loop_of_def)
    have hb: "held ?s b \<longleftrightarrow> b \<noteq> a \<and> held s b" for b using h [of b] by (simp add: held_def)
    have "owners_ok ?s"
      using assms(1,2) a free unfolding owners_defs pooled_def l hb by (auto split: if_splits)
    then show ?thesis using assms(2) True a c cs full by (simp add: recycle_def ConnPool_Put_def Let_def)
  next
    case room: False
    let ?s = "set_req i ?q (s\<lparr>cp_pool := map_set (cp_pool s) (rq_loop q) (cs @ [a])\<rparr>)"
    have hb: "held ?s b \<longleftrightarrow> b \<noteq> a \<and> held s b" for b using h [of b] by (simp add: held_def)
    have la: "loop_of s a = Some (rq_loop q)" using c by (simp add: loop_of_def)
    have p: "lists_ok ?s"
      using assms(1) cs room free la unfolding owners_ok_def lists_ok_def pooled_def by (auto simp: hb split: if_splits)
    moreover have "closing_ok ?s" using assms(1) unfolding owners_ok_def closing_ok_def by (auto simp: hb)
    moreover have "held_ok ?s" using assms(1) unfolding owners_ok_def held_ok_def by (auto split: if_splits)
    ultimately have "owners_ok ?s" by (simp add: owners_ok_def)
    then show ?thesis using assms(2) True a c cs room by (simp add: recycle_def ConnPool_Put_def Let_def)
  qed
qed

lemma wp_prepare_retry:
  assumes "owners_ok s" and "hs_reqs s i = Some q" and "rq_conn q \<noteq> None"
  shows "wp (prepare_retry i s) (\<lambda>s'. owners_ok s' \<and> hs_reqs s' = (hs_reqs s)(i \<mapsto>
    (if rq_pool q then q\<lparr>rq_retried := rq_retried q + 1, rq_conn := None\<rparr> else q\<lparr>rq_retried := rq_retried q + 1\<rparr>)))"
proof -
  have "owners_ok (set_req i (q\<lparr>rq_retried := rq_retried q + 1\<rparr>) s)" by (rule owners_ok_cong [OF assms(1,2)]) simp_all
  from wp_recycle [OF this, of i "q\<lparr>rq_retried := rq_retried q + 1\<rparr>"] assms(2,3) show ?thesis
    by (cases "rq_pool q") (simp_all add: prepare_retry_def)
qed

subsection \<open>The account of a request\<close>

text \<open>
  Of the calls of \<open>Execute\<close>, as many have been answered as the handler was called and \<open>k\<close> more are
  under way besides the pending event; every call and every retry makes one attempt, of which \<open>n\<close>
  are still to be made besides those queued.
\<close>

definition account :: "nat \<Rightarrow> nat \<Rightarrow> http_request \<Rightarrow> bool" where
  "account k n q \<longleftrightarrow> rq_started q = length (rq_calls q) + rq_pending q + k \<and> rq_pending q + k \<le> 1 \<and>
     int (rq_attempts q + rq_tasks q + rq_timers q + n) = int (rq_started q) + rq_retried q \<and>
     0 \<le> rq_retried q \<and> rq_retried q \<le> max 0 (rq_retry_number q) \<and> (rq_started q = 0 \<longrightarrow> rq_retried q = 0)"

text \<open>The connection of a request between events, and while it is being executed.\<close>

definition conn_state :: "http_request \<Rightarrow> bool" where
  "conn_state q \<longleftrightarrow> (\<not> rq_pool q \<longrightarrow> rq_conn q \<noteq> None) \<and> (rq_pool q \<and> rq_tasks q + rq_timers q > 0 \<longrightarrow> rq_conn q = None) \<and>
     (rq_inflight q > 0 \<longrightarrow> rq_conn q \<noteq> None)"

definition req_ok :: "http_request \<Rightarrow> bool" where
  "req_ok q \<longleftrightarrow> account 0 0 q \<and> conn_state q"

text \<open>How many events a pending request can still need.\<close>

definition todo :: "http_request \<Rightarrow> nat" where
  "todo q = 2 * nat (rq_retry_number q - rq_retried q) + rq_tasks q + rq_timers q"

definition nearer :: "nat \<Rightarrow> http_request \<Rightarrow> http_request \<Rightarrow> bool" where
  "nearer n q q' \<longleftrightarrow> req_ok q' \<and>
     (rq_calls q' = rq_calls q \<and> rq_pending q' = 1 \<and> todo q' < n \<or> (\<exists>x. rq_calls q' = rq_calls q @ [x] \<and> rq_pending q' = 0))"

definition steps_to :: "nat \<Rightarrow> nat \<Rightarrow> http_request \<Rightarrow> http_state \<Rightarrow> http_state \<Rightarrow> bool" where
  "steps_to n i q s s' \<longleftrightarrow> owners_ok s' \<and> (\<exists>q'. hs_reqs s' = (hs_reqs s)(i \<mapsto> q') \<and> nearer n q q')"

lemma wp_call_handler:
  assumes "owners_ok s" and "hs_reqs s i = Some q" and "account 1 0 q" and "\<not> rq_pool q \<longrightarrow> rq_conn q \<noteq> None"
  shows "wp (call_handler i r s) (steps_to n i q s)"
proof -
  let ?q = "q\<lparr>rq_calls := rq_calls q @ [Response_new r]\<rparr>"
  have "owners_ok (set_req i ?q s)" by (rule owners_ok_cong [OF assms(1,2)]) simp_all
  moreover have "nearer n q ?q"
    using assms(3,4) by (auto simp: nearer_def req_ok_def account_def conn_state_def rq_pending_def)
  ultimately show ?thesis using assms(2) by (auto simp: call_handler_def steps_to_def)
qed

lemma wp_set_timer:
  assumes "owners_ok s" and "hs_reqs s i = Some q" and "account 1 1 q" and "rq_pool q \<longleftrightarrow> rq_conn q = None"
    and "Suc (2 * nat (rq_retry_number q - rq_retried q)) < n"
  shows "wp (set_timer i s) (steps_to n i q s)"
proof -
  let ?q = "q\<lparr>rq_timers := Suc (rq_timers q)\<rparr>"
  have "owners_ok (set_req i ?q s)" by (rule owners_ok_cong [OF assms(1,2)]) simp_all
  moreover have "nearer n q ?q"
    using assms(3-5) by (auto simp: nearer_def req_ok_def account_def conn_state_def rq_pending_def todo_def)
  ultimately show ?thesis using assms(2) by (auto simp: set_timer_def steps_to_def)
qed

lemma steps_to_via:
  assumes "steps_to n i q1 s1 s'" and "hs_reqs s1 = (hs_reqs s)(i \<mapsto> q1)" and "rq_calls q1 = rq_calls q" and "n \<le> m"
  shows "steps_to m i q s s'"
  using assms unfolding steps_to_def nearer_def by (fastforce intro: order_trans)

lemma account_prepare:
  assumes "account 1 0 q" and "rq_retried q < rq_retry_number q"
  shows "account 1 1 (q\<lparr>rq_retried := rq_retried q + 1\<rparr>)" and "account 1 1 (q\<lparr>rq_retried := rq_retried q + 1, rq_conn := None\<rparr>)"
  using assms by (auto simp: account_def rq_pending_def)

text \<open>The end of a failed attempt or response that is tried again.\<close>

lemma wp_retry:
  assumes "owners_ok s" and "hs_reqs s i = Some q" and "account 1 0 q" and "rq_conn q \<noteq> None" and "rq_retried q < rq_retry_number q"
    and exec: "\<And>s2 p. owners_ok s2 \<Longrightarrow> hs_reqs s2 i = Some p \<Longrightarrow> account 1 1 p \<Longrightarrow> rq_pool p = (rq_conn p = None) \<Longrightarrow>
      rq_retry_number p - rq_retried p = rq_retry_number q - rq_retried q - 1 \<Longrightarrow>
      wp (ExecuteInLoop V i s2) (steps_to (Suc (2 * nat (rq_retry_number p - rq_retried p))) i p s2)"
  shows "wp (prepare_retry i s \<bind> (\<lambda>s2. if d = 0 then ExecuteInLoop V i s2 else set_timer i s2))
    (steps_to (2 * nat (rq_retry_number q - rq_retried q)) i q s)"
proof -
  define p where "p = (if rq_pool q then q\<lparr>rq_retried := rq_retried q + 1, rq_conn := None\<rparr> else q\<lparr>rq_retried := rq_retried q + 1\<rparr>)"
  have p: "rq_retried p = rq_retried q + 1" "rq_retry_number p = rq_retry_number q" "rq_calls p = rq_calls q"
    "rq_pool p = (rq_conn p = None)" "account 1 1 p"
    using account_prepare [OF assms(3,5)] assms(4) by (auto simp: p_def)
  from wp_prepare_retry [OF assms(1,2,4)] obtain s2 where s2: "prepare_retry i s = Some s2" "owners_ok s2"
    "hs_reqs s2 = (hs_reqs s)(i \<mapsto> p)" by (auto simp: wp_def p_def)
  then have r2: "hs_reqs s2 i = Some p" by simp
  let ?n = "nat (rq_retry_number p - rq_retried p)"
  have n: "Suc (2 * ?n) < 2 * nat (rq_retry_number q - rq_retried q)" using assms(5) p(1,2) by linarith
  have "wp (ExecuteInLoop V i s2) (steps_to (Suc (2 * ?n)) i p s2)" by (rule exec [OF s2(2) r2 p(5,4)]) (use p in simp)
  then have "wp (ExecuteInLoop V i s2) (steps_to (2 * nat (rq_retry_number q - rq_retried q)) i q s)"
    by (rule wp_mono) (rule steps_to_via [OF _ s2(3) p(3) less_imp_le [OF n]])
  moreover have "wp (set_timer i s2) (steps_to (2 * nat (rq_retry_number q - rq_retried q)) i p s2)"
    by (rule wp_set_timer [OF s2(2) r2 p(5,4) n])
  then have "wp (set_timer i s2) (steps_to (2 * nat (rq_retry_number q - rq_retried q)) i q s)"
    by (rule wp_mono) (rule steps_to_via [OF _ s2(3) p(3) order_refl])
  ultimately show ?thesis using s2(1) by simp
qed

lemma wp_ExecuteInLoop:
  assumes "owners_ok s" and "hs_reqs s i = Some q" and "account 1 1 q" and "rq_pool q = (rq_conn q = None)"
  shows "wp (ExecuteInLoop V i s) (steps_to (Suc (2 * nat (rq_retry_number q - rq_retried q))) i q s)"
  using assms
proof (induction "nat (rq_retry_number q - rq_retried q)" arbitrary: s q rule: less_induct)
  case less
  let ?n = "Suc (2 * nat (rq_retry_number q - rq_retried q))"
  from wp_attempt [OF less.prems(1,2,4), of "V (rq_retried q)"] obtain ok s1 a where s1: "attempt (V (rq_retried q)) i s = Some (ok, s1)"
    "owners_ok s1" "hs_reqs s1 = (hs_reqs s)(i \<mapsto> attempted ok a q)" by (auto simp: wp_def)
  define p where "p = attempted ok a q"
  have p: "rq_retried p = rq_retried q" "rq_retry_number p = rq_retry_number q" "rq_calls p = rq_calls q" "rq_conn p = Some a"
    by (simp_all add: p_def attempted_def)
  have r1: "hs_reqs s1 i = Some p" "hs_reqs s1 = (hs_reqs s)(i \<mapsto> p)" using s1(3) by (simp_all add: p_def)
  consider (made) ok | (again) "\<not> ok" "rq_retried q < rq_retry_number q" | (failed) "\<not> ok" "\<not> rq_retried q < rq_retry_number q" by blast
  then show ?case
  proof cases
    case made
    then have "nearer ?n q p"
      using less.prems(3) by (auto simp: p_def attempted_def nearer_def req_ok_def account_def conn_state_def rq_pending_def todo_def)
    then have "steps_to ?n i q s s1" unfolding steps_to_def using s1(2) r1(2) by blast
    then show ?thesis using made s1(1) less.prems(2) by (simp add: ExecuteInLoop.simps [of V i s])
  next
    case again
    have acc: "account 1 0 p" using less.prems(3) again by (auto simp: p_def attempted_def account_def rq_pending_def)
    have "wp (prepare_retry i s1 \<bind> (\<lambda>s2. if rq_retry_interval q = 0 then ExecuteInLoop V i s2 else set_timer i s2))
        (steps_to (2 * nat (rq_retry_number p - rq_retried p)) i p s1)"
    proof (rule wp_retry [OF s1(2) r1(1) acc])
      show "rq_conn p \<noteq> None" "rq_retried p < rq_retry_number p" using p again by simp_all
    next
      fix s2 q2
      assume "owners_ok s2" "hs_reqs s2 i = Some q2" "account 1 1 q2" "rq_pool q2 = (rq_conn q2 = None)"
        and n: "rq_retry_number q2 - rq_retried q2 = rq_retry_number p - rq_retried p - 1"
      then show "wp (ExecuteInLoop V i s2) (steps_to (Suc (2 * nat (rq_retry_number q2 - rq_retried q2))) i q2 s2)"
        by (intro less.hyps) (use p again n in linarith)
    qed
    then have "wp (prepare_retry i s1 \<bind> (\<lambda>s2. if rq_retry_interval q = 0 then ExecuteInLoop V i s2 else set_timer i s2)) (steps_to ?n i q s)"
      unfolding p(1,2) by (rule wp_mono) (rule steps_to_via [OF _ r1(2) p(3) le_SucI [OF order_refl]])
    then show ?thesis using again s1(1) less.prems(2) by (simp add: ExecuteInLoop.simps [of V i s])
  next
    case failed
    have acc: "account 1 0 p" using less.prems(3) failed by (auto simp: p_def attempted_def account_def rq_pending_def)
    have "wp (call_handler i None s1) (steps_to ?n i p s1)" by (rule wp_call_handler [OF s1(2) r1(1) acc]) (simp add: p)
    then have "wp (call_handler i None s1) (steps_to ?n i q s)"
      by (rule wp_mono) (rule steps_to_via [OF _ r1(2) p(3) order_refl])
    then show ?thesis using failed s1(1) less.prems(2) by (simp add: ExecuteInLoop.simps [of V i s])
  qed
qed

subsection \<open>The invariant\<close>

definition http_inv :: "http_state \<Rightarrow> bool" where
  "http_inv s \<longleftrightarrow> owners_ok s \<and> (\<forall>i q. hs_reqs s i = Some q \<longrightarrow> req_ok q)"

lemma steps_to_inv: "http_inv s \<Longrightarrow> steps_to n i q s s' \<Longrightarrow> http_inv s'"
  by (auto simp: http_inv_def steps_to_def nearer_def split: if_splits)

lemma wp_execute_from:
  assumes "http_inv s" and "hs_reqs s i = Some q" and "account 1 1 p" and "rq_pool q = (rq_conn q = None)"
    and "rq_conn p = rq_conn q" and "rq_pool p = rq_pool q" and "rq_loop p = rq_loop q" and "rq_calls p = rq_calls q"
    and "Suc (2 * nat (rq_retry_number p - rq_retried p)) \<le> n"
  shows "wp (ExecuteInLoop V i (set_req i p s)) (steps_to n i q s)"
proof -
  have "owners_ok (set_req i p s)" by (rule owners_ok_cong [OF _ assms(2,5-7)]) (use assms(1) in \<open>simp add: http_inv_def\<close>)
  then have "wp (ExecuteInLoop V i (set_req i p s)) (steps_to (Suc (2 * nat (rq_retry_number p - rq_retried p))) i p (set_req i p s))"
    by (rule wp_ExecuteInLoop) (use assms in simp_all)
  then show ?thesis by (rule wp_mono) (rule steps_to_via [OF _ set_req_simps(1) assms(8,9)])
qed

text \<open>An event of a request that is executing brings it closer to the call of its handler.\<close>

lemma wp_run_execute:
  assumes "http_inv s" and "hs_reqs s i = Some q" and "rq_tasks q > 0"
  shows "wp (run_execute V i s) (steps_to (todo q) i q s)"
proof -
  have q: "req_ok q" using assms(1,2) by (simp add: http_inv_def)
  have "wp (ExecuteInLoop V i (set_req i (q\<lparr>rq_tasks := rq_tasks q - 1\<rparr>) s)) (steps_to (todo q) i q s)"
    by (rule wp_execute_from [OF assms(1,2)])
      (use q assms(3) in \<open>auto simp: req_ok_def account_def conn_state_def rq_pending_def todo_def\<close>)
  then show ?thesis using assms(2) by (simp add: run_execute_def)
qed

lemma wp_run_timer:
  assumes "http_inv s" and "hs_reqs s i = Some q" and "rq_timers q > 0"
  shows "wp (run_timer V i s) (steps_to (todo q) i q s)"
proof -
  have q: "req_ok q" using assms(1,2) by (simp add: http_inv_def)
  have "wp (ExecuteInLoop V i (set_req i (q\<lparr>rq_timers := rq_timers q - 1\<rparr>) s)) (steps_to (todo q) i q s)"
    by (rule wp_execute_from [OF assms(1,2)])
      (use q assms(3) in \<open>auto simp: req_ok_def account_def conn_state_def rq_pending_def todo_def\<close>)
  then show ?thesis using assms(2) by (simp add: run_timer_def)
qed

lemma wp_HandleResponse:
  assumes "http_inv s" and "hs_reqs s i = Some q" and "rq_inflight q > 0"
  shows "wp (HandleResponse V i r s) (steps_to (todo q) i q s)"
proof -
  define p where "p = q\<lparr>rq_inflight := rq_inflight q - 1\<rparr>"
  have q: "req_ok q" using assms(1,2) by (simp add: http_inv_def)
  have p: "rq_conn p \<noteq> None" "account 1 0 p" "rq_calls p = rq_calls q" "rq_retried p = rq_retried q" "rq_retry_number p = rq_retry_number q"
    "rq_retry_interval p = rq_retry_interval q" "2 * nat (rq_retry_number p - rq_retried p) = todo q"
    using q assms(3) by (auto simp: p_def req_ok_def account_def conn_state_def rq_pending_def todo_def)
  let ?s = "set_req i p s"
  have o: "owners_ok ?s" by (rule owners_ok_cong [OF _ assms(2)]) (use assms(1) in \<open>simp_all add: http_inv_def p_def\<close>)
  have r: "hs_reqs ?s i = Some p" "hs_reqs ?s = (hs_reqs s)(i \<mapsto> p)" by simp_all
  have fin: "wp (recycle i ?s \<bind> call_handler i r) (steps_to (todo q) i q s)"
  proof -
    define p1 where "p1 = (if rq_pool p then p\<lparr>rq_conn := None\<rparr> else p)"
    have p1: "account 1 0 p1" "\<not> rq_pool p1 \<longrightarrow> rq_conn p1 \<noteq> None" "rq_calls p1 = rq_calls q"
      using p by (auto simp: p1_def account_def rq_pending_def)
    from wp_recycle [OF o r(1) p(1)] obtain s1 where s1: "recycle i ?s = Some s1" "owners_ok s1" "hs_reqs s1 = (hs_reqs s)(i \<mapsto> p1)"
      by (auto simp: wp_def p1_def)
    have "wp (call_handler i r s1) (steps_to (todo q) i p1 s1)" by (rule wp_call_handler [OF s1(2) _ p1(1,2)]) (simp add: s1(3))
    then have "wp (call_handler i r s1) (steps_to (todo q) i q s)" by (rule wp_mono) (rule steps_to_via [OF _ s1(3) p1(3) order_refl])
    then show ?thesis using s1(1) by simp
  qed
  have again: "wp (prepare_retry i ?s \<bind> (\<lambda>s. if rq_retry_interval p = 0 then ExecuteInLoop V i s else set_timer i s)) (steps_to (todo q) i q s)"
    if "rq_retried p < rq_retry_number p"
  proof -
    have "wp (prepare_retry i ?s \<bind> (\<lambda>s. if rq_retry_interval p = 0 then ExecuteInLoop V i s else set_timer i s)) (steps_to (todo q) i p ?s)"
      unfolding p(7) [symmetric] by (rule wp_retry [OF o r(1) p(2,1) that]) (rule wp_ExecuteInLoop)
    then show ?thesis by (rule wp_mono) (rule steps_to_via [OF _ r(2) p(3) order_refl])
  qed
  show ?thesis
    unfolding HandleResponse_def assms(2) Option.bind.bind_lunit Let_def p_def [symmetric] using fin again by (simp del: wp_bind)
qed

subsection \<open>The other steps\<close>

lemma owners_new:
  assumes "owners_ok s" and "hs_reqs s i = None" and "rq_conn q = None"
  shows "owners_ok (set_req i q s)"
proof -
  have "held (set_req i q s) b = held s b" for b using assms(2,3) by (auto simp: held_def) (metis option.distinct(1))
  then show ?thesis using assms unfolding owners_defs by auto
qed

lemma distinct_pooled:
  assumes "map_ok P" and "\<And>l cs. map_find P l = Some cs \<Longrightarrow> distinct cs \<and> (\<forall>a \<in> set cs. f a = Some l)"
  shows "distinct (concat (map snd P))"
  using assms
proof (induction P)
  case (Cons p P)
  obtain l cs where p: "p = (l, cs)" by force
  have l: "\<forall>x \<in> fst ` set P. l < x" and ok: "map_ok P" using Cons.prems(1) by (simp_all add: p map_ok_Cons)
  have find: "map_find P k = Some ds \<Longrightarrow> map_find (p # P) k = Some ds" for k ds
    using l by (auto simp: p map_find_def dest!: map_of_SomeD)
  have "distinct (concat (map snd P))" by (rule Cons.IH [OF ok]) (use Cons.prems(2) find in blast)
  moreover have "f a = Some l" if "a \<in> set cs" for a using Cons.prems(2) [of l cs] that by (simp add: p map_find_def)
  moreover have "\<exists>k. k \<noteq> l \<and> f a = Some k" if "a \<in> set (concat (map snd P))" for a
  proof -
    obtain k ds where k: "(k, ds) \<in> set P" "a \<in> set ds" using \<open>a \<in> _\<close> by auto
    then have "map_find P k = Some ds" using map_ok_distinct [OF ok] by (simp add: map_find_def)
    then show ?thesis using Cons.prems(2) [OF find] k l by force
  qed
  moreover have "distinct cs" using Cons.prems(2) [of l cs] by (simp add: p map_find_def)
  ultimately show ?case by (fastforce simp: p)
qed simp

lemma owners_Clear:
  assumes "owners_ok s" and "\<And>i q. hs_reqs s i = Some q \<Longrightarrow> rq_pool q \<Longrightarrow> rq_conn q = None"
  shows "owners_ok (ConnPool_Clear s)"
proof -
  let ?as = "concat (map snd (cp_pool s))"
  have d: "distinct ?as"
    by (rule distinct_pooled [of _ "loop_of s"]) (use assms(1) in \<open>auto simp: owners_ok_def lists_ok_def\<close>)
  have a: "loop_of s a \<noteq> None \<and> \<not> held s a \<and> a \<notin> set (cp_closing s)" if "a \<in> set ?as" for a
  proof -
    obtain l cs where l: "(l, cs) \<in> set (cp_pool s)" "a \<in> set cs" using \<open>a \<in> _\<close> by auto
    have "map_ok (cp_pool s)" using assms(1) by (simp add: owners_ok_def lists_ok_def)
    from map_ok_distinct [OF this] l(1) have "map_find (cp_pool s) l = Some cs" by (simp add: map_find_def)
    from owners_okD(1) [OF assms(1) this l(2)] show ?thesis by simp
  qed
  have "closing_ok (ConnPool_Clear s)"
    using assms(1) d a unfolding owners_ok_def closing_ok_def ConnPool_Clear_def by (simp del: set_concat) (use a in blast)
  then show ?thesis using assms unfolding owners_ok_def lists_ok_def held_ok_def by (auto simp: ConnPool_Clear_def)
qed

lemma wp_run_closing:
  assumes "owners_ok s"
  shows "wp (run_closing s) (\<lambda>s'. owners_ok s' \<and> hs_reqs s' = hs_reqs s)"
proof (cases "cp_closing s")
  case Nil
  then show ?thesis using assms by (simp add: run_closing_def)
next
  case (Cons a as)
  then have a: "loop_of s a \<noteq> None" "\<not> held s a" using assms by (auto simp: owners_ok_def closing_ok_def)
  then obtain c where c: "hs_conns s a = Some c" by (auto simp: loop_of_def)
  let ?s = "s\<lparr>cp_closing := as, hs_conns := (hs_conns s)(a := None)\<rparr>"
  have l: "loop_of ?s b = (if b = a then None else loop_of s b)" and h: "held ?s b = held s b" for b
    by (simp_all add: loop_of_def held_def)
  have "lists_ok ?s" using assms Cons unfolding owners_ok_def lists_ok_def l h by auto
  moreover have "closing_ok ?s" using assms Cons unfolding owners_ok_def closing_ok_def l h by auto
  moreover have "held_ok ?s" using assms a unfolding owners_ok_def held_ok_def l by (auto simp: held_def)
  ultimately show ?thesis using Cons c by (simp add: run_closing_def Conn_Close_def owners_ok_def)
qed

lemma wp_Request_Execute:
  assumes "http_inv s" and "hs_reqs s i = Some q" and "rq_pending q = 0" and "rq_pool q \<longrightarrow> rq_conn q = None"
  shows "wp (Request_Execute inloop V i s) (steps_to (2 * nat (rq_retry_number q - rq_retried q) + 2) i q s)"
proof -
  let ?q = "q\<lparr>rq_started := Suc (rq_started q)\<rparr>" and ?p = "q\<lparr>rq_started := Suc (rq_started q), rq_tasks := Suc (rq_tasks q)\<rparr>"
  let ?n = "2 * nat (rq_retry_number q - rq_retried q) + 2"
  have q: "req_ok q" and o: "owners_ok s" using assms(1,2) by (simp_all add: http_inv_def)
  have "wp (ExecuteInLoop V i (set_req i ?q s)) (steps_to ?n i q s)"
    by (rule wp_execute_from [OF assms(1,2)])
      (use q assms(3,4) in \<open>auto simp: req_ok_def account_def conn_state_def rq_pending_def\<close>)
  moreover have "owners_ok (set_req i ?p s)" by (rule owners_ok_cong [OF o assms(2)]) simp_all
  moreover have "nearer ?n q ?p"
    using q assms(3,4) by (auto simp: nearer_def req_ok_def account_def conn_state_def rq_pending_def todo_def)
  ultimately show ?thesis using assms(2) by (auto simp: Request_Execute_def Let_def steps_to_def)
qed

lemma http_inv_set:
  assumes "http_inv s" and "owners_ok (set_req i q s')" and "req_ok q" and "hs_reqs s' = hs_reqs s"
  shows "http_inv (set_req i q s')"
  using assms by (auto simp: http_inv_def split: if_splits)

lemma http_step_inv:
  assumes i: "http_inv s" and e: "http_enabled op s"
  shows "wp (http_do op s) http_inv"
proof -
  have o: "owners_ok s" and ok: "\<And>i q. hs_reqs s i = Some q \<Longrightarrow> req_ok q" using i by (simp_all add: http_inv_def)
  have st: "wp m (steps_to n j q s) \<Longrightarrow> wp m http_inv" for m n j q by (erule wp_mono) (rule steps_to_inv [OF i])
  show ?thesis
  proof (cases op)
    case (HttpNew j l uri body)
    let ?q = "Request_new_pool l uri body s"
    have "req_ok ?q" by (simp add: Request_new_pool_def req_ok_def account_def conn_state_def rq_pending_def)
    moreover have "owners_ok (set_req j ?q s)" by (rule owners_new [OF o]) (use e HttpNew in \<open>simp_all add: Request_new_pool_def\<close>)
    ultimately show ?thesis using http_inv_set [OF i] HttpNew by simp
  next
    case (HttpNewUrl j l path query h p body)
    obtain a s' where al: "alloc_conn (Conn_new l h (if p < 0 then 80 else p)) s = (a, s')" by fastforce
    note new = owners_alloc [OF o al]
    obtain q where q: "Request_new_url l path query h p body s = (q, s')" "rq_conn q = Some a" "rq_loop q = l" "\<not> rq_pool q" "req_ok q"
      using al by (auto simp: Request_new_url_def Let_def req_ok_def account_def conn_state_def rq_pending_def split: option.splits)
    have "owners_ok (set_req j q s')"
      by (rule owners_take [OF new(1) _ q(2) new(2-4)]) (use e HttpNewUrl new q in \<open>auto simp: Conn_new_def\<close>)
    from http_inv_set [OF i this q(5) new(6)] q(1) HttpNewUrl show ?thesis by simp
  next
    case (HttpHeader j k v)
    then obtain q where q: "hs_reqs s j = Some q" using e by (auto split: option.splits)
    have "owners_ok (set_req j (AddHeader k v q) s)" by (rule owners_ok_cong [OF o q]) (simp_all add: AddHeader_def)
    moreover have "req_ok (AddHeader k v q)" using ok [OF q] by (simp add: AddHeader_def req_ok_def account_def conn_state_def rq_pending_def)
    ultimately show ?thesis using http_inv_set [OF i] HttpHeader q by simp
  next
    case (HttpSet j n d)
    then obtain q where q: "hs_reqs s j = Some q" "rq_started q = 0" using e by (auto split: option.splits)
    let ?q = "set_retry_interval d (set_retry_number n q)"
    have "owners_ok (set_req j ?q s)" by (rule owners_ok_cong [OF o q(1)]) (simp_all add: set_retry_interval_def set_retry_number_def)
    moreover have "req_ok ?q"
      using ok [OF q(1)] q(2) by (auto simp: set_retry_interval_def set_retry_number_def req_ok_def account_def conn_state_def rq_pending_def)
    ultimately show ?thesis using http_inv_set [OF i] HttpSet q by simp
  next
    case HttpClear
    then show ?thesis using owners_Clear [OF o] e ok by (auto simp: http_inv_def ConnPool_Clear_def)
  next
    case HttpClosing
    then show ?thesis using wp_run_closing [OF o] ok by (auto simp: http_inv_def wp_def)
  next
    case (HttpExecute j inloop V)
    then obtain q where "hs_reqs s j = Some q" "rq_pending q = 0" "rq_pool q \<longrightarrow> rq_conn q = None" using e by (auto split: option.splits)
    from st [OF wp_Request_Execute [OF i this]] HttpExecute show ?thesis by simp
  next
    case (HttpRun j V)
    then obtain q where "hs_reqs s j = Some q" "rq_tasks q > 0" using e by (auto split: option.splits)
    from st [OF wp_run_execute [OF i this]] HttpRun show ?thesis by simp
  next
    case (HttpTimer j V)
    then obtain q where "hs_reqs s j = Some q" "rq_timers q > 0" using e by (auto split: option.splits)
    from st [OF wp_run_timer [OF i this]] HttpTimer show ?thesis by simp
  next
    case (HttpRespond j V r)
    then obtain q where "hs_reqs s j = Some q" "rq_inflight q > 0" using e by (auto split: option.splits)
    from st [OF wp_HandleResponse [OF i this]] HttpRespond show ?thesis by simp
  qed
qed

definition http_init :: "http_state \<Rightarrow> bool" where
  "http_init s \<longleftrightarrow> (\<exists>h p n. s = ConnPool_new h p n)"

lemma http_init_inv: "http_init s \<Longrightarrow> http_inv s"
  by (auto simp: http_init_def ConnPool_new_def http_inv_def owners_defs held_def)

interpretation http: guarded_steps http_init http_enabled http_do http_inv
  by unfold_locales (auto intro: http_init_inv http_step_inv)

section \<open>Properties\<close>

text \<open>C21. In every state the HTTP client can reach, whatever libevent answers: each call of \<open>Execute\<close> has had its
  handler called exactly once or has exactly one event pending; a request makes at most one attempt per call and
  \<open>retry_number_\<close> more; no two requests use the same connection, no connection in use is in the pool, and no
  list of the pool is longer than its maximum. No step fails an assertion.\<close>

theorem HttpClient_safe:
  assumes "reachable http_init http_enabled http_do s"
  shows "(\<forall>i q. hs_reqs s i = Some q \<longrightarrow> rq_started q = length (rq_calls q) + rq_pending q \<and> rq_pending q \<le> 1 \<and>
      int (rq_attempts q) \<le> int (rq_started q) + max 0 (rq_retry_number q)) \<and>
    (\<forall>i j q p a. hs_reqs s i = Some q \<and> hs_reqs s j = Some p \<and> rq_conn q = Some a \<and> rq_conn p = Some a \<longrightarrow> i = j) \<and>
    (\<forall>i q a l cs. hs_reqs s i = Some q \<and> rq_conn q = Some a \<and> map_find (cp_pool s) l = Some cs \<longrightarrow> a \<notin> set cs) \<and>
    (\<forall>l cs. map_find (cp_pool s) l = Some cs \<longrightarrow> length cs \<le> cp_max s) \<and>
    (\<forall>op. http_enabled op s \<longrightarrow> http_do op s \<noteq> None)"
proof -
  have i: "http_inv s" by (rule http.reachable_inv [OF assms])
  then have o: "owners_ok s" and r: "\<And>i q. hs_reqs s i = Some q \<Longrightarrow> req_ok q" by (simp_all add: http_inv_def)
  have "\<forall>i q. hs_reqs s i = Some q \<longrightarrow> rq_started q = length (rq_calls q) + rq_pending q \<and> rq_pending q \<le> 1 \<and>
      int (rq_attempts q) \<le> int (rq_started q) + max 0 (rq_retry_number q)"
    using r by (fastforce simp: req_ok_def account_def)
  moreover have "\<forall>i j q p a. hs_reqs s i = Some q \<and> hs_reqs s j = Some p \<and> rq_conn q = Some a \<and> rq_conn p = Some a \<longrightarrow> i = j"
    using o unfolding owners_ok_def held_ok_def by blast
  moreover have "\<forall>i q a l cs. hs_reqs s i = Some q \<and> rq_conn q = Some a \<and> map_find (cp_pool s) l = Some cs \<longrightarrow> a \<notin> set cs"
    using o unfolding owners_ok_def lists_ok_def held_def by blast
  moreover have "\<forall>l cs. map_find (cp_pool s) l = Some cs \<longrightarrow> length cs \<le> cp_max s"
    using o unfolding owners_ok_def lists_ok_def by blast
  moreover have "\<forall>op. http_enabled op s \<longrightarrow> http_do op s \<noteq> None" using http.no_failure [OF assms] by blast
  ultimately show ?thesis by blast
qed

text \<open>The pending event of a request happens; \<open>V\<close> and \<open>r\<close> say what libevent answers.\<close>

definition http_event :: "(int \<Rightarrow> http_env) \<Rightarrow> int option \<Rightarrow> nat \<Rightarrow> http_state \<Rightarrow> http_state option" where
  "http_event V r i s = do {
     q \<leftarrow> hs_reqs s i;
     (if rq_tasks q > 0 then run_execute V i s
      else if rq_timers q > 0 then run_timer V i s
      else if rq_inflight q > 0 then HandleResponse V i r s
      else Some s) }"

fun http_drive :: "(nat \<Rightarrow> int \<Rightarrow> http_env) \<Rightarrow> (nat \<Rightarrow> int option) \<Rightarrow> nat \<Rightarrow> nat \<Rightarrow> http_state \<Rightarrow> http_state option" where
  "http_drive V r 0 i s = Some s"
| "http_drive V r (Suc n) i s = do { s \<leftarrow> http_event (V n) (r n) i s; http_drive V r n i s }"

lemma wp_http_event:
  assumes "http_inv s" and "hs_reqs s i = Some q" and "rq_pending q = 1"
  shows "wp (http_event V r i s) (steps_to (todo q) i q s)"
  using assms(2,3) wp_run_execute [OF assms(1,2)] wp_run_timer [OF assms(1,2)] wp_HandleResponse [OF assms(1,2)]
  by (auto simp: http_event_def rq_pending_def)

lemma http_drive_idle: "hs_reqs s i = Some q \<Longrightarrow> rq_pending q = 0 \<Longrightarrow> http_drive V r n i s = Some s"
  by (induction n) (simp_all add: http_event_def rq_pending_def)

lemma wp_http_drive:
  assumes "http_inv s" and "hs_reqs s i = Some q" and "rq_pending q = 1" and "todo q < n"
  shows "wp (http_drive V r n i s) (\<lambda>s'. \<exists>q' x. hs_reqs s' i = Some q' \<and> rq_pending q' = 0 \<and> rq_calls q' = rq_calls q @ [x])"
  using assms
proof (induction n arbitrary: s q)
  case (Suc n)
  from wp_http_event [OF Suc.prems(1-3), of "V n" "r n"] obtain s1 where s1: "http_event (V n) (r n) i s = Some s1" "steps_to (todo q) i q s s1"
    by (auto simp: wp_def)
  then obtain p where p: "hs_reqs s1 i = Some p" "nearer (todo q) q p" by (auto simp: steps_to_def)
  have i1: "http_inv s1" by (rule steps_to_inv [OF Suc.prems(1) s1(2)])
  show ?case
  proof (cases "rq_pending p = 0")
    case True
    then show ?thesis using p s1(1) http_drive_idle [OF p(1) True] by (auto simp: nearer_def)
  next
    case False
    then have "rq_calls p = rq_calls q" "rq_pending p = 1" "todo p < n" using p(2) Suc.prems(4) by (auto simp: nearer_def)
    then show ?thesis using Suc.IH [OF i1 p(1)] s1(1) by simp
  qed
qed simp

text \<open>C22. Every request is answered: while one is pending, at most twice as many events as it has retries left, and two
  more, lead to the call of its handler, whatever libevent answers to the attempts and however the responses
  turn out.\<close>

theorem HttpClient_answers:
  assumes "reachable http_init http_enabled http_do s" and "hs_reqs s i = Some q" and "rq_pending q = 1"
  shows "wp (http_drive V r (2 * nat (rq_retry_number q - rq_retried q) + 2) i s)
    (\<lambda>s'. \<exists>q' x. hs_reqs s' i = Some q' \<and> rq_pending q' = 0 \<and> rq_calls q' = rq_calls q @ [x])"
  by (rule wp_http_drive [OF http.reachable_inv [OF assms(1)] assms(2,3)])
    (use assms(3) in \<open>simp add: todo_def rq_pending_def\<close>)

text \<open>A request of the pool whose last attempt fails at once calls its handler but keeps the connection, which does
  not return to the pool; executing the request again fails an assertion, whereas after a failed response it can be
  executed again.\<close>

theorem HttpClient_failed_keeps_connection:
  assumes "reachable http_init http_enabled http_do s" and "hs_reqs s i = Some q" and "rq_pool q" and "rq_tasks q > 0"
    and "rq_retry_number q \<le> rq_retried q" and "\<not> evhttp_make_request_ok (V (rq_retried q))"
  shows "wp (run_execute V i s) (\<lambda>s'. \<exists>q'. hs_reqs s' i = Some q' \<and> rq_pending q' = 0 \<and> rq_conn q' \<noteq> None \<and>
    Request_Execute True W i s' = None)"
proof -
  have i: "http_inv s" by (rule http.reachable_inv [OF assms(1)])
  then have q: "req_ok q" and o: "owners_ok s" using assms(2) by (simp_all add: http_inv_def)
  let ?p = "q\<lparr>rq_tasks := rq_tasks q - 1\<rparr>"
  have "owners_ok (set_req i ?p s)" by (rule owners_ok_cong [OF o assms(2)]) simp_all
  moreover have "rq_pool ?p = (rq_conn ?p = None)" using q assms(3,4) by (simp add: req_ok_def conn_state_def)
  ultimately have "wp (attempt (V (rq_retried q)) i (set_req i ?p s)) (\<lambda>(ok, s'). owners_ok s' \<and> (\<exists>a. hs_reqs s' = (hs_reqs s)(i \<mapsto> attempted ok a ?p)))"
    using wp_attempt [of "set_req i ?p s" i ?p] by simp
  then obtain ok s1 a where s1: "attempt (V (rq_retried q)) i (set_req i ?p s) = Some (ok, s1)" "hs_reqs s1 i = Some (attempted ok a ?p)"
    by (auto simp: wp_def)
  have nok: "\<not> ok" using s1(1) assms(6) by (auto simp: attempt_def make_request_def Let_def split: bind_splits if_splits)
  let ?q = "(attempted False a ?p)\<lparr>rq_calls := rq_calls q @ [Response_new None]\<rparr>"
  have "run_execute V i s = Some (set_req i ?q s1)"
    using assms(2,5) s1 nok ExecuteInLoop.simps [of V i "set_req i ?p s"] by (simp add: run_execute_def call_handler_def attempted_def)
  moreover have "rq_pending ?q = 0" using q assms(4) by (auto simp: req_ok_def account_def rq_pending_def attempted_def)
  moreover have "Request_Execute True W i (set_req i ?q s1) = None"
    using assms(3) ExecuteInLoop.simps [of W i "set_req i (?q\<lparr>rq_started := Suc (rq_started ?q)\<rparr>) s1"]
    by (simp add: Request_Execute_def Let_def attempt_def obtain_conn_def attempted_def assert_that_def)
  ultimately show ?thesis by (simp add: attempted_def)
qed

text \<open>Clearing the pool while a request of it is in flight makes the response fail an assertion of \<open>Put\<close>.\<close>

lemma HttpClient_Clear_in_flight:
  assumes "hs_reqs s i = Some q" and "rq_pool q" and "rq_conn q \<noteq> None"
  shows "HandleResponse V i r (ConnPool_Clear s) = None"
proof -
  have "recycle i (set_req i p (ConnPool_Clear s)) = None" if "rq_pool p" "rq_conn p \<noteq> None" for p
    using that by (auto simp: recycle_def ConnPool_Put_def ConnPool_Clear_def split: bind_splits)
  then show ?thesis using assms by (auto simp: HandleResponse_def prepare_retry_def ConnPool_Clear_def Let_def split: bind_splits)
qed

section \<open>A run\<close>

lemma ExecuteInLoop_made:
  "hs_reqs s i = Some q \<Longrightarrow> attempt (V (rq_retried q)) i s = Some (True, s1) \<Longrightarrow> ExecuteInLoop V i s = Some s1"
  using ExecuteInLoop.simps [of V i s] by simp

definition answering :: "int \<Rightarrow> http_env" where
  "answering n = \<lparr>evhttp_connection_new_ok = True, evhttp_request_new_ok = True, evhttp_add_header_ok = (\<lambda>_ _. True),
     evbuffer_add_ok = True, evhttp_make_request_ok = True\<rparr>"

definition refusing :: "int \<Rightarrow> http_env" where
  "refusing n = answering n\<lparr>evhttp_make_request_ok := False\<rparr>"

text \<open>Two requests are queued, the second one without retries; then the first one is in flight.\<close>

definition sample_requests :: "http_op list" where
  "sample_requests = [HttpNew 0 5 ''/a'' [], HttpExecute 0 False answering, HttpNew 1 5 ''/b'' ''body'', HttpSet 1 0 0, HttpExecute 1 False answering]"

lemmas http_run_defs = ConnPool_new_def Request_new_pool_def set_req_def set_retry_number_def set_retry_interval_def Request_Execute_def
  rq_pending_def run_execute_def ExecuteInLoop_made attempt_def obtain_conn_def ConnPool_Get_def alloc_conn_def Conn_new_def
  Conn_Init_def make_request_def answering_def map_find_def Let_def

lemma sample_requests_run:
  "wp (run_steps http_enabled http_do sample_requests (ConnPool_new ''h'' 80 4)) (\<lambda>s. \<exists>q p. hs_reqs s 0 = Some q \<and> rq_pending q = 1 \<and>
     rq_retry_number q = 2 \<and> rq_retried q = 0 \<and> rq_calls q = [] \<and>
     hs_reqs s 1 = Some p \<and> rq_pool p \<and> rq_tasks p = 1 \<and> rq_retry_number p = 0 \<and> rq_retried p = 0)"
  by (simp add: sample_requests_def http_run_defs)

lemma sample_flight_run:
  "wp (run_steps http_enabled http_do (sample_requests @ [HttpRun 0 answering, HttpRun 1 answering]) (ConnPool_new ''h'' 80 4))
    (\<lambda>s. \<exists>q p. hs_reqs s 0 = Some q \<and> hs_reqs s 1 = Some p \<and> rq_conn q \<noteq> None \<and> rq_conn p \<noteq> None)"
  by (simp add: sample_requests_def http_run_defs)

lemma sample_http_init: "http_init (ConnPool_new ''h'' 80 4)"
  by (auto simp: http_init_def)

theorem HttpClient_safe_witness:
  "\<exists>s q p. reachable http_init http_enabled http_do s \<and> hs_reqs s 0 = Some q \<and> hs_reqs s 1 = Some p \<and> rq_conn q \<noteq> None \<and>
     rq_conn p \<noteq> None \<and> rq_conn q \<noteq> rq_conn p"
proof -
  obtain s q p where s: "reachable http_init http_enabled http_do s" "hs_reqs s 0 = Some q" "hs_reqs s 1 = Some p" "rq_conn q \<noteq> None"
      "rq_conn p \<noteq> None"
    using wp_run_steps_reachable [where init = http_init, OF sample_flight_run sample_http_init] by blast
  from HttpClient_safe [OF s(1)] have "\<forall>i j q p a. hs_reqs s i = Some q \<and> hs_reqs s j = Some p \<and> rq_conn q = Some a \<and> rq_conn p = Some a \<longrightarrow> i = j"
    by blast
  with s(2-5) have "rq_conn q \<noteq> rq_conn p" by (metis option.exhaust zero_neq_one)
  with s show ?thesis by blast
qed

theorem HttpClient_answers_witness:
  "\<exists>s q. reachable http_init http_enabled http_do s \<and> hs_reqs s 0 = Some q \<and> rq_calls q = [] \<and>
     wp (http_drive (\<lambda>_. answering) (\<lambda>_. Some 503) 6 0 s) (\<lambda>s'. \<exists>q' x. hs_reqs s' 0 = Some q' \<and> rq_pending q' = 0 \<and> rq_calls q' = [] @ [x])"
proof -
  obtain s q where s: "reachable http_init http_enabled http_do s" "hs_reqs s 0 = Some q" "rq_pending q = 1" "rq_retry_number q = 2"
      "rq_retried q = 0" "rq_calls q = []"
    using wp_run_steps_reachable [where init = http_init, OF sample_requests_run sample_http_init] by blast
  from HttpClient_answers [OF s(1-3), of "\<lambda>_. answering" "\<lambda>_. Some 503"] s show ?thesis by (intro exI [of _ s] exI [of _ q]) simp
qed

theorem HttpClient_failed_keeps_connection_witness:
  "\<exists>s. reachable http_init http_enabled http_do s \<and>
     wp (run_execute refusing 1 s) (\<lambda>s'. \<exists>q'. hs_reqs s' 1 = Some q' \<and> rq_pending q' = 0 \<and> rq_conn q' \<noteq> None \<and>
       Request_Execute True answering 1 s' = None)"
proof -
  obtain s p where s: "reachable http_init http_enabled http_do s" "hs_reqs s 1 = Some p" "rq_pool p" "rq_tasks p = 1"
      "rq_retry_number p = 0" "rq_retried p = 0"
    using wp_run_steps_reachable [where init = http_init, OF sample_requests_run sample_http_init] by blast
  have "wp (run_execute refusing 1 s) (\<lambda>s'. \<exists>q'. hs_reqs s' 1 = Some q' \<and> rq_pending q' = 0 \<and> rq_conn q' \<noteq> None \<and>
       Request_Execute True answering 1 s' = None)"
    by (rule HttpClient_failed_keeps_connection [OF s(1-3)]) (use s in \<open>simp_all add: refusing_def answering_def\<close>)
  with s(1) show ?thesis by blast
qed

end
