(* ===== verification/HttpText.thy ===== *)
theory HttpText
  imports CString StdMap "HOL-Library.List_Lexorder" "HOL-Library.Char_ord"
begin

text \<open>
  The texts of evpp's HTTP parts: \<open>StringSplit\<close> (\<open>thirdpartlibs/evpp/evpp/utility.h\<close>), the query of a URI and the
  request context (\<open>http/context.h\<close>, \<open>http/context.cc\<close>), the choice of the handler and of the reply
  (\<open>http/service.cc\<close>), and the URL parser of the client (\<open>httpc/url_parser.cc\<close>).

  \<open>FindQueryFromURI\<close> walks over a C string with pointers: its memory is the string and the zero behind it, a
  pointer is an offset, and reading elsewhere is a fault (\<open>None\<close>). Its counterpart is the plain
  description: split the query at the ampersands and take the first part that begins with the key and
  an equality sign.
\<close>

section \<open>Splitting\<close>

text \<open>The reference: a string cut at every delimiter.\<close>

fun split_at :: "(char \<Rightarrow> bool) \<Rightarrow> string \<Rightarrow> string list" where
  "split_at P [] = [[]]"
| "split_at P (c # s) = (if P c then [] # split_at P s else (case split_at P s of x # xs \<Rightarrow> (c # x) # xs | [] \<Rightarrow> [[c]]))"

definition find_first_of :: "char list \<Rightarrow> string \<Rightarrow> nat \<Rightarrow> nat option" where
  "find_first_of delims str start =
     (let n = length (takeWhile (\<lambda>c. c \<notin> set delims) (drop start str))
      in if start + n < length str then Some (start + n) else None)"

text \<open>The loop of \<open>StringSplit\<close>; \<open>numSplits\<close> is counted up as in the code.\<close>

function split_loop :: "string \<Rightarrow> char list \<Rightarrow> nat \<Rightarrow> nat \<Rightarrow> nat \<Rightarrow> string list" where
  "split_loop str delims maxSplits start numSplits =
     (case find_first_of delims str start of
        Some pos \<Rightarrow>
          if pos = start then [] # split_loop str delims maxSplits (pos + 1) (numSplits + 1)
          else if maxSplits \<noteq> 0 \<and> numSplits + 1 = maxSplits then [drop start str]
          else take (pos - start) (drop start str) # split_loop str delims maxSplits (pos + 1) (numSplits + 1)
      | None \<Rightarrow> [drop start str])"
  by pat_completeness auto
termination
  by (relation "measure (\<lambda>(str, delims, maxSplits, start, numSplits). length str - start)")
    (auto simp: find_first_of_def Let_def split: if_splits)

declare split_loop.simps [simp del]

definition StringSplit :: "string \<Rightarrow> char list \<Rightarrow> nat \<Rightarrow> string list" where
  "StringSplit str delims maxSplits = (if str = [] then [] else split_loop str delims maxSplits 0 0)"

section \<open>The query of a URI\<close>

definition nul :: char where "nul = CHR 0x00"

definition cmem :: "string \<Rightarrow> string" where
  "cmem s = s @ [nul]"

definition peek :: "string \<Rightarrow> nat \<Rightarrow> char option" where
  "peek m p = (if p < length m then Some (m ! p) else None)"

text \<open>\<open>strchr\<close> looks up to the next zero, which has to be there. \<open>c_str_at\<close> is the C string at a pointer.\<close>

definition c_str_at :: "string \<Rightarrow> nat \<Rightarrow> string option" where
  "c_str_at m p = (if nul \<in> set (drop p m) then Some (takeWhile (\<lambda>c. c \<noteq> nul) (drop p m)) else None)"

definition strchr :: "string \<Rightarrow> nat \<Rightarrow> char \<Rightarrow> nat option option" where
  "strchr m p c = do { s \<leftarrow> c_str_at m p; Some (map_option (\<lambda>i. p + i) (find_char c s)) }"

text \<open>The inner loop: how far the key agrees with the text.\<close>

fun key_match :: "string \<Rightarrow> nat \<Rightarrow> string \<Rightarrow> nat \<Rightarrow> nat option" where
  "key_match m p [] index = Some index"
| "key_match m p (k # ks) index = do {
     c \<leftarrow> peek m (p + index);
     if c \<noteq> k then Some index else key_match m p ks (index + 1) }"

lemma strchr_bound: "strchr m p c = Some (Some q) \<Longrightarrow> p \<le> q \<and> q < length m"
proof -
  have "find_char c s = Some i \<Longrightarrow> i < length s" for s i by (induction s arbitrary: i) (auto split: if_splits)
  then show "strchr m p c = Some (Some q) \<Longrightarrow> p \<le> q \<and> q < length m"
    using length_takeWhile_le [of "\<lambda>c. c \<noteq> nul" "drop p m"]
    by (fastforce simp: strchr_def c_str_at_def split: bind_splits if_splits)
qed

function find_query :: "string \<Rightarrow> nat \<Rightarrow> string \<Rightarrow> nat \<Rightarrow> string option" where
  "find_query m uri_len key p =
     (if \<not> p < uri_len then Some []
      else do {
        index \<leftarrow> key_match m p key 0;
        found \<leftarrow> (if index = length key then do { c \<leftarrow> peek m (p + length key); Some (c = CHR ''='') } else Some False);
        if found then do {
          let v = p + length key + 1;
          e \<leftarrow> strchr m v (CHR ''&'');
          (case e of
             None \<Rightarrow> c_str_at m v
           | Some e \<Rightarrow> Some (take (e - v) (drop v m))) }
        else do {
          q \<leftarrow> strchr m (p + index) (CHR ''&'');
          (case q of
             None \<Rightarrow> Some []
           | Some q \<Rightarrow> find_query m uri_len key (q + 1)) } })"
  by pat_completeness auto
termination
  by (relation "measure (\<lambda>(m, uri_len, key, p). length m - p)") (auto dest!: strchr_bound)

declare find_query.simps [simp del]

definition FindQueryFromURI :: "string \<Rightarrow> string \<Rightarrow> string option" where
  "FindQueryFromURI uri key = do {
     start \<leftarrow> strchr (cmem uri) 0 (CHR ''?'');
     (case start of
        None \<Rightarrow> Some []
      | Some start \<Rightarrow> find_query (cmem uri) (length uri) key (start + 1)) }"

definition FindClientIPFromURI :: "string \<Rightarrow> string option" where
  "FindClientIPFromURI uri = FindQueryFromURI uri ''clientip''"

text \<open>The reference.\<close>

definition query_value :: "string \<Rightarrow> string \<Rightarrow> string" where
  "query_value uri key =
     (case dropWhile (\<lambda>c. c \<noteq> CHR ''?'') uri of
        [] \<Rightarrow> []
      | _ # q \<Rightarrow>
          (case find (is_prefix (key @ ''='')) (split_at (\<lambda>c. c = CHR ''&'') q) of
             None \<Rightarrow> []
           | Some x \<Rightarrow> drop (length key + 1) x))"

section \<open>Lemmas\<close>

lemma split_at_none: "\<forall>c \<in> set x. \<not> P c \<Longrightarrow> split_at P x = [x]"
  by (induction x) simp_all

lemma split_at_delim: "\<forall>c \<in> set x. \<not> P c \<Longrightarrow> P d \<Longrightarrow> split_at P (x @ d # y) = x # split_at P y"
  by (induction x) simp_all

text \<open>The first piece of a string and what follows it.\<close>

lemma first_piece:
  obtains (only) "\<forall>c \<in> set r. \<not> P c" | (more) x d y where "r = x @ d # y" and "\<forall>c \<in> set x. \<not> P c" and "P d"
proof (cases "dropWhile (\<lambda>c. \<not> P c) r")
  case Nil
  then show ?thesis using only by (simp add: dropWhile_eq_Nil_conv)
next
  case (Cons d y)
  then have "P d" using hd_dropWhile [of "\<lambda>c. \<not> P c" r] by simp
  moreover have "r = takeWhile (\<lambda>c. \<not> P c) r @ d # y" using takeWhile_dropWhile_id [of "\<lambda>c. \<not> P c" r] Cons by simp
  moreover have "\<forall>c \<in> set (takeWhile (\<lambda>c. \<not> P c) r). \<not> P c" by (auto dest: set_takeWhileD)
  ultimately show ?thesis using more by blast
qed

lemma split_loop_split:
  assumes "start \<le> length str"
  shows "split_loop str delims 0 start n = split_at (\<lambda>c. c \<in> set delims) (drop start str)"
  using assms
proof (induction "length str - start" arbitrary: start n rule: less_induct)
  case less
  let ?P = "\<lambda>c. c \<in> set delims"
  show ?case
  proof (rule first_piece [of "drop start str" ?P])
    assume o: "\<forall>c \<in> set (drop start str). \<not> ?P c"
    have tw: "takeWhile (\<lambda>c. c \<notin> set delims) (drop start str) = drop start str" by (rule takeWhile_eq_all_conv [THEN iffD2, OF o])
    have "find_first_of delims str start = None" using less.prems by (simp add: find_first_of_def Let_def tw)
    then show ?thesis using o by (simp add: split_loop.simps split_at_none)
  next
    fix x d y
    assume r: "drop start str = x @ d # y" "\<forall>c \<in> set x. \<not> ?P c" "?P d"
    then have "takeWhile (\<lambda>c. c \<notin> set delims) (drop start str) = x" by (simp add: takeWhile_append1 takeWhile_append2)
    moreover have l: "length str - start = length x + Suc (length y)" using arg_cong [OF r(1), of length] by simp
    ultimately have f: "find_first_of delims str start = Some (start + length x)" using less.prems by (simp add: find_first_of_def Let_def)
    have "drop (Suc (start + length x)) str = drop (Suc (length x)) (drop start str)" by (simp add: add.commute)
    then have y: "drop (Suc (start + length x)) str = y" using r(1) by simp
    have "split_loop str delims 0 (Suc (start + length x)) (Suc n) = split_at ?P y"
      using less.hyps [of "Suc (start + length x)" "Suc n"] l y by simp
    then show ?thesis
      using f r(1) unfolding split_loop.simps [of str delims 0 start n] by (cases "x = []") (simp_all add: split_at_delim r(2,3))
  qed
qed

lemma StringSplit_split: "str \<noteq> [] \<Longrightarrow> StringSplit str delims 0 = split_at (\<lambda>c. c \<in> set delims) str"
  by (simp add: StringSplit_def split_loop_split)

subsection \<open>Searching the query\<close>

fun common :: "string \<Rightarrow> string \<Rightarrow> nat" where
  "common (k # ks) (c # cs) = (if k = c then Suc (common ks cs) else 0)"
| "common _ _ = 0"

lemma common_le: "common ks cs \<le> length ks" "common ks cs \<le> length cs"
  by (induction ks cs rule: common.induct) auto

lemma common_prefix: "common ks cs = length ks \<longleftrightarrow> is_prefix ks cs"
  by (induction ks cs rule: common.induct) (auto simp: is_prefix_iff)

lemma key_match_common:
  assumes "nul \<in> set (drop (p + i) m)" and "nul \<notin> set ks"
  shows "key_match m p ks i = Some (i + common ks (drop (p + i) m))"
  using assms
proof (induction ks arbitrary: i)
  case (Cons k ks)
  then obtain c cs where d: "drop (p + i) m = c # cs" by (cases "drop (p + i) m") auto
  then have l: "p + i < length m" by (metis drop_all leI list.distinct(1))
  then have c: "peek m (p + i) = Some c" using d nth_via_drop [of "p + i" m c cs] by (simp add: peek_def)
  have cs: "drop (p + Suc i) m = cs" using d by (metis add_Suc_right drop_Suc list.sel(3) tl_drop)
  show ?case using Cons c cs d by (auto simp: add_Suc_right)
qed simp

text \<open>Where a piece of the query stands in memory.\<close>

lemma c_str_cmem: "nul \<notin> set uri \<Longrightarrow> p \<le> length uri \<Longrightarrow> c_str_at (cmem uri) p = Some (drop p uri)"
  unfolding c_str_at_def cmem_def by (auto simp: takeWhile_append in_set_dropD dest: in_set_dropD)

lemma strchr_cmem:
  "nul \<notin> set uri \<Longrightarrow> p \<le> length uri \<Longrightarrow> strchr (cmem uri) p c = Some (map_option (\<lambda>i. p + i) (find_char c (drop p uri)))"
  by (simp add: strchr_def c_str_cmem)

lemma common_piece:
  assumes "CHR ''&'' \<notin> set key" and "nul \<notin> set key" and "rest = [] \<or> hd rest = CHR ''&''"
  shows "common key (x @ rest @ [nul]) = common key x"
  using assms
proof (induction key arbitrary: x)
  case (Cons k key)
  then show ?case by (cases x; cases rest) auto
qed simp

lemma prefix_piece:
  assumes "is_prefix key x"
  shows "is_prefix (key @ ''='') x \<longleftrightarrow> (\<exists>y. drop (length key) x = CHR ''='' # y)"
  using assms by (auto simp: is_prefix_iff)

text \<open>The part of the query from one pointer to the next ampersand.\<close>

definition pick :: "string \<Rightarrow> string list \<Rightarrow> string" where
  "pick key xs = (case find (is_prefix (key @ ''='')) xs of None \<Rightarrow> [] | Some x \<Rightarrow> drop (length key + 1) x)"

lemma find_query_piece:
  assumes "nul \<notin> set uri" and "nul \<notin> set key" and "CHR ''&'' \<notin> set key" and "p < length uri" and "drop p uri = x @ rest"
    and "CHR ''&'' \<notin> set x" and "rest = [] \<or> hd rest = CHR ''&''"
  shows "find_query (cmem uri) (length uri) key p =
    (if is_prefix (key @ ''='') x then Some (drop (length key + 1) x)
     else if rest = [] then Some [] else find_query (cmem uri) (length uri) key (p + length x + 1))"
proof -
  define n where "n = common key x"
  have dm: "drop p (cmem uri) = x @ rest @ [nul]" using assms(4,5) by (simp add: cmem_def)
  have km: "key_match (cmem uri) p key 0 = Some n"
    using key_match_common [of p 0 "cmem uri" key] assms(2) common_piece [OF assms(3,2,7)] dm by (simp add: n_def)
  have n: "n \<le> length x" "n = length key \<longleftrightarrow> is_prefix key x" using common_le common_prefix by (auto simp: n_def)
  have lx: "p + length x \<le> length uri" using arg_cong [OF assms(5), of length] assms(4) by simp
  have dx: "drop (p + k) uri = drop k x @ rest" if "k \<le> length x" for k
    using that assms(5) by (metis add.commute drop_append drop_drop diff_is_0_eq drop0)
  have amp: "find_char (CHR ''&'') (drop k x @ rest) = (if rest = [] then None else Some (length x - k))" if "k \<le> length x" for k
  proof (cases rest)
    case Nil
    then show ?thesis using assms(6) by (auto simp: find_char_None dest: in_set_dropD)
  next
    case (Cons c cs)
    then have "c = CHR ''&''" using assms(7) by simp
    moreover have "CHR ''&'' \<notin> set (drop k x)" using assms(6) by (auto dest: in_set_dropD)
    ultimately show ?thesis using Cons find_char_append [of "CHR ''&''" "drop k x" cs] by simp
  qed
  have sc: "strchr (cmem uri) (p + k) (CHR ''&'') = Some (if rest = [] then None else Some (p + length x))" if "k \<le> length x" for k
    using strchr_cmem [OF assms(1), of "p + k"] lx that by (simp add: dx amp)
  have skip: "find_query (cmem uri) (length uri) key p = (if rest = [] then Some [] else find_query (cmem uri) (length uri) key (p + length x + 1))"
    if "\<not> (n = length key \<and> peek (cmem uri) (p + length key) = Some (CHR ''=''))" and "n = length key \<Longrightarrow> peek (cmem uri) (p + length key) \<noteq> None"
    using that assms(4) km sc [OF n(1)] by (auto simp: find_query.simps [of _ _ _ p] split: if_splits)
  have pk: "peek (cmem uri) (p + length key) = Some ((drop (length key) x @ rest @ [nul]) ! 0)" if "is_prefix key x"
  proof -
    have "length key \<le> length x" using that n by simp
    then have "drop (p + length key) (cmem uri) = drop (length key) x @ rest @ [nul]" using dx lx by (simp add: cmem_def)
    then show ?thesis unfolding peek_def by (metis add.right_neutral append_is_Nil_conv drop_all leI list.distinct(1) nth_drop nat_le_linear)
  qed
  show ?thesis
  proof (cases "is_prefix (key @ ''='') x")
    case True
    then obtain y where y: "x = key @ CHR ''='' # y" by (auto simp: is_prefix_iff)
    then have "is_prefix key x" by simp
    then have "n = length key" "peek (cmem uri) (p + length key) = Some (CHR ''='')" using n pk y by simp_all
    moreover have "strchr (cmem uri) (p + length key + 1) (CHR ''&'') = Some (if rest = [] then None else Some (p + length x))"
      using sc [of "length key + 1"] y by (simp add: add.assoc)
    moreover have "c_str_at (cmem uri) (p + length key + 1) = Some (y @ rest)"
      using c_str_cmem [OF assms(1), of "p + length key + 1"] dx [of "length key + 1"] lx y by (simp add: add.assoc)
    moreover have "take (length y) (drop (p + length key + 1) (cmem uri)) = y"
      using dx [of "length key + 1"] lx y by (simp add: cmem_def add.assoc)
    ultimately show ?thesis using assms(4) km y True by (auto simp: find_query.simps [of _ _ _ p] Let_def)
  next
    case False
    have "peek (cmem uri) (p + length key) \<noteq> Some (CHR ''='')" if k: "n = length key"
    proof
      assume "peek (cmem uri) (p + length key) = Some (CHR ''='')"
      then have c: "(drop (length key) x @ rest @ [nul]) ! 0 = CHR ''=''" using pk k n by simp
      have "drop (length key) x \<noteq> []"
      proof
        assume "drop (length key) x = []"
        then show False using c assms(7) by (cases rest) (auto simp: nul_def)
      qed
      then show False using False c k n prefix_piece [of key x] by (cases "drop (length key) x") auto
    qed
    then show ?thesis using skip pk n False by auto
  qed
qed

lemma find_query_split:
  assumes "nul \<notin> set uri" and "nul \<notin> set key" and "CHR ''&'' \<notin> set key" and "p \<le> length uri"
  shows "find_query (cmem uri) (length uri) key p = Some (pick key (split_at (\<lambda>c. c = CHR ''&'') (drop p uri)))"
  using assms(4)
proof (induction "length uri - p" arbitrary: p rule: less_induct)
  case less
  show ?case
  proof (cases "p < length uri")
    case False
    then have "drop p uri = []" by simp
    moreover have "\<not> is_prefix (key @ ''='') []" by (cases key) simp_all
    ultimately show ?thesis using False by (simp add: find_query.simps [of _ _ _ p] pick_def)
  next
    case p: True
    show ?thesis
    proof (rule first_piece [of "drop p uri" "\<lambda>c. c = CHR ''&''"])
      assume o: "\<forall>c \<in> set (drop p uri). c \<noteq> CHR ''&''"
      have amp: "CHR ''&'' \<notin> set (drop p uri)" using o by blast
      have "find_query (cmem uri) (length uri) key p =
          (if is_prefix (key @ ''='') (drop p uri) then Some (drop (length key + 1) (drop p uri)) else if ([] :: string) = [] then Some []
           else find_query (cmem uri) (length uri) key (p + length (drop p uri) + 1))"
        by (rule find_query_piece [OF assms(1-3) p _ amp]) simp_all
      then show ?thesis unfolding split_at_none [OF o] pick_def by simp
    next
      fix x d y
      assume r: "drop p uri = x @ d # y" "\<forall>c \<in> set x. c \<noteq> CHR ''&''" "d = CHR ''&''"
      have l: "length uri - p = length x + Suc (length y)" using arg_cong [OF r(1), of length] by simp
      have "drop (p + length x + 1) uri = drop (length x + 1) (drop p uri)" by (simp add: add.commute)
      then have y: "drop (p + length x + 1) uri = y" using r(1) by simp
      have "find_query (cmem uri) (length uri) key (p + length x + 1) = Some (pick key (split_at (\<lambda>c. c = CHR ''&'') y))"
        using less.hyps [of "p + length x + 1"] l p unfolding y by simp
      moreover have "find_query (cmem uri) (length uri) key p = (if is_prefix (key @ ''='') x then Some (drop (length key + 1) x)
          else find_query (cmem uri) (length uri) key (p + length x + 1))"
        using find_query_piece [OF assms(1-3) p r(1)] r(2,3) by force
      ultimately show ?thesis using r by (simp add: split_at_delim pick_def)
    qed
  qed
qed

section \<open>Properties of the query\<close>

lemma find_query_value:
  assumes "nul \<notin> set uri" and "nul \<notin> set key" and "CHR ''&'' \<notin> set key"
  shows "FindQueryFromURI uri key = Some (query_value uri key)"
proof (cases "CHR ''?'' \<in> set uri")
  case False
  then have f: "find_char (CHR ''?'') uri = None" and d: "dropWhile (\<lambda>c. c \<noteq> CHR ''?'') uri = []" by (auto simp: find_char_None)
  show ?thesis unfolding query_value_def d using f strchr_cmem [OF assms(1), of 0] by (simp add: FindQueryFromURI_def)
next
  case True
  then obtain a q where u: "uri = a @ CHR ''?'' # q" "CHR ''?'' \<notin> set a" by (meson split_list_first)
  then have "find_char (CHR ''?'') uri = Some (length a)" by (simp add: find_char_append)
  moreover have "dropWhile (\<lambda>c. c \<noteq> CHR ''?'') uri = CHR ''?'' # q" using u by (auto simp: dropWhile_append)
  moreover have "find_query (cmem uri) (length uri) key (length a + 1) = Some (pick key (split_at (\<lambda>c. c = CHR ''&'') q))"
    using find_query_split [OF assms, of "length a + 1"] u(1) by simp
  ultimately show ?thesis using strchr_cmem [OF assms(1), of 0] by (simp add: FindQueryFromURI_def query_value_def pick_def)
qed

text \<open>C31. \<open>FindQueryFromURI\<close> finds what its description says: the value of the first parameter with that key, and an
  empty string if there is none. It never reads outside the string, for every URI and every key
  without a zero character and without an ampersand.\<close>

theorem FindQueryFromURI_value:
  assumes "nul \<notin> set uri" and "nul \<notin> set key" and "CHR ''&'' \<notin> set key"
  shows "FindQueryFromURI uri key = Some (query_value uri key)"
  using assms by (rule find_query_value)

theorem FindQueryFromURI_value_witness:
  "FindQueryFromURI ''/get?ab=1&a=2&a=3'' ''a'' = Some ''2'' \<and> query_value ''/get?ab=1&a=2&a=3'' ''a'' = ''2''"
proof -
  have "query_value ''/get?ab=1&a=2&a=3'' ''a'' = ''2''" by (simp add: query_value_def)
  then show ?thesis using FindQueryFromURI_value [of "''/get?ab=1&a=2&a=3''" "''a''"] by (simp add: nul_def)
qed

section \<open>Request context and service\<close>

text \<open>What libevent knows of a request.\<close>

record evhttp_req =
  er_post :: bool
  er_input :: string
  er_path :: string
  er_uri :: string
  er_remote_host :: string

record http_context =
  cx_uri :: string
  cx_remote_ip :: string
  cx_code :: int
  cx_body :: string
  cx_req :: evhttp_req

definition Context_new :: "evhttp_req \<Rightarrow> http_context" where
  "Context_new r = \<lparr>cx_uri = [], cx_remote_ip = [], cx_code = 200, cx_body = [], cx_req = r\<rparr>"

definition Context_Init :: "http_context \<Rightarrow> http_context option" where
  "Context_Init c = do {
     let r = cx_req c;
     let c = (if er_post r \<and> er_input r \<noteq> [] then c\<lparr>cx_body := er_input r\<rparr> else c);
     let c = c\<lparr>cx_uri := er_path r\<rparr>;
     ip \<leftarrow> FindClientIPFromURI (er_uri r);
     Some (c\<lparr>cx_remote_ip := (if ip = [] then er_remote_host r else ip)\<rparr>) }"

definition GetQuery :: "http_context \<Rightarrow> string \<Rightarrow> string option" where
  "GetQuery c key = FindQueryFromURI (er_uri (cx_req c)) key"

text \<open>
  Handlers are numbers. A service records what it does with a request: it calls a handler with the context,
  or sends a reply with a code and a body.
\<close>

datatype service_action = CallHandler nat http_context | Reply evhttp_req int "string option"

record http_service =
  sv_evhttp :: bool
  sv_callbacks :: "(string, nat) stdmap"
  sv_default :: "nat option"
  sv_tasks :: "(http_context \<times> string) list"
  sv_log :: "service_action list"

definition Service_new :: "bool \<Rightarrow> http_service" where
  "Service_new ok = \<lparr>sv_evhttp = ok, sv_callbacks = [], sv_default = None, sv_tasks = [], sv_log = []\<rparr>"

definition RegisterHandler :: "string \<Rightarrow> nat \<Rightarrow> http_service \<Rightarrow> http_service" where
  "RegisterHandler uri f v = v\<lparr>sv_callbacks := map_set (sv_callbacks v) uri f\<rparr>"

definition RegisterDefaultHandler :: "nat \<Rightarrow> http_service \<Rightarrow> http_service" where
  "RegisterDefaultHandler f v = v\<lparr>sv_default := Some f\<rparr>"

definition Service_Stop :: "http_service \<Rightarrow> http_service" where
  "Service_Stop v = v\<lparr>sv_evhttp := False, sv_callbacks := [], sv_default := None\<rparr>"

definition log_action :: "service_action \<Rightarrow> http_service \<Rightarrow> http_service" where
  "log_action x v = v\<lparr>sv_log := sv_log v @ [x]\<rparr>"

definition DefaultHandleRequest :: "http_context \<Rightarrow> http_service \<Rightarrow> http_service" where
  "DefaultHandleRequest c v =
     (case sv_default v of
        Some f \<Rightarrow> log_action (CallHandler f c) v
      | None \<Rightarrow> log_action (Reply (cx_req c) 400 None) v)"

definition HandleRequest :: "evhttp_req \<Rightarrow> http_service \<Rightarrow> http_service option" where
  "HandleRequest r v = do {
     c \<leftarrow> Context_Init (Context_new r);
     Some (if sv_callbacks v = [] then DefaultHandleRequest c v
           else case map_find (sv_callbacks v) (cx_uri c) of
                  Some f \<Rightarrow> log_action (CallHandler f c) v
                | None \<Rightarrow> DefaultHandleRequest c v) }"

text \<open>\<open>SendReply\<close> queues a functor in the listening loop if the loop runs; the functor sends the reply.\<close>

definition SendReply :: "bool \<Rightarrow> http_context \<Rightarrow> string \<Rightarrow> http_service \<Rightarrow> http_service" where
  "SendReply running c response_data v = (if running then v\<lparr>sv_tasks := sv_tasks v @ [(c, response_data)]\<rparr> else v)"

definition send_reply_in_loop :: "http_context \<Rightarrow> string \<Rightarrow> http_service \<Rightarrow> http_service option" where
  "send_reply_in_loop c response_data v =
     (if \<not> sv_evhttp v then Some v
      else if response_data = [] then Some (log_action (Reply (cx_req c) 404 None) v)
      else do {
        assert_that (cx_code c \<le> 1000);
        assert_that (cx_code c \<ge> 100);
        Some (log_action (Reply (cx_req c) (cx_code c) (Some response_data)) v) })"

text \<open>The context that a handler gets: the body of a POST request, and as address of the client the parameter
  \<open>clientip\<close> of the URI or, if that is missing, the peer's.\<close>

definition request_context :: "evhttp_req \<Rightarrow> http_context" where
  "request_context r =
     (let ip = query_value (er_uri r) ''clientip''
      in \<lparr>cx_uri = er_path r, cx_remote_ip = (if ip = [] then er_remote_host r else ip), cx_code = 200,
          cx_body = (if er_post r then er_input r else []), cx_req = r\<rparr>)"

lemma Context_Init_value:
  assumes "nul \<notin> set (er_uri r)"
  shows "Context_Init (Context_new r) = Some (request_context r)"
proof -
  have "FindClientIPFromURI (er_uri r) = Some (query_value (er_uri r) ''clientip'')"
    unfolding FindClientIPFromURI_def using find_query_value [OF assms, of "''clientip''"] by (simp add: nul_def)
  then show ?thesis by (simp add: Context_Init_def Context_new_def request_context_def Let_def)
qed

lemma find_registered:
  "map_find (sv_callbacks (fold (\<lambda>(u, f). RegisterHandler u f) regs v)) = map_find (sv_callbacks v) ++ map_of (rev regs)"
  "sv_default (fold (\<lambda>(u, f). RegisterHandler u f) regs v) = sv_default v"
  by (induction regs arbitrary: v) (auto simp: RegisterHandler_def map_add_upd_left fun_eq_iff map_add_def split: option.splits)

text \<open>A request is dispatched exactly once: to the handler registered last for its path, else to the default
  handler, else it is refused with code 400.\<close>

lemma Service_dispatch:
  assumes "nul \<notin> set (er_uri r)" and "v = fold (\<lambda>(u, f). RegisterHandler u f) regs (Service_new True)"
  shows "HandleRequest r (if d = None then v else RegisterDefaultHandler (the d) v) = Some (log_action
    (case map_of (rev regs) (er_path r) of Some f \<Rightarrow> CallHandler f (request_context r)
     | None \<Rightarrow> (case d of Some f \<Rightarrow> CallHandler f (request_context r) | None \<Rightarrow> Reply r 400 None))
    (if d = None then v else RegisterDefaultHandler (the d) v))"
proof -
  let ?v = "if d = None then v else RegisterDefaultHandler (the d) v"
  have "map_find (sv_callbacks ?v) = map_of (rev regs)" "sv_default ?v = d"
    using find_registered [of regs "Service_new True"] assms(2) by (auto simp: RegisterDefaultHandler_def Service_new_def)
  moreover have "cx_uri (request_context r) = er_path r" "cx_req (request_context r) = r" by (simp_all add: request_context_def Let_def)
  moreover have "map_find (sv_callbacks ?v) (er_path r) = None" if "sv_callbacks ?v = []" using that by (metis map_find_Nil)
  ultimately show ?thesis
    using Context_Init_value [OF assms(1)]
    by (auto simp: HandleRequest_def DefaultHandleRequest_def split: option.splits)
qed

section \<open>URLs\<close>

record url_parser =
  u_schema :: string
  u_host :: string
  u_port :: int
  u_path :: string
  u_query :: string

definition lower_char :: "char \<Rightarrow> char" where
  "lower_char c = (if (of_char c :: nat) \<in> {65..90} then char_of (of_char c + 32 :: nat) else c)"

definition equal_key :: "char \<Rightarrow> bool" where
  "equal_key v \<longleftrightarrow> v = CHR '':'' \<or> v = CHR ''/'' \<or> v = CHR ''?'' \<or> v = CHR ''#''"

definition is_question_or_sharp :: "char \<Rightarrow> bool" where
  "is_question_or_sharp v \<longleftrightarrow> v = CHR ''?'' \<or> v = CHR ''#''"

text \<open>The iterator \<open>it\<close> is the rest of the text from there. The parts of \<open>parse\<close> behind the host:\<close>

definition parse_port :: "string \<Rightarrow> url_parser \<Rightarrow> string \<times> url_parser" where
  "parse_port it u =
     (case it of
        c # r \<Rightarrow> if c = CHR '':'' then (if r \<noteq> [] then (dropWhile (\<lambda>c. \<not> equal_key c) r, u\<lparr>u_port := atoi (c_str r)\<rparr>) else (r, u)) else (it, u)
      | [] \<Rightarrow> (it, u))"

definition parse_path :: "string \<Rightarrow> url_parser \<Rightarrow> string \<times> url_parser" where
  "parse_path it u =
     (case it of
        c # r \<Rightarrow> if c = CHR ''/'' then (dropWhile (\<lambda>c. \<not> is_question_or_sharp c) it, u\<lparr>u_path := takeWhile (\<lambda>c. \<not> is_question_or_sharp c) it\<rparr>) else (it, u)
      | [] \<Rightarrow> (it, u))"

definition parse_query :: "string \<Rightarrow> url_parser \<Rightarrow> url_parser" where
  "parse_query it u =
     (case it of
        c # r \<Rightarrow> if c = CHR ''?'' \<and> r \<noteq> [] then u\<lparr>u_query := r\<rparr> else u
      | [] \<Rightarrow> u)"

definition URLParser_parse :: "string \<Rightarrow> url_parser" where
  "URLParser_parse url =
     (let u = \<lparr>u_schema = [], u_host = [], u_port = 80, u_path = [], u_query = []\<rparr>;
          (rest, u) = (case find_str ''://'' url of
             Some i \<Rightarrow> (drop (i + 3) url, u\<lparr>u_schema := map lower_char (take i url)\<rparr>)
           | None \<Rightarrow> (url, u));
          u = u\<lparr>u_host := map lower_char (takeWhile (\<lambda>c. \<not> equal_key c) rest)\<rparr>;
          it = dropWhile (\<lambda>c. \<not> equal_key c) rest
      in if it = [] then u
         else let (it, u) = parse_port it u;
                  (it, u) = parse_path it u
              in parse_query it u)"

text \<open>A URL with all its parts.\<close>

definition print_url :: "string \<Rightarrow> string \<Rightarrow> nat \<Rightarrow> string \<Rightarrow> string \<Rightarrow> string" where
  "print_url schema host port path query =
     schema @ ''://'' @ host @ '':'' @ to_string port @ path @ (if query = [] then [] else CHR ''?'' # query)"

lemma find_schema: "CHR '':'' \<notin> set schema \<Longrightarrow> find_str ''://'' (schema @ ''://'' @ r) = Some (length schema)"
  by (induction schema) auto

lemma atoi_prefix:
  assumes "t = [] \<or> \<not> is_digit (hd t)"
  shows "atoi (c_str (to_string n @ t)) = int n"
proof -
  obtain d ds where n: "to_string n = d # ds" using to_string_not_Nil [of n] by (cases "to_string n") auto
  have dig: "list_all is_digit (to_string n)" by (rule to_string_digits)
  then have "CHR 0x00 \<notin> set (to_string n)" by (rule digits_no) (simp add: is_digit_def)
  then have c: "c_str (to_string n @ t) = d # (ds @ c_str t)" using n by (auto simp: c_str_def takeWhile_append)
  have "takeWhile is_digit (c_str t) = []" using assms by (cases t) (auto simp: c_str_def)
  moreover have "\<forall>x \<in> set (d # ds). is_digit x" using dig n by (simp add: list_all_iff)
  ultimately have tw: "takeWhile is_digit (d # (ds @ c_str t)) = d # ds" by (simp add: takeWhile_append)
  have "\<not> isspace d \<and> d \<noteq> CHR ''-'' \<and> d \<noteq> CHR ''+''" using dig n by (intro digit_not_special) simp
  then have "atoi (d # (ds @ c_str t)) = int (number_of (d # ds))"
    by (simp add: atoi_def tw del: takeWhile.simps)
  then show ?thesis using c n number_of_to_string [of n] by simp
qed

lemma key_not_digit: "equal_key c \<Longrightarrow> \<not> is_digit c"
  by (auto simp: equal_key_def is_digit_def)



text \<open>Without a scheme, a \<open>://\<close> in the query is taken for the end of one: the host is then the one of the query.\<close>

lemma URLParser_scheme_in_query:
  "u_host (URLParser_parse ''example.org/go?to=http://other.org'') = ''other.org''"
  by code_simp

text \<open>The limit of \<open>StringSplit\<close> does not count empty parts.\<close>

lemma StringSplit_over_limit: "StringSplit '',,,'' '','' 2 = [[], [], [], []]"
  by code_simp

end
