(* ===== verification/Dns.thy ===== *)
theory Dns
  imports Timer
begin

text \<open>
  \<open>evpp::DNSResolver\<close> (\<open>thirdpartlibs/evpp/evpp/dns_resolver.h\<close>, \<open>dns_resolver.cc\<close>): a name is resolved by
  libevent's resolver, watched by a timer, and the user's functor is called with the addresses.

  Three things happen in any order: the resolver calls back, the timer fires, the user cancels.
  libevent is described by \<open>dr_request\<close>, the state of the request in it: it calls back once for each request, and with
  \<open>EVUTIL_EAI_CANCEL\<close> exactly when the request was cancelled, which is forbidden after the callback. A result of
  \<open>None\<close> is a failed assertion, a null pointer or such a forbidden call. The functor of the user does not call the
  resolver.
\<close>

section \<open>The resolver\<close>

datatype dns_error = EaiOk | EaiCancel | EaiError int

datatype dns_request = NoRequest | Outstanding | Cancelling

record dns_resolver =
  dr_base :: bool
  dr_req :: bool
  dr_timeout :: int
  dr_functor :: bool
  dr_timer :: "timer_watcher option"
  dr_addrs :: "bytes list"
  dr_self :: bool
  dr_request :: dns_request
  dr_calls :: "bytes list list"

definition DNSResolver_new :: "int \<Rightarrow> dns_resolver" where
  "DNSResolver_new timeout = \<lparr>dr_base = False, dr_req = False, dr_timeout = timeout, dr_functor = True, dr_timer = None,
     dr_addrs = [], dr_self = False, dr_request = NoRequest, dr_calls = []\<rparr>"

text \<open>The assertions of the destructor.\<close>

definition DNSResolver_destructible :: "dns_resolver \<Rightarrow> bool" where
  "DNSResolver_destructible R \<longleftrightarrow> \<not> dr_base R \<and> dr_timer R = None"

definition DNS_OnResolved_done :: "dns_resolver \<Rightarrow> dns_resolver" where
  "DNS_OnResolved_done R = (if dr_functor R then R\<lparr>dr_calls := dr_calls R @ [dr_addrs R], dr_functor := False\<rparr> else R)"

text \<open>\<open>evdns_getaddrinfo_cancel(dns_req_)\<close>, then \<open>dns_req_ = nullptr\<close>.\<close>

definition cancel_request :: "dns_resolver \<Rightarrow> dns_resolver option" where
  "cancel_request R = do {
     assert_that (dr_req R \<and> dr_request R = Outstanding);
     Some (R\<lparr>dr_request := Cancelling, dr_req := False\<rparr>) }"

definition DNS_OnCanceled :: "dns_resolver \<Rightarrow> dns_resolver option" where
  "DNS_OnCanceled R = cancel_request R"

text \<open>\<open>EventWatcher::Cancel\<close> on \<open>timer_\<close>, whose callback is \<open>OnCanceled\<close>.\<close>

definition DNS_timer_Cancel :: "dns_resolver \<Rightarrow> dns_resolver option" where
  "DNS_timer_Cancel R = do {
     w \<leftarrow> dr_timer R;
     assert_that (ew_event w);
     let w = FreeEvent w;
     let R = R\<lparr>dr_timer := Some w\<rparr>;
     (if ew_cancel_fn w then do {
        R \<leftarrow> DNS_OnCanceled R;
        Some (R\<lparr>dr_timer := Some (w\<lparr>ew_cancel_fn := False\<rparr>)\<rparr>) }
      else Some R) }"

definition DNS_ClearTimer :: "dns_resolver \<Rightarrow> dns_resolver option" where
  "DNS_ClearTimer R = do {
     w \<leftarrow> dr_timer R;
     R \<leftarrow> DNS_timer_Cancel (R\<lparr>dr_timer := Some (w\<lparr>ew_cancel_fn := False\<rparr>)\<rparr>);
     Some (R\<lparr>dr_timer := None\<rparr>) }"

definition DNS_Cancel :: "dns_resolver \<Rightarrow> dns_resolver option" where
  "DNS_Cancel R = do {
     R \<leftarrow> (case dr_timer R of None \<Rightarrow> Some R | Some _ \<Rightarrow> do { R \<leftarrow> DNS_timer_Cancel R; Some (R\<lparr>dr_timer := None\<rparr>) });
     Some (R\<lparr>dr_functor := False\<rparr>) }"

definition DNS_AsyncWait :: "bool \<Rightarrow> dns_resolver \<Rightarrow> dns_resolver" where
  "DNS_AsyncWait add_ok R =
     (let w = (TimerEventWatcher_new (dr_timeout R))\<lparr>ew_cancel_fn := True\<rparr>;
          (rc, w) = TimerEventWatcher_AsyncWait add_ok w
      in R\<lparr>dr_timer := Some w\<rparr>)"

definition DNS_OnTimeout :: "dns_resolver \<Rightarrow> dns_resolver option" where
  "DNS_OnTimeout R = do {
     R \<leftarrow> cancel_request R;
     R \<leftarrow> DNS_ClearTimer R;
     Some (DNS_OnResolved_done R) }"

text \<open>The loop over the answer; the address of an entry is read from the bytes 4 to 7 of its \<open>sockaddr\<close>, whatever its family.\<close>

fun collect_addrs :: "bytes list \<Rightarrow> bytes list \<Rightarrow> bytes list" where
  "collect_addrs addrs [] = addrs"
| "collect_addrs addrs (rp # rps) =
     (let a = take 4 (drop 4 rp) in if a = [0, 0, 0, 0] then collect_addrs addrs rps else collect_addrs (addrs @ [a]) rps)"

definition DNS_free_base :: "dns_resolver \<Rightarrow> dns_resolver option" where
  "DNS_free_base R = do { assert_that (dr_base R); Some (R\<lparr>dr_base := False\<rparr>) }"

definition DNS_OnResolved :: "dns_error \<Rightarrow> bytes list option \<Rightarrow> dns_resolver \<Rightarrow> dns_resolver option" where
  "DNS_OnResolved errcode addr R =
     (if errcode \<noteq> EaiOk then do {
        R \<leftarrow> (if errcode \<noteq> EaiCancel then DNS_ClearTimer R else Some R);
        R \<leftarrow> DNS_free_base R;
        Some (DNS_OnResolved_done R) }
      else case addr of
        None \<Rightarrow> do {
          R \<leftarrow> DNS_free_base R;
          R \<leftarrow> DNS_ClearTimer R;
          Some (DNS_OnResolved_done R) }
      | Some rps \<Rightarrow> do {
          R \<leftarrow> DNS_ClearTimer (R\<lparr>dr_addrs := collect_addrs (dr_addrs R) rps\<rparr>);
          R \<leftarrow> DNS_free_base R;
          Some (DNS_OnResolved_done R) })"

text \<open>The callback given to libevent; \<open>dr_self\<close> is the reference that keeps the resolver alive until then.\<close>

definition DNS_OnResolved_cb :: "dns_error \<Rightarrow> bytes list option \<Rightarrow> dns_resolver \<Rightarrow> dns_resolver option" where
  "DNS_OnResolved_cb errcode addr R = do {
     R \<leftarrow> DNS_OnResolved errcode addr (R\<lparr>dr_request := NoRequest\<rparr>);
     Some (R\<lparr>dr_self := False\<rparr>) }"

text \<open>\<open>now\<close> is the answer if \<open>evdns_getaddrinfo\<close> has it at once, as for an address in digits; it then calls back and returns null.\<close>

definition AsyncDNSResolve :: "bool \<Rightarrow> (dns_error \<times> bytes list option) option \<Rightarrow> dns_resolver \<Rightarrow> dns_resolver option" where
  "AsyncDNSResolve add_ok now R =
     (let R = (DNS_AsyncWait add_ok R)\<lparr>dr_self := True, dr_base := True, dr_request := Outstanding\<rparr>
      in case now of
           None \<Rightarrow> Some (R\<lparr>dr_req := True\<rparr>)
         | Some (e, a) \<Rightarrow> do { R \<leftarrow> DNS_OnResolved_cb e a R; Some (R\<lparr>dr_req := False\<rparr>) })"

definition SyncDNSResolve :: "bytes list option \<Rightarrow> dns_resolver \<Rightarrow> dns_resolver" where
  "SyncDNSResolve answer R =
     DNS_OnResolved_done (case answer of None \<Rightarrow> R | Some rps \<Rightarrow> R\<lparr>dr_addrs := collect_addrs (dr_addrs R) rps\<rparr>)"

section \<open>Steps\<close>

datatype dns_op = DnsStart bool "(dns_error \<times> bytes list option) option" | DnsAnswer dns_error "bytes list option" | DnsTimer | DnsCancel

definition timer_fires :: "dns_resolver \<Rightarrow> dns_resolver" where
  "timer_fires R = R\<lparr>dr_timer := map_option (\<lambda>w. w\<lparr>ew_pending := False\<rparr>) (dr_timer R)\<rparr>"

text \<open>Recorded with the resolver: that it was started, which is done once, and that its user cancelled it.\<close>

record dns_run =
  ds_started :: bool
  ds_cancelled :: bool
  ds_res :: dns_resolver

definition on_res :: "(dns_resolver \<Rightarrow> dns_resolver option) \<Rightarrow> dns_run \<Rightarrow> dns_run option" where
  "on_res f s = do { R \<leftarrow> f (ds_res s); Some (s\<lparr>ds_res := R\<rparr>) }"

fun dns_do :: "dns_op \<Rightarrow> dns_run \<Rightarrow> dns_run option" where
  "dns_do (DnsStart add_ok now) s = on_res (AsyncDNSResolve add_ok now) (s\<lparr>ds_started := True\<rparr>)"
| "dns_do (DnsAnswer e a) s = on_res (DNS_OnResolved_cb e a) s"
| "dns_do DnsTimer s = on_res (\<lambda>R. DNS_OnTimeout (timer_fires R)) s"
| "dns_do DnsCancel s = on_res DNS_Cancel (s\<lparr>ds_cancelled := True\<rparr>)"

fun dns_enabled :: "dns_op \<Rightarrow> dns_run \<Rightarrow> bool" where
  "dns_enabled (DnsStart add_ok now) s \<longleftrightarrow> \<not> ds_started s \<and> (case now of Some (e, a) \<Rightarrow> e \<noteq> EaiCancel | None \<Rightarrow> True)"
| "dns_enabled (DnsAnswer e a) s \<longleftrightarrow>
     (case dr_request (ds_res s) of NoRequest \<Rightarrow> False | Outstanding \<Rightarrow> e \<noteq> EaiCancel | Cancelling \<Rightarrow> e = EaiCancel)"
| "dns_enabled DnsTimer s \<longleftrightarrow> (case dr_timer (ds_res s) of Some w \<Rightarrow> ew_pending w \<and> ew_timed w | None \<Rightarrow> False)"
| "dns_enabled DnsCancel s \<longleftrightarrow> True"

definition dns_init :: "dns_run \<Rightarrow> bool" where
  "dns_init s \<longleftrightarrow> (\<exists>timeout. s = \<lparr>ds_started = False, ds_cancelled = False, ds_res = DNSResolver_new timeout\<rparr>)"

section \<open>Lemmas\<close>

text \<open>A resolver is new, waits for libevent, waits for a cancelled request, or is finished.\<close>

definition dns_waiting :: "dns_resolver \<Rightarrow> bool" where
  "dns_waiting R \<longleftrightarrow> dr_base R \<and> dr_self R \<and> dr_addrs R = [] \<and> dr_calls R = [] \<and> dr_request R = Outstanding \<and>
     (\<exists>w. dr_timer R = Some w \<and> live_watcher w)"

definition dns_cancelling :: "dns_resolver \<Rightarrow> bool" where
  "dns_cancelling R \<longleftrightarrow> dr_base R \<and> dr_self R \<and> dr_request R = Cancelling \<and> dr_timer R = None \<and> \<not> dr_functor R"

definition dns_finished :: "dns_resolver \<Rightarrow> bool" where
  "dns_finished R \<longleftrightarrow> DNSResolver_destructible R \<and> \<not> dr_self R \<and> dr_request R = NoRequest \<and> \<not> dr_functor R"

definition dns_fresh :: "dns_resolver \<Rightarrow> bool" where
  "dns_fresh R \<longleftrightarrow> DNSResolver_destructible R \<and> \<not> dr_self R \<and> dr_request R = NoRequest \<and> dr_addrs R = [] \<and> dr_calls R = []"

definition dns_calls_ok :: "dns_run \<Rightarrow> bool" where
  "dns_calls_ok s \<longleftrightarrow> length (dr_calls (ds_res s)) \<le> 1 \<and> (dr_functor (ds_res s) \<longrightarrow> dr_calls (ds_res s) = []) \<and>
     (\<not> dr_functor (ds_res s) \<longrightarrow> ds_cancelled s \<or> dr_calls (ds_res s) \<noteq> [])"

definition dns_inv :: "dns_run \<Rightarrow> bool" where
  "dns_inv s \<longleftrightarrow> dns_calls_ok s \<and>
     (if \<not> ds_started s then dns_fresh (ds_res s)
      else dns_waiting (ds_res s) \<and> dr_req (ds_res s) \<or> dns_cancelling (ds_res s) \<or> dns_finished (ds_res s))"

lemma wp_ClearTimer:
  assumes "dr_timer R = Some w" and "ew_event w"
  shows "DNS_ClearTimer R = Some (R\<lparr>dr_timer := None\<rparr>)"
  using assms by (simp add: DNS_ClearTimer_def DNS_timer_Cancel_def FreeEvent_def Let_def)

lemma collect_addrs_filter: "collect_addrs addrs rps = addrs @ filter (\<lambda>a. a \<noteq> [0, 0, 0, 0]) (map (\<lambda>rp. take 4 (drop 4 rp)) rps)"
  by (induction rps arbitrary: addrs) (simp_all add: Let_def)

text \<open>What the callback does to a waiting resolver, and to one whose request was cancelled.\<close>

definition answer_addrs :: "dns_error \<Rightarrow> bytes list option \<Rightarrow> bytes list" where
  "answer_addrs e a = (case (e, a) of (EaiOk, Some rps) \<Rightarrow> filter (\<lambda>a. a \<noteq> [0, 0, 0, 0]) (map (\<lambda>rp. take 4 (drop 4 rp)) rps) | _ \<Rightarrow> [])"

lemma answer_waiting:
  assumes "dns_waiting R" and "e \<noteq> EaiCancel"
  shows "wp (DNS_OnResolved_cb e a R) (\<lambda>R'. dns_finished R' \<and>
     dr_calls R' = (if dr_functor R then [answer_addrs e a] else []))"
proof -
  obtain w where w: "dr_timer R = Some w" "ew_event w" using assms(1) by (auto simp: dns_waiting_def live_watcher_def)
  then show ?thesis using assms
    by (cases e; cases a)
      (auto simp: dns_waiting_def DNS_OnResolved_cb_def DNS_OnResolved_def DNS_free_base_def wp_ClearTimer [where w = w]
        DNS_OnResolved_done_def dns_finished_def DNSResolver_destructible_def answer_addrs_def collect_addrs_filter)
qed

lemma answer_cancelling:
  assumes "dns_cancelling R"
  shows "wp (DNS_OnResolved_cb EaiCancel a R) (\<lambda>R'. dns_finished R' \<and> dr_calls R' = dr_calls R)"
  using assms
  by (simp add: dns_cancelling_def DNS_OnResolved_cb_def DNS_OnResolved_def DNS_free_base_def DNS_OnResolved_done_def
      dns_finished_def DNSResolver_destructible_def)

lemma timeout_waiting:
  assumes "dns_waiting R" and "dr_req R"
  shows "wp (DNS_OnTimeout (timer_fires R)) (\<lambda>R'. dns_cancelling R' \<and> dr_calls R' = (if dr_functor R then [[]] else []))"
proof -
  obtain w where w: "dr_timer R = Some w" "ew_event w" using assms(1) by (auto simp: dns_waiting_def live_watcher_def)
  then show ?thesis using assms
    by (simp add: dns_waiting_def DNS_OnTimeout_def timer_fires_def cancel_request_def wp_ClearTimer [where w = "w\<lparr>ew_pending := False\<rparr>"]
        DNS_OnResolved_done_def dns_cancelling_def)
qed

lemma cancel_waiting:
  assumes "dns_waiting R" and "dr_req R"
  shows "wp (DNS_Cancel R) (\<lambda>R'. dns_cancelling R' \<and> dr_calls R' = [])"
  using assms
  by (auto simp: dns_waiting_def live_watcher_def DNS_Cancel_def DNS_timer_Cancel_def DNS_OnCanceled_def cancel_request_def
      dns_cancelling_def FreeEvent_def Let_def)

lemma AsyncWait_waiting:
  assumes "dns_fresh R"
  shows "dns_waiting ((DNS_AsyncWait ok R)\<lparr>dr_self := True, dr_base := True, dr_request := Outstanding\<rparr>) \<and>
    dr_functor (DNS_AsyncWait ok R) = dr_functor R"
  using assms
  by (simp add: dns_fresh_def dns_waiting_def DNS_AsyncWait_def TimerEventWatcher_AsyncWait_def TimerEventWatcher_new_def
      Watch_def live_watcher_def Let_def)

lemma dns_finished_req [simp]: "dns_finished (R\<lparr>dr_req := b\<rparr>) = dns_finished R" "dns_waiting (R\<lparr>dr_req := b\<rparr>) = dns_waiting R"
  by (simp_all add: dns_finished_def dns_waiting_def DNSResolver_destructible_def)

lemma wp_on_res [simp]: "wp (on_res f s) Q \<longleftrightarrow> wp (f (ds_res s)) (\<lambda>R. Q (s\<lparr>ds_res := R\<rparr>))"
  by (cases "f (ds_res s)") (simp_all add: on_res_def)

lemma dns_finished_inv:
  assumes "dns_finished R" and "length (dr_calls R) \<le> 1" and "ds_cancelled s \<or> dr_calls R \<noteq> []" and "ds_started s"
  shows "dns_inv (s\<lparr>ds_res := R\<rparr>)"
  using assms by (auto simp: dns_inv_def dns_calls_ok_def dns_finished_def)

lemma dns_cancelling_inv:
  assumes "dns_cancelling R" and "length (dr_calls R) \<le> 1" and "ds_cancelled s \<or> dr_calls R \<noteq> []" and "ds_started s"
  shows "dns_inv (s\<lparr>ds_res := R\<rparr>)"
  using assms by (auto simp: dns_inv_def dns_calls_ok_def dns_cancelling_def)

lemma waiting_functor: "dns_inv s \<Longrightarrow> dr_calls (ds_res s) = [] \<Longrightarrow> dr_functor (ds_res s) \<or> ds_cancelled s"
  by (auto simp: dns_inv_def dns_calls_ok_def)

lemma start_inv:
  assumes i: "dns_inv s" and e: "dns_enabled (DnsStart ok now) s"
  shows "wp (dns_do (DnsStart ok now) s) dns_inv"
proof -
  let ?R = "(DNS_AsyncWait ok (ds_res s))\<lparr>dr_self := True, dr_base := True, dr_request := Outstanding\<rparr>"
  have f: "dns_fresh (ds_res s)" and c: "dr_functor (ds_res s) \<or> ds_cancelled s"
    using i e by (auto simp: dns_inv_def dns_calls_ok_def dns_fresh_def)
  note w = AsyncWait_waiting [OF f, of ok]
  show ?thesis
  proof (cases now)
    case None
    then show ?thesis using w c by (auto simp: AsyncDNSResolve_def dns_inv_def dns_calls_ok_def dns_waiting_def Let_def)
  next
    case (Some ea)
    then have "fst ea \<noteq> EaiCancel" using e by (cases ea) simp
    from answer_waiting [OF conjunct1 [OF w] this, of "snd ea"] obtain R' where
      R': "DNS_OnResolved_cb (fst ea) (snd ea) ?R = Some R'" "dns_finished R'"
        "dr_calls R' = (if dr_functor (ds_res s) then [answer_addrs (fst ea) (snd ea)] else [])"
      using w by (auto simp: wp_def)
    then have "dns_inv (s\<lparr>ds_started := True, ds_res := R'\<lparr>dr_req := False\<rparr>\<rparr>)"
      using dns_finished_inv [of "R'\<lparr>dr_req := False\<rparr>" "s\<lparr>ds_started := True\<rparr>"] c by auto
    then show ?thesis using R'(1) Some by (cases ea) (simp add: AsyncDNSResolve_def Let_def)
  qed
qed

lemma answer_phase:
  assumes "dns_inv s" and "dns_enabled (DnsAnswer err a) s"
  shows "dns_waiting (ds_res s) \<and> err \<noteq> EaiCancel \<or> dns_cancelling (ds_res s) \<and> err = EaiCancel"
  using assms by (auto simp: dns_inv_def dns_fresh_def dns_waiting_def dns_cancelling_def dns_finished_def split: if_splits)

lemma answer_inv:
  assumes i: "dns_inv s" and e: "dns_enabled (DnsAnswer err a) s"
  shows "wp (dns_do (DnsAnswer err a) s) dns_inv"
proof -
  have st: "ds_started s" using i e by (auto simp: dns_inv_def dns_fresh_def split: if_splits)
  from answer_phase [OF i e] show ?thesis
  proof (elim disjE conjE)
    assume w: "dns_waiting (ds_res s)" "err \<noteq> EaiCancel"
    then have c: "dr_functor (ds_res s) \<or> ds_cancelled s" using waiting_functor [OF i] by (simp add: dns_waiting_def)
    have "dns_inv (s\<lparr>ds_res := R\<rparr>)"
      if "dns_finished R \<and> dr_calls R = (if dr_functor (ds_res s) then [answer_addrs err a] else [])" for R
      using that c st by (intro dns_finished_inv) auto
    then show ?thesis using wp_mono [OF answer_waiting [OF w, of a], of "\<lambda>R. dns_inv (s\<lparr>ds_res := R\<rparr>)"] by simp
  next
    assume c: "dns_cancelling (ds_res s)" "err = EaiCancel"
    have "dns_inv (s\<lparr>ds_res := R\<rparr>)" if "dns_finished R \<and> dr_calls R = dr_calls (ds_res s)" for R
      using that c(1) st i by (intro dns_finished_inv) (auto simp: dns_inv_def dns_calls_ok_def dns_cancelling_def)
    then show ?thesis using wp_mono [OF answer_cancelling [OF c(1), of a], of "\<lambda>R. dns_inv (s\<lparr>ds_res := R\<rparr>)"] c(2) by simp
  qed
qed

lemma cancel_inv:
  assumes i: "dns_inv s"
  shows "wp (dns_do DnsCancel s) dns_inv"
proof (cases "ds_started s \<and> dns_waiting (ds_res s)")
  case True
  then have "dr_req (ds_res s)" using i by (auto simp: dns_inv_def dns_waiting_def dns_cancelling_def dns_finished_def)
  then show ?thesis using cancel_waiting [of "ds_res s"] True dns_cancelling_inv [where s = "s\<lparr>ds_cancelled := True\<rparr>"]
    by (auto elim!: wp_mono)
next
  case False
  then have "dr_timer (ds_res s) = None"
    using i by (auto simp: dns_inv_def dns_fresh_def dns_cancelling_def dns_finished_def DNSResolver_destructible_def split: if_splits)
  then show ?thesis using i False
    by (auto simp: DNS_Cancel_def dns_inv_def dns_calls_ok_def dns_fresh_def dns_cancelling_def dns_finished_def DNSResolver_destructible_def
        split: if_splits)
qed

lemma timer_inv_step:
  assumes i: "dns_inv s" and e: "dns_enabled DnsTimer s"
  shows "wp (dns_do DnsTimer s) dns_inv"
proof -
  have w: "ds_started s" "dns_waiting (ds_res s)" "dr_req (ds_res s)"
    using i e by (auto simp: dns_inv_def dns_fresh_def dns_cancelling_def dns_finished_def DNSResolver_destructible_def split: if_splits)
  have "dns_inv (s\<lparr>ds_res := R\<rparr>)" if "dns_cancelling R \<and> dr_calls R = (if dr_functor (ds_res s) then [[]] else [])" for R
    using that w(1) waiting_functor [OF i] w(2) by (intro dns_cancelling_inv) (auto simp: dns_waiting_def)
  with timeout_waiting [OF w(2,3)] show ?thesis by (auto elim!: wp_mono)
qed

interpretation dns: guarded_steps dns_init dns_enabled dns_do dns_inv
proof
  fix s
  assume "dns_init s"
  then show "dns_inv s"
    by (auto simp: dns_init_def dns_inv_def dns_calls_ok_def dns_fresh_def DNSResolver_new_def DNSResolver_destructible_def)
next
  fix s op
  assume i: "dns_inv s" and e: "dns_enabled op s"
  show "wp (dns_do op s) dns_inv"
  proof (cases op)
    case (DnsStart ok now)
    then show ?thesis using start_inv [OF i] e by blast
  next
    case (DnsAnswer err a)
    then show ?thesis using answer_inv [OF i] e by blast
  next
    case DnsTimer
    then show ?thesis using timer_inv_step [OF i] e by blast
  next
    case DnsCancel
    then show ?thesis using cancel_inv [OF i] by blast
  qed
qed

section \<open>Properties\<close>

definition dns_reach :: "dns_run \<Rightarrow> bool" where
  "dns_reach = reachable dns_init dns_enabled dns_do"

text \<open>C23. The functor of a resolver is called at most once, in every interleaving of the answer, the time-out and the
  cancellation; none of these steps fails an assertion, meets a null pointer or cancels a request that was answered. And
  when a started resolver has no request in libevent, its functor has been called exactly once or the
  user cancelled, nothing holds the resolver and the assertions of its destructor hold.\<close>

theorem DNSResolver_calls_once:
  assumes "dns_reach s"
  shows "length (dr_calls (ds_res s)) \<le> 1 \<and> (\<forall>op. dns_enabled op s \<longrightarrow> dns_do op s \<noteq> None) \<and>
    (ds_started s \<and> dr_request (ds_res s) = NoRequest \<longrightarrow>
       DNSResolver_destructible (ds_res s) \<and> \<not> dr_self (ds_res s) \<and> (length (dr_calls (ds_res s)) = 1 \<or> ds_cancelled s))"
proof -
  note r = assms [unfolded dns_reach_def]
  note i = dns.reachable_inv [OF r]
  have "length (dr_calls (ds_res s)) \<le> 1" using i by (simp add: dns_inv_def dns_calls_ok_def)
  moreover have "\<forall>op. dns_enabled op s \<longrightarrow> dns_do op s \<noteq> None" using dns.no_failure [OF r] by blast
  moreover have "DNSResolver_destructible (ds_res s) \<and> \<not> dr_self (ds_res s) \<and> (length (dr_calls (ds_res s)) = 1 \<or> ds_cancelled s)"
    if "ds_started s" "dr_request (ds_res s) = NoRequest"
  proof -
    have "dns_finished (ds_res s)" using i that by (auto simp: dns_inv_def dns_waiting_def dns_cancelling_def)
    then show ?thesis using i by (auto simp: dns_finished_def dns_inv_def dns_calls_ok_def le_Suc_eq)
  qed
  ultimately show ?thesis by blast
qed

definition sample_dns :: dns_run where
  "sample_dns = \<lparr>ds_started = False, ds_cancelled = False, ds_res = DNSResolver_new 1000000\<rparr>"

lemma sample_dns_init: "dns_init sample_dns"
  by (auto simp: dns_init_def sample_dns_def)

lemma sample_timeout_run:
  "wp (run_steps dns_enabled dns_do [DnsStart True None, DnsTimer, DnsCancel, DnsAnswer EaiCancel None] sample_dns)
     (\<lambda>s. ds_started s \<and> dr_request (ds_res s) = NoRequest \<and> dr_calls (ds_res s) = [[]])"
  unfolding wp_case by code_simp

theorem DNSResolver_calls_once_witness:
  "\<exists>s. dns_reach s \<and> dr_calls (ds_res s) = [[]] \<and> DNSResolver_destructible (ds_res s)"
proof -
  from wp_run_steps_reachable [where init = dns_init, OF sample_timeout_run sample_dns_init] obtain s where
    "dns_reach s" "ds_started s \<and> dr_request (ds_res s) = NoRequest \<and> dr_calls (ds_res s) = [[]]"
    unfolding dns_reach_def by blast
  with DNSResolver_calls_once [OF this(1)] show ?thesis by blast
qed

text \<open>The callback of libevent completes the resolution: in every reachable state with a request, the enabled answer ends it, and
  the functor, if it was neither called nor cancelled, gets the answer's IPv4 addresses without the zero ones, none after an error.\<close>

theorem DNSResolver_answer:
  assumes "dns_reach s" and "dns_enabled (DnsAnswer e a) s"
  shows "wp (dns_do (DnsAnswer e a) s) (\<lambda>s'. dr_request (ds_res s') = NoRequest \<and> DNSResolver_destructible (ds_res s') \<and>
    dr_calls (ds_res s') = (if dr_functor (ds_res s) then [answer_addrs e a] else dr_calls (ds_res s)))"
proof -
  note i = dns.reachable_inv [OF assms(1) [unfolded dns_reach_def]]
  from answer_phase [OF i assms(2)] show ?thesis
  proof (elim disjE conjE)
    assume w: "dns_waiting (ds_res s)" "e \<noteq> EaiCancel"
    then show ?thesis using wp_mono [OF answer_waiting [OF w, of a]] by (auto simp: dns_finished_def dns_waiting_def elim!: wp_mono)
  next
    assume c: "dns_cancelling (ds_res s)" "e = EaiCancel"
    then show ?thesis using wp_mono [OF answer_cancelling [OF c(1), of a]]
      by (auto simp: dns_finished_def dns_cancelling_def elim!: wp_mono)
  qed
qed

lemma sample_started_run:
  "wp (run_steps dns_enabled dns_do [DnsStart True None] sample_dns)
     (\<lambda>s. dr_functor (ds_res s) \<and> dr_request (ds_res s) = Outstanding)"
  unfolding wp_case by code_simp

theorem DNSResolver_answer_witness:
  "\<exists>s. dns_reach s \<and> wp (dns_do (DnsAnswer EaiOk (Some [[2, 0, 0, 0, 127, 0, 0, 1], [10, 0, 0, 0, 0, 0, 0, 0]])) s)
     (\<lambda>s'. dr_calls (ds_res s') = [[[127, 0, 0, 1]]])"
proof -
  let ?a = "Some [[2, 0, 0, 0, 127, 0, 0, 1], [10, 0, 0, 0, 0, 0, 0, 0 :: 8 word]]"
  from wp_run_steps_reachable [where init = dns_init, OF sample_started_run sample_dns_init] obtain s where
    s: "dns_reach s" "dr_functor (ds_res s)" "dr_request (ds_res s) = Outstanding"
    unfolding dns_reach_def by blast
  have "answer_addrs EaiOk ?a = [[127, 0, 0, 1]]" by code_simp
  moreover have "dns_enabled (DnsAnswer EaiOk ?a) s" using s(3) by simp
  ultimately have "wp (dns_do (DnsAnswer EaiOk ?a) s) (\<lambda>s'. dr_calls (ds_res s') = [[[127, 0, 0, 1]]])"
    by (intro wp_mono [OF DNSResolver_answer [OF s(1), of EaiOk ?a]]) (simp_all add: s(2))
  with s(1) show ?thesis by blast
qed

text \<open>The variant without libevent's resolver calls the functor within \<open>Start\<close>.\<close>

lemma SyncDNSResolve_calls:
  "dr_calls (SyncDNSResolve answer (DNSResolver_new t)) =
     [case answer of None \<Rightarrow> [] | Some rps \<Rightarrow> answer_addrs EaiOk (Some rps)] \<and>
   DNSResolver_destructible (SyncDNSResolve answer (DNSResolver_new t))"
  by (simp add: SyncDNSResolve_def DNS_OnResolved_done_def DNSResolver_new_def DNSResolver_destructible_def answer_addrs_def
      collect_addrs_filter split: option.splits)

end
