(* ===== verification/Udp.thy ===== *)
theory Udp
  imports HttpText LoopPool Sockets Config
begin

text \<open>
  \<open>evpp::udp::Server\<close> (\<open>thirdpartlibs/evpp/evpp/udp/udp_server.h\<close>, \<open>udp_server.cc\<close>): threads that receive datagrams and
  hand them to the user's handler, in a worker loop or directly.

  A receiving thread looks at its status twice in each round, to see whether it is paused and whether
  it runs; other threads change the status in between. So the thread is a machine with one step for
  each look, for the reception, and for the two assignments of the status. What \<open>recvfrom\<close> answers is
  an argument of the step: the datagram, or \<open>None\<close> for an error or a time-out. The calls of the handler are
  logged with the thread, the loop and the datagram.
\<close>

section \<open>The server\<close>

datatype udp_status = UdpRunning | UdpPaused | UdpStopping | UdpStopped

datatype recv_pc = NotStarted | AtStart | AtPaused | AtRunning | AtRecv | AtEnd | Ended

record recv_thread =
  rt_fd :: int
  rt_port :: int
  rt_status :: udp_status
  rt_pc :: recv_pc

record udp_server =
  us_threads :: "recv_thread list"
  us_handler :: bool
  us_pool :: "loop_pool option"
  us_round_robin :: bool
  us_buf_size :: nat
  us_log :: "(nat \<times> nat option \<times> bytes) list"

definition udp_Server_new :: udp_server where
  "udp_Server_new = \<lparr>us_threads = [], us_handler = False, us_pool = None, us_round_robin = True, us_buf_size = 1472, us_log = []\<rparr>"

definition RecvThread_new :: recv_thread where
  "RecvThread_new = \<lparr>rt_fd = -1, rt_port = -1, rt_status = UdpStopped, rt_pc = NotStarted\<rparr>"

definition RecvThread_Listen :: "int \<Rightarrow> int \<Rightarrow> recv_thread \<Rightarrow> bool \<times> recv_thread" where
  "RecvThread_Listen fd p t = (fd \<ge> 0, t\<lparr>rt_port := p, rt_fd := fd\<rparr>)"

definition RecvThread_Run :: "recv_thread \<Rightarrow> recv_thread" where
  "RecvThread_Run t = t\<lparr>rt_pc := AtStart\<rparr>"

definition RecvThread_Stop :: "recv_thread \<Rightarrow> recv_thread option" where
  "RecvThread_Stop t = do { assert_that (rt_status t = UdpRunning \<or> rt_status t = UdpPaused); Some (t\<lparr>rt_status := UdpStopping\<rparr>) }"

definition RecvThread_Pause :: "recv_thread \<Rightarrow> recv_thread option" where
  "RecvThread_Pause t = do { assert_that (rt_status t = UdpRunning); Some (t\<lparr>rt_status := UdpPaused\<rparr>) }"

definition RecvThread_Continue :: "recv_thread \<Rightarrow> recv_thread option" where
  "RecvThread_Continue t = do { assert_that (rt_status t = UdpPaused); Some (t\<lparr>rt_status := UdpRunning\<rparr>) }"

text \<open>\<open>create p\<close> is the descriptor that \<open>CreateUDPServer\<close> answers.\<close>

definition udp_Init :: "(int \<Rightarrow> int) \<Rightarrow> int \<Rightarrow> udp_server \<Rightarrow> (bool \<times> udp_server) option" where
  "udp_Init create port S = do {
     let (ret, t) = RecvThread_Listen (create port) port RecvThread_new;
     assert_that ret;
     Some (ret, S\<lparr>us_threads := us_threads S @ [t]\<rparr>) }"

fun udp_Init_ports :: "(int \<Rightarrow> int) \<Rightarrow> int list \<Rightarrow> udp_server \<Rightarrow> (bool \<times> udp_server) option" where
  "udp_Init_ports create [] S = Some (True, S)"
| "udp_Init_ports create (p # ps) S = do {
     (ok, S) \<leftarrow> udp_Init create p S;
     if ok then udp_Init_ports create ps S else Some (False, S) }"

text \<open>The loop that converts the parts of the list of ports.\<close>

fun port_numbers :: "string list \<Rightarrow> int list option" where
  "port_numbers [] = Some []"
| "port_numbers (s # ss) =
     (let i = atoi (c_str s) in if i \<le> 0 then None else map_option (\<lambda>v. i # v) (port_numbers ss))"

definition udp_Init_text :: "(int \<Rightarrow> int) \<Rightarrow> string \<Rightarrow> udp_server \<Rightarrow> (bool \<times> udp_server) option" where
  "udp_Init_text create listen_ports S =
     (case port_numbers (StringSplit listen_ports '','' 0) of
        None \<Rightarrow> Some (False, S)
      | Some v \<Rightarrow> udp_Init_ports create v S)"

definition udp_IsRunning :: "udp_server \<Rightarrow> bool" where
  "udp_IsRunning S \<longleftrightarrow> list_all (\<lambda>t. rt_status t = UdpRunning) (us_threads S)"

definition udp_IsStopped :: "udp_server \<Rightarrow> bool" where
  "udp_IsStopped S \<longleftrightarrow> list_all (\<lambda>t. rt_status t = UdpStopped) (us_threads S)"

text \<open>\<open>Start\<close> up to its waiting loop, and the other operations, which do the same to every thread.\<close>

definition udp_Start :: "udp_server \<Rightarrow> bool \<times> udp_server" where
  "udp_Start S = (if \<not> us_handler S then (False, S) else (True, S\<lparr>us_threads := map RecvThread_Run (us_threads S)\<rparr>))"

definition all_threads :: "(recv_thread \<Rightarrow> recv_thread option) \<Rightarrow> udp_server \<Rightarrow> udp_server option" where
  "all_threads f S = do { ts \<leftarrow> those (map f (us_threads S)); Some (S\<lparr>us_threads := ts\<rparr>) }"

definition udp_Stop :: "udp_server \<Rightarrow> udp_server option" where "udp_Stop = all_threads RecvThread_Stop"
definition udp_Pause :: "udp_server \<Rightarrow> udp_server option" where "udp_Pause = all_threads RecvThread_Pause"
definition udp_Continue :: "udp_server \<Rightarrow> udp_server option" where "udp_Continue = all_threads RecvThread_Continue"

section \<open>The receiving loop\<close>

definition recv_step :: "recv_thread \<Rightarrow> recv_thread" where
  "recv_step t =
     (case rt_pc t of
        AtStart \<Rightarrow> t\<lparr>rt_status := UdpRunning, rt_pc := AtPaused\<rparr>
      | AtPaused \<Rightarrow> if rt_status t = UdpPaused then t else t\<lparr>rt_pc := AtRunning\<rparr>
      | AtRunning \<Rightarrow> if rt_status t \<noteq> UdpRunning then t\<lparr>rt_pc := AtEnd\<rparr> else t\<lparr>rt_pc := AtRecv\<rparr>
      | AtRecv \<Rightarrow> t\<lparr>rt_pc := AtPaused\<rparr>
      | AtEnd \<Rightarrow> t\<lparr>rt_status := UdpStopped, rt_pc := Ended\<rparr>
      | _ \<Rightarrow> t)"

text \<open>Where a datagram goes: \<open>s_addr\<close> are the bytes 4 to 7 of the sender's address.\<close>

definition udp_deliver :: "nat \<Rightarrow> bytes \<Rightarrow> bytes \<Rightarrow> udp_server \<Rightarrow> udp_server" where
  "udp_deliver i addr d S =
     (let (l, S) = (case us_pool S of
            None \<Rightarrow> (None, S)
          | Some P \<Rightarrow>
              if us_round_robin S then (let (l, P) = Pool_GetNextLoop P in (l, S\<lparr>us_pool := Some P\<rparr>))
              else (Pool_GetNextLoopWithHash (ucast (le_word (take 4 (drop 4 addr)) :: u32)) P, S))
      in S\<lparr>us_log := us_log S @ [(i, l, d)]\<rparr>)"

definition RecvingLoop_step :: "nat \<Rightarrow> (bytes \<times> bytes) option \<Rightarrow> udp_server \<Rightarrow> udp_server" where
  "RecvingLoop_step i r S =
     (if i < length (us_threads S) then
        (let t = us_threads S ! i;
             S' = S\<lparr>us_threads := (us_threads S)[i := recv_step t]\<rparr>
         in if rt_pc t = AtRecv then (case r of Some (addr, d) \<Rightarrow> udp_deliver i addr (take (us_buf_size S) d) S' | None \<Rightarrow> S')
            else S')
      else S)"

fun udp_run :: "(nat \<times> (bytes \<times> bytes) option) list \<Rightarrow> udp_server \<Rightarrow> udp_server" where
  "udp_run [] S = S"
| "udp_run ((i, r) # sched) S = udp_run sched (RecvingLoop_step i r S)"

section \<open>Messages and the synchronous client\<close>

text \<open>
  \<open>evpp/udp/udp_message.h\<close> and \<open>sync_udp_client.cc\<close>. The answers of the socket calls are arguments;
  \<open>sc_closed\<close> logs the descriptors passed to \<open>close\<close>. Addresses are their bytes; copying more
  bytes than an object has is undefined, \<open>None\<close>.
\<close>

definition udp_SendMessage :: "(bytes \<Rightarrow> int) \<Rightarrow> bytes \<Rightarrow> bool" where
  "udp_SendMessage sendto d \<longleftrightarrow> (if d = [] then True else sendto d = sint (word_of_nat (length d) :: u32))"

record sync_client =
  sc_fd :: int
  sc_connected :: bool
  sc_addr :: bytes
  sc_closed :: "int list"

record sync_env =
  se_socket :: int
  se_connect :: "bytes \<Rightarrow> int"
  se_send :: "bytes \<Rightarrow> int"
  se_sendto :: "bytes \<Rightarrow> bytes \<Rightarrow> int"
  se_recv :: "bytes option"

definition sync_new :: sync_client where
  "sync_new = \<lparr>sc_fd = -1, sc_connected = False, sc_addr = replicate 128 0, sc_closed = []\<rparr>"

definition sync_Close :: "sync_client \<Rightarrow> sync_client" where
  "sync_Close c = c\<lparr>sc_closed := sc_closed c @ [sc_fd c]\<rparr>"

definition sync_Connect :: "sync_env \<Rightarrow> sync_client \<Rightarrow> bool \<times> sync_client" where
  "sync_Connect E c =
     (let c = c\<lparr>sc_fd := se_socket E\<rparr>
      in if se_connect E (sc_addr c) \<noteq> 0 then (False, sync_Close c) else (True, c\<lparr>sc_connected := True\<rparr>))"

definition sync_Connect_copy :: "sync_env \<Rightarrow> bytes \<Rightarrow> sync_client \<Rightarrow> (bool \<times> sync_client) option" where
  "sync_Connect_copy E addr c = do {
     assert_that (128 \<le> length addr);
     Some (sync_Connect E (c\<lparr>sc_addr := take 128 addr\<rparr>)) }"

definition sync_Connect_addr :: "pton \<Rightarrow> sync_env \<Rightarrow> string \<Rightarrow> sync_client \<Rightarrow> (bool \<times> sync_client) option" where
  "sync_Connect_addr pton E addr c = do {
     ss \<leftarrow> ParseFromIPPort_value pton addr;
     Some (sync_Connect E (c\<lparr>sc_addr := ss\<rparr>)) }"

definition sync_Connect_host :: "pton \<Rightarrow> sync_env \<Rightarrow> string \<Rightarrow> int \<Rightarrow> sync_client \<Rightarrow> (bool \<times> sync_client) option" where
  "sync_Connect_host pton E host port c =
     (let buf = take 31 (host @ '':'' @ int_to_string port) in sync_Connect_addr pton E buf c)"

definition sync_Send :: "sync_env \<Rightarrow> bytes \<Rightarrow> sync_client \<Rightarrow> bool" where
  "sync_Send E msg c \<longleftrightarrow>
     (if sc_connected c then (word_of_int (se_send E msg) :: u64) = word_of_nat (length msg) else se_sendto E (sc_addr c) msg > 0)"

definition sync_DoRequest :: "sync_env \<Rightarrow> bytes \<Rightarrow> sync_client \<Rightarrow> bytes" where
  "sync_DoRequest E d c =
     (if \<not> sync_Send E d c then [] else case se_recv E of Some r \<Rightarrow> take 1472 r | None \<Rightarrow> [])"

text \<open>The static operations make a client of their own, whose destructor closes it.\<close>

definition sync_DoRequest_host :: "pton \<Rightarrow> sync_env \<Rightarrow> string \<Rightarrow> int \<Rightarrow> bytes \<Rightarrow> (bytes \<times> sync_client) option" where
  "sync_DoRequest_host pton E ip port d = do {
     (ok, c) \<leftarrow> sync_Connect_host pton E (c_str ip) port sync_new;
     Some (if \<not> ok then [] else sync_DoRequest E d c, sync_Close c) }"

definition sync_Send_to :: "sync_env \<Rightarrow> bytes \<Rightarrow> bytes \<Rightarrow> (bool \<times> sync_client) option" where
  "sync_Send_to E msg addr = do {
     (ok, c) \<leftarrow> sync_Connect_copy E addr sync_new;
     Some (if \<not> ok then False else sync_Send E msg c, sync_Close c) }"

section \<open>Lemmas\<close>

lemma deliver_threads [simp]: "us_threads (udp_deliver i addr d S) = us_threads S" "us_buf_size (udp_deliver i addr d S) = us_buf_size S"
  by (simp_all add: udp_deliver_def Let_def split: option.splits prod.splits)

lemma step_threads:
  "us_threads (RecvingLoop_step i r S) = (if i < length (us_threads S) then (us_threads S)[i := recv_step (us_threads S ! i)] else us_threads S)"
  by (simp add: RecvingLoop_step_def Let_def split: option.splits)

text \<open>Each thread makes its own steps.\<close>

lemma run_length [simp]: "length (us_threads (udp_run sched S)) = length (us_threads S)"
  by (induction sched S rule: udp_run.induct) (simp_all add: step_threads)

lemma run_threads:
  assumes "i < length (us_threads S)"
  shows "us_threads (udp_run sched S) ! i = (recv_step ^^ count_list (map fst sched) i) (us_threads S ! i)"
  using assms
proof (induction sched arbitrary: S)
  case (Cons e sched)
  obtain j r where e: "e = (j, r)" by force
  have "i < length (us_threads (RecvingLoop_step j r S))" using Cons.prems by (simp add: step_threads)
  note IH = Cons.IH [OF this]
  have t: "us_threads (RecvingLoop_step j r S) ! i = (if j = i then recv_step (us_threads S ! i) else us_threads S ! i)"
    using Cons.prems by (simp add: step_threads)
  show ?case
  proof (cases "j = i")
    case True
    have c: "count_list (map fst (e # sched)) i = Suc (count_list (map fst sched) i)" using True e by simp
    show ?thesis unfolding c funpow_Suc_right comp_apply using IH True t by (simp add: e)
  qed (use IH t e in simp)
qed simp

lemma ended_stays:
  assumes "rt_pc ((recv_step ^^ m) t) = Ended" and "m \<le> k"
  shows "(recv_step ^^ k) t = (recv_step ^^ m) t"
proof -
  have "(recv_step ^^ n) u = u" if "rt_pc u = Ended" for n u using that by (induction n) (simp_all add: recv_step_def)
  moreover have "(recv_step ^^ k) t = (recv_step ^^ (k - m)) ((recv_step ^^ m) t)"
    using assms(2) fun_cong [OF funpow_add [of "k - m" m recv_step], of t] by simp
  ultimately show ?thesis using assms(1) by simp
qed

lemma stopping_ends:
  assumes "rt_status t = UdpStopping" and "rt_pc t \<in> {AtPaused, AtRunning, AtRecv, AtEnd}" and "4 \<le> k"
  shows "rt_status ((recv_step ^^ k) t) = UdpStopped \<and> rt_pc ((recv_step ^^ k) t) = Ended"
proof -
  have "rt_status ((recv_step ^^ 4) t) = UdpStopped \<and> rt_pc ((recv_step ^^ 4) t) = Ended"
    using assms(1,2) by (cases "rt_pc t") (simp_all add: recv_step_def numeral_eq_Suc)
  then show ?thesis using ended_stays [of 4 t k] assms(3) by simp
qed

subsection \<open>Reachable states\<close>

definition thread_ok :: "recv_thread \<Rightarrow> bool" where
  "thread_ok t \<longleftrightarrow> (rt_status t \<in> {UdpRunning, UdpPaused} \<longrightarrow> rt_pc t \<in> {AtPaused, AtRunning, AtRecv, AtEnd}) \<and>
     (rt_status t = UdpStopping \<longrightarrow> rt_pc t \<in> {AtPaused, AtRunning, AtRecv, AtEnd}) \<and> (rt_pc t = Ended \<longrightarrow> rt_status t = UdpStopped)"

inductive udp_reach :: "udp_server \<Rightarrow> bool" where
  start: "list_all (\<lambda>t. rt_status t = UdpStopped \<and> rt_pc t = NotStarted) (us_threads S) \<Longrightarrow> udp_Start S = (True, S') \<Longrightarrow> udp_reach S'"
| thread: "udp_reach S \<Longrightarrow> udp_reach (RecvingLoop_step i r S)"
| stop: "udp_reach S \<Longrightarrow> udp_Stop S = Some S' \<Longrightarrow> udp_reach S'"
| pause: "udp_reach S \<Longrightarrow> udp_Pause S = Some S' \<Longrightarrow> udp_reach S'"
| go_on: "udp_reach S \<Longrightarrow> udp_Continue S = Some S' \<Longrightarrow> udp_reach S'"

lemma those_map: "those (map f xs) = Some ys \<longleftrightarrow> list_all2 (\<lambda>x y. f x = Some y) xs ys"
proof (induction xs arbitrary: ys)
  case (Cons x xs)
  then show ?case by (cases ys) (auto split: option.splits)
qed auto

lemma those_map_all:
  assumes "those (map f xs) = Some ys" and "list_all P xs" and "\<And>x y. P x \<Longrightarrow> f x = Some y \<Longrightarrow> Q y"
  shows "list_all Q ys \<and> length ys = length xs"
  using assms unfolding those_map by (auto simp: list_all2_conv_all_nth list_all_length)

lemma thread_ops:
  "RecvThread_Stop t = Some u \<longleftrightarrow> (rt_status t = UdpRunning \<or> rt_status t = UdpPaused) \<and> u = t\<lparr>rt_status := UdpStopping\<rparr>"
  "RecvThread_Pause t = Some u \<longleftrightarrow> rt_status t = UdpRunning \<and> u = t\<lparr>rt_status := UdpPaused\<rparr>"
  "RecvThread_Continue t = Some u \<longleftrightarrow> rt_status t = UdpPaused \<and> u = t\<lparr>rt_status := UdpRunning\<rparr>"
  by (simp_all add: RecvThread_Stop_def RecvThread_Pause_def RecvThread_Continue_def assert_that_def eq_commute)

lemma thread_ok_steps:
  "thread_ok t \<Longrightarrow> thread_ok (recv_step t)"
  "thread_ok t \<Longrightarrow> RecvThread_Stop t = Some u \<Longrightarrow> thread_ok u"
  "thread_ok t \<Longrightarrow> RecvThread_Pause t = Some u \<Longrightarrow> thread_ok u"
  "thread_ok t \<Longrightarrow> RecvThread_Continue t = Some u \<Longrightarrow> thread_ok u"
proof -
  show "thread_ok t \<Longrightarrow> thread_ok (recv_step t)" by (cases "rt_pc t"; cases "rt_status t") (simp_all add: thread_ok_def recv_step_def)
qed (auto simp: thread_ok_def thread_ops)

lemma udp_reach_ok: "udp_reach S \<Longrightarrow> list_all thread_ok (us_threads S)"
proof (induction rule: udp_reach.induct)
  case (start S S')
  then show ?case by (auto simp: udp_Start_def list_all_iff RecvThread_Run_def thread_ok_def split: if_splits)
next
  case (thread S i r)
  then show ?case by (auto simp: step_threads list_all_length nth_list_update thread_ok_steps(1))
next
  case (stop S S')
  then show ?case using those_map_all [where P = thread_ok and Q = thread_ok, OF _ _ thread_ok_steps(2)] by (auto simp: udp_Stop_def all_threads_def split: bind_splits)
next
  case (pause S S')
  then show ?case using those_map_all [where P = thread_ok and Q = thread_ok, OF _ _ thread_ok_steps(3)] by (auto simp: udp_Pause_def all_threads_def split: bind_splits)
next
  case (go_on S S')
  then show ?case using those_map_all [where P = thread_ok and Q = thread_ok, OF _ _ thread_ok_steps(4)] by (auto simp: udp_Continue_def all_threads_def split: bind_splits)
qed

section \<open>Properties\<close>




definition sample_udp :: udp_server where
  "sample_udp = udp_Server_new\<lparr>us_threads := [RecvThread_new\<lparr>rt_fd := 3, rt_port := 53\<rparr>, RecvThread_new\<lparr>rt_fd := 4, rt_port := 5353\<rparr>],
     us_handler := True\<rparr>"

definition sample_udp_started :: udp_server where
  "sample_udp_started = udp_run [(0, None), (1, None), (1, None)] (snd (udp_Start sample_udp))"

lemma sample_udp_started_reach: "udp_reach sample_udp_started"
proof -
  have "udp_reach (snd (udp_Start sample_udp))"
    by (rule udp_reach.start [of sample_udp]) (simp_all add: sample_udp_def udp_Server_new_def RecvThread_new_def udp_Start_def)
  then show ?thesis by (simp add: sample_udp_started_def udp_reach.thread)
qed


text \<open>C34. The paused server that stops: the thread tests first whether it is paused and then, with a second read of
  the status, whether it runs. A \<open>Pause\<close> that comes between the two makes the thread end: after two of
  its steps it is stopped, no later step brings it back, and \<open>Continue\<close> fails its assertion.\<close>

theorem udp_Pause_ends_thread:
  assumes "i < length (us_threads S)" and "rt_pc (us_threads S ! i) = AtRunning" and "udp_Pause S = Some S1"
    and "2 \<le> count_list (map fst sched) i"
  shows "rt_status (us_threads (udp_run sched S1) ! i) = UdpStopped \<and> udp_Continue (udp_run sched S1) = None"
proof -
  have "those (map RecvThread_Pause (us_threads S)) = Some (us_threads S1)"
    using assms(3) by (auto simp: udp_Pause_def all_threads_def split: bind_splits)
  then have l: "length (us_threads S1) = length (us_threads S)" and "RecvThread_Pause (us_threads S ! i) = Some (us_threads S1 ! i)"
    using assms(1) by (auto simp: those_map list_all2_conv_all_nth)
  then have t: "rt_status (us_threads S1 ! i) = UdpPaused" "rt_pc (us_threads S1 ! i) = AtRunning"
    using assms(2) by (simp_all add: thread_ops)
  then have "rt_status ((recv_step ^^ 2) (us_threads S1 ! i)) = UdpStopped" "rt_pc ((recv_step ^^ 2) (us_threads S1 ! i)) = Ended"
    by (simp_all add: recv_step_def numeral_eq_Suc)
  with ended_stays [OF this(2) assms(4)] have s: "rt_status (us_threads (udp_run sched S1) ! i) = UdpStopped"
    using run_threads [of i S1 sched] assms(1) l by simp
  have "RecvThread_Continue (us_threads (udp_run sched S1) ! i) = None" using s by (simp add: RecvThread_Continue_def)
  then have "those (map RecvThread_Continue (us_threads (udp_run sched S1))) = None"
    using assms(1) l by (cases "those (map RecvThread_Continue (us_threads (udp_run sched S1)))") (auto simp: those_map list_all2_conv_all_nth)
  then show ?thesis using s by (simp add: udp_Continue_def all_threads_def)
qed

theorem udp_Pause_ends_thread_witness:
  "rt_pc (us_threads sample_udp_started ! 1) = AtRunning \<and>
   wp (udp_Pause sample_udp_started) (\<lambda>S1. udp_Continue (udp_run [(1, None), (0, None), (1, None)] S1) = None)"
proof -
  have "1 < length (us_threads sample_udp_started)" "rt_pc (us_threads sample_udp_started ! 1) = AtRunning" by code_simp+
  moreover obtain S1 where "udp_Pause sample_udp_started = Some S1" by (cases "udp_Pause sample_udp_started") (code_simp, simp)
  ultimately show ?thesis using udp_Pause_ends_thread [of 1 sample_udp_started S1 "[(1, None), (0, None), (1, None)]"] by simp
qed

subsection \<open>Lists of ports\<close>

fun join_ports :: "nat list \<Rightarrow> string" where
  "join_ports [] = []"
| "join_ports [p] = to_string p"
| "join_ports (p # ps) = to_string p @ CHR '','' # join_ports ps"

lemma comma_to_string: "\<forall>c \<in> set (to_string n). \<not> c = CHR '',''"
  using digits_no [OF to_string_digits, of "CHR '',''" n] by (auto simp: is_digit_def)

lemma split_join: "ps \<noteq> [] \<Longrightarrow> split_at (\<lambda>c. c = CHR '','') (join_ports ps) = map to_string ps"
  by (induction ps rule: join_ports.induct) (simp_all add: split_at_none split_at_delim [where P = "\<lambda>c. c = CHR '',''", OF comma_to_string] comma_to_string)

lemma port_numbers_to_string: "\<forall>p \<in> set ps. 0 < p \<Longrightarrow> port_numbers (map to_string ps) = Some (map int ps)"
  using atoi_prefix [of "[]"] by (induction ps) simp_all

text \<open>A list of ports in decimal with commas between them, as the comment on \<open>Init\<close> describes it, opens exactly these ports, in this order.\<close>

theorem udp_Init_text_ports:
  assumes "ps \<noteq> []" and "\<forall>p \<in> set ps. 0 < p"
  shows "udp_Init_text create (join_ports ps) S = udp_Init_ports create (map int ps) S"
proof -
  have "join_ports ps \<noteq> []" using assms(1) by (cases ps rule: join_ports.cases) simp_all
  then have "StringSplit (join_ports ps) '','' 0 = map to_string ps" using assms(1) by (simp add: StringSplit_split split_join)
  then show ?thesis using assms(2) by (simp add: udp_Init_text_def port_numbers_to_string)
qed

subsection \<open>The synchronous client\<close>

text \<open>A request is answered with the datagram received, cut to the payload of one packet, and with nothing when a call fails; a request whose connection failed closes
  its descriptor twice, and the destructor closes the same number again.\<close>

lemma sync_DoRequest_host_result:
  assumes "ParseFromIPPort_value pton (take 31 (c_str ip @ '':'' @ int_to_string port)) = Some ss"
  shows "sync_DoRequest_host pton E ip port d = Some (
     if se_connect E ss = 0 \<and> (word_of_int (se_send E d) :: u64) = word_of_nat (length d)
     then (case se_recv E of Some r \<Rightarrow> take 1472 r | None \<Rightarrow> []) else [],
     \<lparr>sc_fd = se_socket E, sc_connected = (se_connect E ss = 0), sc_addr = ss,
      sc_closed = (if se_connect E ss = 0 then [se_socket E] else [se_socket E, se_socket E])\<rparr>)"
  using assms by (simp add: sync_DoRequest_host_def sync_Connect_host_def sync_Connect_addr_def sync_Connect_def sync_Close_def
      sync_new_def sync_DoRequest_def sync_Send_def Let_def)

text \<open>Connecting to a plain \<open>sockaddr_in\<close>, sixteen bytes, reads past its end.\<close>

lemma sync_Connect_reads_past: "length addr = 16 \<Longrightarrow> sync_Connect_copy E addr c = None \<and> sync_Send_to E msg addr = None"
  by (simp add: sync_Connect_copy_def sync_Send_to_def)

text \<open>A host name of 31 characters or more loses the colon and the port.\<close>

lemma sync_Connect_long_host:
  assumes "31 \<le> length host"
  shows "sync_Connect_host pton E host port c = sync_Connect_addr pton E (take 31 host) c"
  using assms by (simp add: sync_Connect_host_def)

end
