(* ===== verification/Spec2Isabelle.thy ===== *)
theory Spec2Isabelle
  imports ServerBase ClientSession Config DateTime EventLoop Timer Slices HttpClient HttpText Dns Udp
begin

text \<open>
  Verification of wnet: a packet networking library (\<open>src/common/net\<close>) with its helpers
  (\<open>src/common/sys\<close>), on top of the evpp event library (\<open>src/thirdpartlibs/evpp/evpp\<close>).

  \<^bold>\<open>The program.\<close> A client session (\<open>ClientSession\<close>) sends request packets over a TCP connection
  (\<open>evpp::TCPClient\<close>, \<open>Connector\<close>, \<open>TCPConn\<close>). Each request gets a channel of a pool
  (\<open>ChannelPool\<close>), whose identifier travels in the header of the packet; the reply carries it
  back, and the session finds the handler of the request with it or reports a time-out. Packets
  become bytes and bytes become packets in a streamer (\<open>DefaultPacketStreamer\<close>) that writes to
  and reads from an \<open>evpp::Buffer\<close>. The server (\<open>evpp::TCPServer\<close> with its \<open>Listener\<close> and
  \<open>EventLoopThreadPool\<close>, \<open>ServerBase\<close>, \<open>ServerConnection\<close>) accepts connections, gives each to a
  worker loop, and hands the packets to an adapter (\<open>IServerAdapter\<close>). Everything runs in event
  loops (\<open>EventLoop\<close>), to which other threads queue functors. \<open>CConfig\<close> reads and writes the
  configuration files, \<open>CDateTime\<close> prints and reads times. Beside that, evpp has an HTTP client and server,
  a name resolver and a UDP server.

  \<^bold>\<open>Conventions.\<close> An operation that can fail is a function into an option type; \<open>None\<close> is a
  failing \<open>assert\<close>, a null dereference, an access out of bounds, an uncaught exception or another
  undefined behaviour. \<open>wp m Q\<close> says that \<open>m\<close> returns and its result satisfies \<open>Q\<close>, so every
  such theorem includes that nothing fails. C++ objects that are shared are addresses in a store
  (\<open>nat \<Rightarrow> 'a option\<close>); objects with one owner are records with the members of the class. Machine
  integers are words of their width where they can wrap around. The kernel, libevent and the
  address functions are parameters (environment records such as \<open>loop_env\<close>, or functions such as
  \<open>ksend\<close>, \<open>pton\<close>, \<open>ntop\<close>), with what is assumed of them named: \<open>env_ok\<close> (libevent accepts the
  events), \<open>kernel_ok\<close> (\<open>send\<close> takes no more than it is given). User callbacks are counted or
  logged. Functors queued in a loop are lists in the state, and running one is a step; a function
  that waits for another thread takes a schedule of what the others do meanwhile.

  \<^bold>\<open>Theories\<close>, in the order of their dependency:

  \<^item> \<open>Prelude\<close>: machine integers and their layout, the option monad with its weakest
    preconditions, memory. \<open>Steps\<close>: guarded steps, reachable states and the interface
    \<open>guarded_steps\<close>. \<open>StdMap\<close>: \<open>std::map\<close> as a sorted association list, with its interface.
    \<open>CString\<close>: \<open>std::string\<close> and C strings, numbers as text, lines of a file (\<open>common/sys/common.h\<close>).
  \<^item> \<open>Packet\<close> (\<open>packet.h\<close>, \<open>packet.cc\<close>, \<open>controlpacket\<close>): packets, headers, expiry times.
    \<open>PacketQueue\<close> (\<open>packetqueue\<close>): the linked queue, which refines a list, and taking the
    expired packets out.
  \<^item> \<open>ChannelPool\<close> (\<open>channel\<close>, \<open>channelpool\<close>): the pool with its free list, use list and map. The
    invariant under all operations, fresh identifiers, replies in any order, time-outs; and the
    two defects, \<open>ChannelPool_AppendFreeList_loses\<close> and \<open>ChannelPool_wrap_duplicate\<close>.
  \<^item> \<open>Buffer\<close> (\<open>buffer.h\<close>, \<open>buffer.cc\<close>): the byte buffer with its growth and compaction as a
    byte queue (interface \<open>byte_queue\<close>), integers in network order, \<open>ReadFromFD\<close>.
  \<^item> \<open>Streamer\<close> (\<open>defaultpacketstreamer\<close>): encoding and decoding packets, interface
    \<open>packet_codec\<close>. \<open>Echo\<close> (\<open>test/echoclient.cc\<close>, \<open>test/echoserver.cc\<close>): the packets of the two
    programs, which implement it. \<open>MessageLoop\<close>: the receiving loop that client and server
    share, proved once for any handler (\<open>message_handler\<close>, \<open>stored_header\<close>), so that the chunks
    in which the bytes arrive do not matter.
  \<^item> \<open>FdChannel\<close>, \<open>TcpConn\<close> (\<open>fd_channel\<close>, \<open>tcp_conn\<close>): a connection with its event channel. In
    every reachable state the bytes on the wire are a prefix of the bytes sent and the rest is
    buffered; no handler fails; the close callback is made once.
  \<^item> \<open>Sockets\<close> (\<open>sockets\<close>): addresses as text and back. \<open>TcpClient\<close> (\<open>connector\<close>, \<open>tcp_client\<close>):
    connecting and reconnecting; an auto-reconnecting client is always connected, connecting or
    waiting to retry. \<open>LoopPool\<close> (\<open>server_status.h\<close>, \<open>event_loop_thread\<close>,
    \<open>event_loop_thread_pool\<close>): starting, stopping and joining the worker threads under any fair
    schedule. \<open>TcpServer\<close> (\<open>listener\<close>, \<open>tcp_server\<close>): accepting, dispatching, removing and
    stopping; every reachable state is well formed, stopping completes, and the race
    between \<open>Stop\<close> and the removal of the last connection.
  \<^item> \<open>EventLoop\<close> (\<open>event_loop\<close>, \<open>PipeEventWatcher\<close>): the queue of functors and the wake-up
    protocol, interleaved at every access to shared data: no wake-up is lost and every functor is
    run exactly once. \<open>Timer\<close> (\<open>duration\<close>, \<open>timestamp\<close>, \<open>TimerEventWatcher\<close>, \<open>invoke_timer\<close>):
    time arithmetic and timers.
  \<^item> \<open>ServerConn\<close> (\<open>serverconn\<close>, \<open>serverbase\<close>, \<open>iserveradapter.h\<close>, the echo server's adapter) and
    \<open>ClientSession\<close> (\<open>clientsession\<close>): the two ends. Packets are delivered exactly once and in order,
    replies reach the handlers of their requests, expired requests are notified once.
    \<open>ServerBase\<close> (\<open>serverbase.cc\<close>): \<open>Start\<close> and \<open>Stop\<close> of the whole server, with the steps of the
    condition variable between those of the TCP server: when \<open>Stop\<close> returns, and two ways in which
    it does not.
  \<^item> \<open>Config\<close> (\<open>config.h\<close>, \<open>config.cpp\<close>): loading, printing and rewriting configuration files.
    \<open>DateTime\<close> (\<open>datetime.h\<close>, \<open>datetime.inl\<close>, \<open>datetime.cpp\<close>): printing and reading times, and the
    static object that all times share.
    \<open>Slices\<close> (\<open>slice.h\<close>, \<open>memmem.h\<close>): comparing and searching bytes, against the order and the
    search of the library.
  \<^item> \<open>HttpClient\<close> (\<open>httpc/request\<close>, \<open>conn\<close>, \<open>conn_pool\<close>, \<open>response\<close>): requests with retries over a pool of
    connections. Every execution calls its handler exactly once and after a bounded number of
    events; every connection has one owner.
    \<open>HttpText\<close> (\<open>http/context\<close>, \<open>http/service\<close>, \<open>httpc/url_parser\<close>, \<open>utility.h\<close>): the query of a URI against
    its description, the handler of a request, URLs, splitting strings.
  \<^item> \<open>Dns\<close> (\<open>dns_resolver\<close>): resolving a name with a time-out; the functor is called at most once whatever comes first.
    \<open>Udp\<close> (\<open>udp/udp_server\<close>, \<open>udp_message.h\<close>, \<open>sync_udp_client\<close>): the receiving threads with their
    start, pause and stop, a pause that ends a thread, lists of ports, and the synchronous client.
  \<^item> This theory: client and server together.

  \<^bold>\<open>Loops and bounds.\<close> Loops over data are structural or have a measure. Waiting loops consume a
  schedule; the theorems give the schedules that are long enough, or quantify over all fair
  ones. \<open>srv_drain\<close> and \<open>loop_steps\<close> take the number of steps as an argument, which the theorems
  supply. Connection identifiers are 64 bits and assumed not to be used up; the 28-bit channel
  identifiers do wrap around, which is modelled.

  \<^bold>\<open>Not modelled.\<close> The application shell, crash dumps, character sets and the JSON macros, which
  are glue around libraries; TLS and the start and stop of evpp's HTTP server, which
  the packet library does not use; \<open>AfterFork\<close>; log messages;
  protobuf, glog and libevent themselves.
\<close>

section \<open>Client and server together\<close>

text \<open>Requests on different pending channels are all answered, in the order of the replies.\<close>

lemma answered_all:
  assumes "answered arr pend dflt (map (\<lambda>(k, d). (hdr k, d)) rs) calls" and "distinct (map fst rs)"
    and "\<And>k. chid (hdr k) = k"
    and "\<And>k d. (k, d) \<in> set rs \<Longrightarrow> k AND 0xFFFFFFF = k \<and> pend k \<noteq> None"
  shows "list_all2 (\<lambda>(k, d) (h, z, a). \<exists>h0. pend k = Some (h0, a) \<and> h = the (case h0 of None \<Rightarrow> dflt | Some h \<Rightarrow> Some h) \<and>
           arr (received_header (hdr k) d) d z) rs calls"
  using assms
proof (induction rs arbitrary: pend calls)
  case (Cons r rs)
  obtain k d where r: "r = (k, d)" by force
  obtain h0 a where p: "pend k = Some (h0, a)" "k AND 0xFFFFFFF = k" using Cons.prems(4) [of k d] r by auto
  with Cons.prems(1,3) r obtain z rest where
    c: "calls = (the (case h0 of None \<Rightarrow> dflt | Some h \<Rightarrow> Some h), z, a) # rest" "arr (received_header (hdr k) d) d z"
      "answered arr (pend(k := None)) dflt (map (\<lambda>(k, d). (hdr k, d)) rs) rest" by auto
  have k: "k' \<noteq> k" if "(k', d') \<in> set rs" for k' d' using Cons.prems(2) r that by force
  have "list_all2 (\<lambda>(k', d) (h, z, a). \<exists>h0. (pend(k := None)) k' = Some (h0, a) \<and> h = the (case h0 of None \<Rightarrow> dflt | Some h \<Rightarrow> Some h) \<and>
           arr (received_header (hdr k') d) d z) rs rest"
    by (rule Cons.IH [OF c(3)]) (use Cons.prems r k in auto)
  then have "list_all2 (\<lambda>(k', d) (h, z, a). \<exists>h0. pend k' = Some (h0, a) \<and> h = the (case h0 of None \<Rightarrow> dflt | Some h \<Rightarrow> Some h) \<and>
           arr (received_header (hdr k') d) d z) rs rest"
    by (rule list.rel_mono_strong) (use k in \<open>auto split: if_split_asm\<close>)
  with c(1,2) p(1) r show ?case by simp
qed simp

text \<open>The header of a request of the echo client on channel \<open>k\<close>.\<close>

definition echo_header :: "u32 \<Rightarrow> packet_header" where
  "echo_header k = header_zero\<lparr> chid := k \<rparr>"

lemma echo_replies:
  "concat (map (\<lambda>(hdr, d). echo_reply hdr d) (map (\<lambda>(k, d). (echo_header k, d)) rs)) =
   frames echo_streamer (map (\<lambda>(k, d). (echo_header k, d)) (map (\<lambda>(k, d). (k, d[21 := 97])) rs))"
  by (induction rs) (auto simp: echo_reply_def echo_header_def)

lemma echo_client_packets:
  assumes "\<And>k d. (k, d) \<in> set rs \<Longrightarrow> 0 \<notin> set d \<and> length d < DATA_MAX_SIZE"
  defines "mk \<equiv> ClientEchoPacket_SetString ClientEchoPacket_new"
  shows "map (\<lambda>(hdr, x). (hdr, ClientEchoPacket_GetString x)) (map (\<lambda>(k, d). (echo_header k, mk d)) rs) =
           map (\<lambda>(k, d). (echo_header k, d)) rs"
  using assms(1) by (auto simp: mk_def Client_GetString_SetString)

lemma echo_session_receives:
  assumes cl: "ss_streamer cl = echo_streamer" "pmem_ok (ss_mem cl)" "pool_ok (channelPool cl)"
      "defaultPacketHandler cl \<noteq> None" "\<not> ss_gotHeader cl"
    and rs: "distinct (map fst rs)"
      "\<And>k d. (k, d) \<in> set rs \<Longrightarrow> k AND 0xFFFFFFF = k \<and> pending_of (channelPool cl) k \<noteq> None \<and> 0 \<notin> set d \<and> length d < DATA_MAX_SIZE"
    and b: "buf_ok b" "unread b = []"
    and cs: "concat cs = frames echo_streamer (map (\<lambda>(k, d). (echo_header k, d)) rs)" "\<forall>c \<in> set cs. length c \<le> 2 ^ 30"
  shows "wp (receives (ClientSession_OnMessage ClientEcho log_handler) (b, cl) cs) (\<lambda>(b', cl'). unread b' = [] \<and>
           (\<exists>calls. ss_calls cl' = ss_calls cl @ calls \<and>
              list_all2 (\<lambda>(k, d) (h, z, a). \<exists>h0 y. pending_of (channelPool cl) k = Some (h0, a) \<and>
                h = the (case h0 of None \<Rightarrow> defaultPacketHandler cl | Some h \<Rightarrow> Some h) \<and>
                z = SeenPacket (received_header (echo_header k) d) y \<and> ClientEchoPacket_GetString y = d) rs calls))"
proof -
  let ?mk = "ClientEchoPacket_SetString ClientEchoPacket_new"
  let ?ps = "map (\<lambda>(k, d). (echo_header k, ?mk d)) rs"
  have mk: "echo_valid (?mk d)" for d by (rule echo_valid_SetString) (simp add: ClientEchoPacket_new_def)
  have ps: "map (\<lambda>(hdr, x). (hdr, ClientEchoPacket_GetString x)) ?ps = map (\<lambda>(k, d). (echo_header k, d)) rs"
    using rs(2) by (intro echo_client_packets) blast
  have "wp (receives (ClientSession_OnMessage ClientEcho log_handler) (b, cl) cs) (\<lambda>(b', cl'). unread b' = [] \<and>
      (\<exists>calls. ss_calls cl' = ss_calls cl @ calls \<and>
         answered (\<lambda>hdr d z. \<exists>x y. echo_valid x \<and> ClientEchoPacket_GetString x = d \<and> echo_same x y \<and> z = SeenPacket hdr y)
           (pending_of (channelPool cl)) (defaultPacketHandler cl) (map (\<lambda>(k, d). (echo_header k, d)) rs) calls))"
    by (rule wp_mono [OF wp_session_receives [OF echo.packet_codec_axioms, where ps = ?ps, unfolded ps]])
      (use cl b cs mk in \<open>auto simp: DefaultPacketStreamer_new_def\<close>)
  then show ?thesis
  proof (rule wp_mono, clarify, goal_cases)
    case (1 b' cl' calls)
    have "chid (echo_header k) = k" for k by (simp add: echo_header_def)
    from answered_all [OF 1(4) rs(1) this] rs(2)
    have "list_all2 (\<lambda>(k, d) (h, z, a). \<exists>h0. pending_of (channelPool cl) k = Some (h0, a) \<and>
        h = the (case h0 of None \<Rightarrow> defaultPacketHandler cl | Some h \<Rightarrow> Some h) \<and>
        (\<exists>x y. echo_valid x \<and> ClientEchoPacket_GetString x = d \<and> echo_same x y \<and>
          z = SeenPacket (received_header (echo_header k) d) y)) rs calls" by blast
    then have "list_all2 (\<lambda>(k, d) (h, z, a). \<exists>h0 y. pending_of (channelPool cl) k = Some (h0, a) \<and>
                h = the (case h0 of None \<Rightarrow> defaultPacketHandler cl | Some h \<Rightarrow> Some h) \<and>
                z = SeenPacket (received_header (echo_header k) d) y \<and> ClientEchoPacket_GetString y = d) rs calls"
      by (rule list.rel_mono_strong) (auto simp: echo_same_def)
    with 1 show ?case by blast
  qed
qed

text \<open>
  C1. The echo service end to end: a client session has requests pending on different channels,
  and their frames reach the server cut into chunks at any boundaries. The server consumes them;
  as long as its connection is up, whatever chunks its replies arrive in at the client, each
  request's handler is called exactly once, with the request's argument and a packet that carries
  the request's string (with the character that the server's packet class overwrites).
\<close>

theorem Echo_end_to_end:
  assumes "env_ok E" and "kernel_ok K" and "echo_inv sv" and "sc_ready sent sv" and "\<not> sc_gotHeader sv"
    and "buf_ok b" and "unread b = []" and "concat cs = frames echo_streamer (map (\<lambda>(k, d). (echo_header k, d)) rs)"
    and "\<forall>c \<in> set cs. length c \<le> 2 ^ 30"
    and "ss_streamer cl = echo_streamer" and "pmem_ok (ss_mem cl)" and "pool_ok (channelPool cl)"
    and "defaultPacketHandler cl \<noteq> None" and "\<not> ss_gotHeader cl" and "distinct (map fst rs)"
    and "\<And>k d. (k, d) \<in> set rs \<Longrightarrow> k \<noteq> 0 \<and> k AND 0xFFFFFFF = k \<and> pending_of (channelPool cl) k \<noteq> None \<and>
           0 \<notin> set d \<and> length d < DATA_MAX_SIZE"
  shows "wp (receives (ServerConnection_OnMessage EchoServer (EchoServerAdapter_HandlePacket E K)) (b, sv) cs)
     (\<lambda>(b1, sv'). unread b1 = [] \<and> (sc_IsConnected sv' \<longrightarrow> (\<exists>out. sc_ready (sent @ out) sv' \<and>
        (\<forall>b2 cs2. buf_ok b2 \<and> unread b2 = [] \<and> concat cs2 = out \<and> (\<forall>c \<in> set cs2. length c \<le> 2 ^ 30) \<longrightarrow>
           wp (receives (ClientSession_OnMessage ClientEcho log_handler) (b2, cl) cs2) (\<lambda>(b', cl'). unread b' = [] \<and>
             (\<exists>calls. ss_calls cl' = ss_calls cl @ calls \<and>
                list_all2 (\<lambda>(k, d) (h, z, a). \<exists>h0 y. pending_of (channelPool cl) k = Some (h0, a) \<and>
                  h = the (case h0 of None \<Rightarrow> defaultPacketHandler cl | Some h \<Rightarrow> Some h) \<and>
                  z = SeenPacket (received_header (echo_header k) d) y \<and> ClientEchoPacket_GetString y = d)
                  (map (\<lambda>(k, d). (k, d[21 := 97])) rs) calls))))))"
proof -
  let ?fs = "map (\<lambda>(k, d). (echo_header k, d)) rs" and ?rs = "map (\<lambda>(k, d). (k, d[21 := 97])) rs"
  have fs: "echo_request hdr d" if "(hdr, d) \<in> set ?fs" for hdr d
    using that assms(16) by (auto simp: echo_request_def echo_header_def)
  have keys: "distinct (map fst ?rs)" using assms(15) by (simp add: comp_def case_prod_unfold)
  have rs: "k AND 0xFFFFFFF = k \<and> pending_of (channelPool cl) k \<noteq> None \<and> 0 \<notin> set d \<and> length d < DATA_MAX_SIZE"
    if "(k, d) \<in> set ?rs" for k d
  proof -
    from that obtain d0 where d0: "(k, d0) \<in> set rs" "d = d0[21 := 97]" by auto
    moreover have "set (d0[21 := 97]) \<subseteq> insert 97 (set d0)" by (rule set_update_subset_insert)
    ultimately show ?thesis using assms(16) [OF d0(1)] by auto
  qed
  note home = echo_session_receives [OF assms(10-14) keys rs, folded echo_replies]
  show ?thesis
    by (rule wp_mono [OF wp_echo_receives [OF assms(1-5) fs assms(6-9)]]) (use home in auto)
qed

theorem Echo_end_to_end_witness:
  "\<exists>c. status c = kConnected \<and>
     wp (receives (ServerConnection_OnMessage EchoServer (EchoServerAdapter_HandlePacket sample_env sample_kernel))
           (sample_buffer, sample_server c) [frame echo_streamer (echo_header 3) [104]])
        (\<lambda>(b1, sv'). unread b1 = [] \<and> (sc_IsConnected sv' \<longrightarrow> (\<exists>out. sc_ready out sv' \<and>
           (\<forall>cs2. concat cs2 = out \<and> (\<forall>c \<in> set cs2. length c \<le> 2 ^ 30) \<longrightarrow>
              wp (receives (ClientSession_OnMessage ClientEcho log_handler)
                    (sample_buffer, sample_session asked_pool sample_client) cs2)
                 (\<lambda>(b', cl'). unread b' = [] \<and> (\<exists>z. ss_calls cl' = [(4, z, Some 5)]))))))"
proof -
  obtain c where c: "conn_inv c []" "status c = kConnected" using sample_connected by blast
  let ?cl = "sample_session asked_pool sample_client"
  have cl: "ss_streamer ?cl = echo_streamer" "pmem_ok (ss_mem ?cl)" "pool_ok (channelPool ?cl)"
      "defaultPacketHandler ?cl \<noteq> None" "\<not> ss_gotHeader ?cl" "pending_of (channelPool ?cl) 3 = Some (Some 4, Some 5)"
      "ss_calls ?cl = []"
    by (simp_all add: sample_session_def pmem_ok_def asked_pool_ok)
  have main: "wp (receives (ServerConnection_OnMessage EchoServer (EchoServerAdapter_HandlePacket sample_env sample_kernel))
           (sample_buffer, sample_server c) [frame echo_streamer (echo_header 3) [104]])
     (\<lambda>(b1, sv'). unread b1 = [] \<and> (sc_IsConnected sv' \<longrightarrow> (\<exists>out. sc_ready ([] @ out) sv' \<and>
        (\<forall>b2 cs2. buf_ok b2 \<and> unread b2 = [] \<and> concat cs2 = out \<and> (\<forall>c \<in> set cs2. length c \<le> 2 ^ 30) \<longrightarrow>
           wp (receives (ClientSession_OnMessage ClientEcho log_handler) (b2, ?cl) cs2) (\<lambda>(b', cl'). unread b' = [] \<and>
             (\<exists>calls. ss_calls cl' = ss_calls ?cl @ calls \<and>
                list_all2 (\<lambda>(k, d) (h, z, a). \<exists>h0 y. pending_of (channelPool ?cl) k = Some (h0, a) \<and>
                  h = the (case h0 of None \<Rightarrow> defaultPacketHandler ?cl | Some h \<Rightarrow> Some h) \<and>
                  z = SeenPacket (received_header (echo_header k) d) y \<and> ClientEchoPacket_GetString y = d)
                  (map (\<lambda>(k, d). (k, d[21 := 97])) [(3, [104])]) calls))))))"
    by (rule Echo_end_to_end [OF sample_ok sample_server_ok(2,1) [OF c(1)] _ _ _ _ _ cl(1-5)])
      (use cl(6) in \<open>simp_all add: sample_server_def idle_server_def DATA_MAX_SIZE_def\<close>)
  have one: "wp m (\<lambda>(b', cl'). unread b' = [] \<and> (\<exists>z. ss_calls cl' = [(4, z, Some 5)]))"
    if "wp m (\<lambda>(b', cl'). unread b' = [] \<and> (\<exists>calls. ss_calls cl' = ss_calls ?cl @ calls \<and>
          list_all2 (\<lambda>(k, d) (h, z, a). \<exists>h0 y. pending_of (channelPool ?cl) k = Some (h0, a) \<and>
                  h = the (case h0 of None \<Rightarrow> defaultPacketHandler ?cl | Some h \<Rightarrow> Some h) \<and>
                  z = SeenPacket (received_header (echo_header k) d) y \<and> ClientEchoPacket_GetString y = d)
            (map (\<lambda>(k, d). (k, d[21 := 97])) [(3, [104])]) calls))" for m :: "(buffer \<times> echo_packet session) option"
    using that by (rule wp_mono) (use cl(6,7) in \<open>auto simp: list_all2_Cons1\<close>)
  show ?thesis
  proof (rule exI [of _ c], rule conjI [OF c(2)], rule wp_mono [OF main],
      unfold split_paired_all prod.case, elim conjE, rule conjI)
    fix b1 :: buffer and sv'
    assume "unread b1 = []"
    then show "unread b1 = []" .
  next
    fix sv'
    assume 1: "sc_IsConnected sv' \<longrightarrow> (\<exists>out. sc_ready ([] @ out) sv' \<and>
        (\<forall>b2 cs2. buf_ok b2 \<and> unread b2 = [] \<and> concat cs2 = out \<and> (\<forall>c \<in> set cs2. length c \<le> 2 ^ 30) \<longrightarrow>
           wp (receives (ClientSession_OnMessage ClientEcho log_handler) (b2, ?cl) cs2) (\<lambda>(b', cl'). unread b' = [] \<and>
             (\<exists>calls. ss_calls cl' = ss_calls ?cl @ calls \<and>
                list_all2 (\<lambda>(k, d) (h, z, a). \<exists>h0 y. pending_of (channelPool ?cl) k = Some (h0, a) \<and>
                  h = the (case h0 of None \<Rightarrow> defaultPacketHandler ?cl | Some h \<Rightarrow> Some h) \<and>
                  z = SeenPacket (received_header (echo_header k) d) y \<and> ClientEchoPacket_GetString y = d)
                  (map (\<lambda>(k, d). (k, d[21 := 97])) [(3, [104])]) calls))))"
    show "sc_IsConnected sv' \<longrightarrow> (\<exists>out. sc_ready out sv' \<and>
           (\<forall>cs2. concat cs2 = out \<and> (\<forall>c \<in> set cs2. length c \<le> 2 ^ 30) \<longrightarrow>
              wp (receives (ClientSession_OnMessage ClientEcho log_handler) (sample_buffer, ?cl) cs2)
                 (\<lambda>(b', cl'). unread b' = [] \<and> (\<exists>z. ss_calls cl' = [(4, z, Some 5)]))))"
    proof
      assume "sc_IsConnected sv'"
      with 1 obtain out where o: "sc_ready out sv'" "\<And>b2 cs2. buf_ok b2 \<and> unread b2 = [] \<and> concat cs2 = out \<and>
          (\<forall>c \<in> set cs2. length c \<le> 2 ^ 30) \<Longrightarrow>
          wp (receives (ClientSession_OnMessage ClientEcho log_handler) (b2, ?cl) cs2) (\<lambda>(b', cl'). unread b' = [] \<and>
             (\<exists>calls. ss_calls cl' = ss_calls ?cl @ calls \<and>
                list_all2 (\<lambda>(k, d) (h, z, a). \<exists>h0 y. pending_of (channelPool ?cl) k = Some (h0, a) \<and>
                  h = the (case h0 of None \<Rightarrow> defaultPacketHandler ?cl | Some h \<Rightarrow> Some h) \<and>
                  z = SeenPacket (received_header (echo_header k) d) y \<and> ClientEchoPacket_GetString y = d)
                  (map (\<lambda>(k, d). (k, d[21 := 97])) [(3, [104])]) calls))" by auto
      show "\<exists>out. sc_ready out sv' \<and>
           (\<forall>cs2. concat cs2 = out \<and> (\<forall>c \<in> set cs2. length c \<le> 2 ^ 30) \<longrightarrow>
              wp (receives (ClientSession_OnMessage ClientEcho log_handler) (sample_buffer, ?cl) cs2)
                 (\<lambda>(b', cl'). unread b' = [] \<and> (\<exists>z. ss_calls cl' = [(4, z, Some 5)])))"
        by (intro exI [of _ out] conjI allI impI one o) simp_all
    qed
  qed
qed

end
